(* ===== verification/VT_Prelude.thy ===== *)
theory VT_Prelude
  imports Main "HOL-Library.Word" "HOL-Library.Monad_Syntax" "HOL-Library.Signed_Division"
begin

text \<open>
  Shared vocabulary of the development: addresses and pointers, the range of a C
  \<open>int\<close>, the two collections of rewrite rules the component theories extend, and
  the facts on lists, options and maps that more than one component needs.

  An option-valued definition stands for a C function whose execution can go wrong:
  \<open>None\<close> is undefined behaviour (a null or dangling pointer, a read outside a buffer,
  signed overflow) or a loop that never ends. A theorem of the form \<open>f x = Some y\<close>
  therefore says that the code runs to its end without any of these and returns \<open>y\<close>.
\<close>

named_theorems cell_simps "reading and writing single list cells"
named_theorems text_simps "character and buffer facts"

type_synonym addr = nat
type_synonym ptr = "addr option"

text \<open>Results of the C API (\<open>includes.h\<close>, \<open>utils/linkedlist.h\<close>).\<close>

abbreviation (input) SUCCESS :: int where "SUCCESS \<equiv> 1"
abbreviation (input) FAIL :: int where "FAIL \<equiv> -1"

abbreviation (input) INT_MAX :: int where "INT_MAX \<equiv> 2147483647"
abbreviation (input) INT_MIN :: int where "INT_MIN \<equiv> -2147483648"

abbreviation (input) BUFSIZE :: nat where "BUFSIZE \<equiv> 2000"

text \<open>How a call ends: it returns, waits for data, ends the process, or is undefined.\<close>

datatype 'a outcome = Returns 'a | Blocks | Exits int | Faults

definition fits_int :: "int \<Rightarrow> bool" where
  "fits_int n \<longleftrightarrow> INT_MIN \<le> n \<and> n \<le> INT_MAX"

lemma fits_intI [intro]: "INT_MIN \<le> n \<Longrightarrow> n \<le> INT_MAX \<Longrightarrow> fits_int n"
  by (simp add: fits_int_def)

lemma fits_intD: "fits_int n \<Longrightarrow> INT_MIN \<le> n \<and> n \<le> INT_MAX"
  by (simp add: fits_int_def)

text \<open>A 32-bit word read back as a signed number, when the number fits.\<close>

lemma sint_word_of_int_fits: "fits_int n \<Longrightarrow> sint (word_of_int n :: 32 word) = n"
  by (simp add: sint_sbintrunc' signed_take_bit_int_eq_self fits_int_def)

lemma sint_fits_int: "fits_int (sint (w :: 32 word))"
  using sint_range_size [of w] by (simp add: fits_int_def word_size)

subsection \<open>Lists\<close>

text \<open>Reading position \<open>i\<close> of a buffer: \<open>None\<close> past its end.\<close>

definition at :: "'a list \<Rightarrow> nat \<Rightarrow> 'a option" where
  "at xs i = (if i < length xs then Some (xs ! i) else None)"

lemma at_append [text_simps]:
  "at (xs @ ys) i = (if i < length xs then at xs i else at ys (i - length xs))"
  by (auto simp: at_def nth_append)

lemma at_Cons_0 [simp]: "at (x # xs) 0 = Some x"
  by (simp add: at_def)

lemma at_Cons_Suc [simp]: "at (x # xs) (Suc i) = at xs i"
  by (simp add: at_def)

lemma at_length [simp]: "at (xs @ y # ys) (length xs) = Some y"
  by (simp add: at_def)

lemma takeWhile_append_stop:
  "\<forall>x \<in> set xs. P x \<Longrightarrow> \<not> P y \<Longrightarrow> takeWhile P (xs @ y # ys) = xs"
  by (induction xs) auto

lemma dropWhile_append_stop:
  "\<forall>x \<in> set xs. P x \<Longrightarrow> \<not> P y \<Longrightarrow> dropWhile P (xs @ y # ys) = y # ys"
  by (induction xs) auto

text \<open>The first position whose element satisfies a test.\<close>

fun find_index :: "('a \<Rightarrow> bool) \<Rightarrow> 'a list \<Rightarrow> nat option" where
  "find_index P [] = None"
| "find_index P (x # xs) = (if P x then Some 0 else map_option Suc (find_index P xs))"

lemma find_index_Some:
  "find_index P xs = Some i \<Longrightarrow> i < length xs \<and> P (xs ! i) \<and> (\<forall>j < i. \<not> P (xs ! j))"
proof (induction xs arbitrary: i)
  case (Cons x xs)
  show ?case
  proof (cases "P x")
    case False
    with Cons.prems obtain j where j: "find_index P xs = Some j" "i = Suc j" by auto
    with Cons.IH [OF j(1)] False show ?thesis by (auto simp: less_Suc_eq_0_disj)
  qed (use Cons.prems in auto)
qed simp

lemma find_index_None: "find_index P xs = None \<longleftrightarrow> (\<forall>x \<in> set xs. \<not> P x)"
  by (induction xs) auto

subsection \<open>Association lists\<close>

lemma find_index_map_of:
  "find_index (\<lambda>e. fst e = k) xs = None \<longleftrightarrow> map_of xs k = None"
  by (auto simp: find_index_None map_of_eq_None_iff)

text \<open>Overwriting the first entry with key \<open>k\<close>: its value, or its key.\<close>

lemma map_of_update_first:
  "find_index (\<lambda>e. fst e = k) xs = Some j \<Longrightarrow> map_of (xs[j := (k, v)]) = (map_of xs)(k \<mapsto> v)"
  by (induction xs arbitrary: j) (auto simp: fun_eq_iff split: if_splits)

lemma map_of_rekey_first:
  "find_index (\<lambda>e. fst e = k) xs = Some j \<Longrightarrow> k' \<noteq> k \<Longrightarrow> k' \<noteq> z \<Longrightarrow>
   map_of (xs[j := (z, v)]) k' = map_of xs k'"
  by (induction xs arbitrary: j) (auto split: if_splits)

lemma map_of_rekey_distinct:
  "find_index (\<lambda>e. fst e = k) xs = Some j \<Longrightarrow> distinct (filter (\<lambda>k. k \<noteq> z) (map fst xs)) \<Longrightarrow> z \<noteq> k \<Longrightarrow>
   map_of (xs[j := (z, v)]) k = None"
  by (induction xs arbitrary: j) (auto simp: map_of_eq_None_iff [THEN iffD2] split: if_splits)

lemma map_of_rekey_new:
  "find_index (\<lambda>e. fst e = k) xs = Some j \<Longrightarrow> map_of xs z = None \<Longrightarrow>
   map_of (xs[j := (z, snd (xs ! j))]) z = map_of xs k"
  by (induction xs arbitrary: j) (auto split: if_splits)

lemma distinct_filter_rekey:
  "distinct (filter P xs) \<Longrightarrow> \<not> P z \<Longrightarrow> distinct (filter P (xs[j := z]))"
proof (induction xs arbitrary: j)
  case (Cons x xs)
  have "set (filter P (xs[j := z])) \<subseteq> set (filter P xs)" for j
    using set_update_subset_insert [of xs j z] Cons.prems(2) by auto
  with Cons show ?case by (cases j) (auto split: if_splits)
qed simp

lemma map_of_snoc_new:
  "map_of xs k = None \<Longrightarrow> map_of (xs @ [(k, v)]) = (map_of xs)(k \<mapsto> v)"
  by (induction xs) (auto simp: fun_eq_iff)

end
