(* ===== verification/C_Strings.thy ===== *)
theory C_Strings
  imports VT_Prelude
begin

text \<open>
  The character level of the program. A buffer is the list of bytes from a pointer to the
  end of the array it points into, so advancing the pointer drops elements, and a read past
  the last element is \<open>None\<close>. Modelled here: decimal output and input of the C
  library (\<open>sprintf\<close> with \<open>%d\<close>, \<open>atoi\<close>), string comparison, and
  \<open>str_to_i\<close> of \<open>utils.c\<close>.
\<close>

abbreviation NUL :: char where "NUL \<equiv> CHR 0x00"

text \<open>A \<open>char\<close> as the number it is promoted to: signed, on the platform of the code.\<close>

definition schar :: "char \<Rightarrow> int" where
  "schar c = (let n = of_char c :: int in if n < 128 then n else n - 256)"

definition is_digit :: "char \<Rightarrow> bool" where
  "is_digit c \<longleftrightarrow> (48::nat) \<le> of_char c \<and> of_char c \<le> (57::nat)"

definition digit_val :: "char \<Rightarrow> int" where
  "digit_val c = of_char c - 48"

definition digit_char :: "nat \<Rightarrow> char" where
  "digit_char d = char_of (48 + d)"

lemma is_digit_digit_char [text_simps]: "d < 10 \<Longrightarrow> is_digit (digit_char d)"
  by (simp add: is_digit_def digit_char_def)

lemma digit_val_digit_char [text_simps]: "d < 10 \<Longrightarrow> digit_val (digit_char d) = int d"
proof -
  assume "d < 10"
  then have "(of_char (digit_char d) :: nat) = 48 + d"
    by (simp add: digit_char_def)
  then have "(of_char (digit_char d) :: int) = 48 + int d"
    by (metis of_nat_add of_nat_numeral of_nat_of_char)
  then show ?thesis by (simp add: digit_val_def)
qed

lemma digit_val_range: "is_digit c \<Longrightarrow> 0 \<le> digit_val c \<and> digit_val c \<le> 9"
proof -
  assume "is_digit c"
  then have "48 \<le> (of_char c :: nat)" "(of_char c :: nat) \<le> 57" by (simp_all add: is_digit_def)
  moreover have "(of_char c :: int) = int (of_char c :: nat)" by (simp only: of_nat_of_char)
  ultimately show ?thesis by (simp add: digit_val_def)
qed

text \<open>The C string at the start of a buffer.\<close>

definition c_str :: "string \<Rightarrow> string" where
  "c_str buf = takeWhile (\<lambda>c. c \<noteq> NUL) buf"

lemma c_str_terminated: "NUL \<notin> set txt \<Longrightarrow> c_str (txt @ NUL # rest) = txt"
  unfolding c_str_def by (subst takeWhile_append2) auto

text \<open>\<open>sprintf(buf, "%d", n)\<close>.\<close>

fun show_nat :: "nat \<Rightarrow> string" where
  "show_nat n = (if n < 10 then [digit_char n] else show_nat (n div 10) @ [digit_char (n mod 10)])"

declare show_nat.simps [simp del]

definition show_int :: "int \<Rightarrow> string" where
  "show_int n = (if n < 0 then CHR ''-'' # show_nat (nat (- n)) else show_nat (nat n))"

text \<open>The value of a run of digits, on top of what was read before.\<close>

definition digits_value :: "int \<Rightarrow> string \<Rightarrow> int" where
  "digits_value = foldl (\<lambda>n c. 10 * n + digit_val c)"

lemma digits_value_Nil [simp]: "digits_value n [] = n"
  by (simp add: digits_value_def)

lemma digits_value_Cons [simp]: "digits_value n (c # cs) = digits_value (10 * n + digit_val c) cs"
  by (simp add: digits_value_def)

lemma digits_value_append [simp]: "digits_value n (xs @ ys) = digits_value (digits_value n xs) ys"
  by (simp add: digits_value_def)

lemma digits_value_mono:
  "\<forall>c \<in> set cs. is_digit c \<Longrightarrow> 0 \<le> n \<Longrightarrow> n \<le> digits_value n cs"
proof (induction cs arbitrary: n)
  case (Cons c cs)
  then have "0 \<le> digit_val c" by (simp add: digit_val_range)
  with Cons.prems have "n \<le> 10 * n + digit_val c" by simp
  also from Cons.prems \<open>0 \<le> digit_val c\<close> have "\<dots> \<le> digits_value (10 * n + digit_val c) cs"
    by (intro Cons.IH) auto
  finally show ?case by simp
qed simp

lemma show_nat_digits: "\<forall>c \<in> set (show_nat n). is_digit c"
  by (induction n rule: show_nat.induct)
     (subst show_nat.simps, auto simp: text_simps)

lemma show_nat_not_Nil [simp]: "show_nat n \<noteq> []"
  by (subst show_nat.simps) simp

lemma digits_value_show_nat: "digits_value 0 (show_nat n) = int n"
proof (induction n rule: show_nat.induct)
  case (1 n)
  show ?case
  proof (cases "n < 10")
    case True
    then show ?thesis by (subst show_nat.simps) (simp add: text_simps)
  next
    case False
    with 1 have "digits_value 0 (show_nat (n div 10)) = int (n div 10)" by simp
    with False show ?thesis by (subst show_nat.simps) (simp add: text_simps zdiv_int zmod_int)
  qed
qed

text \<open>
  \<open>atoi\<close>: white space, an optional sign, then digits up to the first other byte. The
  result is undefined (\<open>None\<close>) when the value does not fit an \<open>int\<close> or when
  the scan runs off the buffer.
\<close>

definition is_space :: "char \<Rightarrow> bool" where
  "is_space c \<longleftrightarrow>
     (let n = of_char c :: nat in n = 32 \<or> (9 \<le> n \<and> n \<le> 13))"

fun atoi_digits :: "int \<Rightarrow> string \<Rightarrow> int option" where
  "atoi_digits n [] = None"
| "atoi_digits n (c # cs) = (if is_digit c then atoi_digits (10 * n + digit_val c) cs else Some n)"

definition atoi :: "string \<Rightarrow> int option" where
  "atoi s =
     (let n = (case dropWhile is_space s of
                 [] \<Rightarrow> None
               | c # cs \<Rightarrow>
                   if c = CHR ''-'' then map_option uminus (atoi_digits 0 cs)
                   else if c = CHR ''+'' then atoi_digits 0 cs
                   else atoi_digits 0 (c # cs))
      in Option.bind n (\<lambda>v. if fits_int v then Some v else None))"

lemma atoi_digits_run:
  "\<forall>d \<in> set ds. is_digit d \<Longrightarrow> \<not> is_digit c \<Longrightarrow>
   atoi_digits n (ds @ c # cs) = Some (digits_value n ds)"
  by (induction ds arbitrary: n) auto

lemma digit_not_special:
  "is_digit c \<Longrightarrow> \<not> is_space c \<and> c \<noteq> CHR ''-'' \<and> c \<noteq> CHR ''+'' \<and> c \<noteq> NUL \<and> c \<noteq> CHR ''|'' \<and> c \<noteq> CHR '',''"
  by (auto simp: is_digit_def is_space_def)

lemma minus_not_space [text_simps]: "\<not> is_space CHR ''-''"
  by (simp add: is_space_def)

lemma NUL_not_digit [text_simps]: "\<not> is_digit NUL"
  by (simp add: is_digit_def)

lemma separators_not_digit [text_simps]: "\<not> is_digit CHR ''|''" "\<not> is_digit CHR '',''"
  by (simp_all add: is_digit_def)

lemma atoi_digit_run:
  assumes "\<forall>d \<in> set ds. is_digit d" and "ds \<noteq> []" and "\<not> is_digit c" and "digits_value 0 ds = v" and "fits_int v"
  shows "atoi (ds @ c # cs) = Some v"
proof -
  obtain d ds' where ds: "ds = d # ds'" using assms(2) by (cases ds) auto
  have "atoi_digits 0 (ds @ c # cs) = Some v" using assms(1,3,4) by (simp add: atoi_digits_run)
  moreover have "is_digit d" using assms(1) ds by simp
  ultimately show ?thesis using assms(5) digit_not_special [of d] by (simp add: atoi_def ds)
qed

lemma digits_value_acc: "digits_value n ds = n * 10 ^ length ds + digits_value 0 ds"
proof (induction ds arbitrary: n)
  case (Cons d ds)
  show ?case using Cons.IH [of "10 * n + digit_val d"] Cons.IH [of "digit_val d"]
    by (simp add: algebra_simps)
qed simp

text \<open>What \<open>sprintf\<close> wrote, \<open>atoi\<close> reads back, whatever follows the number.\<close>

lemma atoi_show_int:
  assumes "fits_int n" and "\<not> is_digit c"
  shows "atoi (show_int n @ c # cs) = Some n"
proof (cases "n < 0")
  case True
  have "atoi_digits 0 (show_nat (nat (- n)) @ c # cs) = Some (- n)"
    using True assms(2) by (simp add: atoi_digits_run show_nat_digits digits_value_show_nat)
  with True assms(1) show ?thesis
    by (simp add: atoi_def show_int_def text_simps)
next
  case False
  obtain d ds where s: "show_nat (nat n) = d # ds"
    by (cases "show_nat (nat n)") auto
  with show_nat_digits [of "nat n"] have "is_digit d" by simp
  moreover have "atoi_digits 0 (show_nat (nat n) @ c # cs) = Some n"
    using False assms(2) by (simp add: atoi_digits_run show_nat_digits digits_value_show_nat)
  ultimately show ?thesis
    using False assms(1) s digit_not_special [of d] by (simp add: atoi_def show_int_def)
qed

text \<open>No number is longer than eleven characters, so the fixed buffers hold it.\<close>

lemma show_nat_length: "n < 10 ^ Suc k \<Longrightarrow> length (show_nat n) \<le> Suc k"
proof (induction k arbitrary: n)
  case 0
  then show ?case by (subst show_nat.simps) simp
next
  case (Suc k)
  show ?case
  proof (cases "n < 10")
    case True
    then show ?thesis by (subst show_nat.simps) simp
  next
    case False
    from Suc.prems have "n div 10 < 10 ^ Suc k" by (simp add: div_less_iff_less_mult mult.commute)
    then have "length (show_nat (n div 10)) \<le> Suc k" by (rule Suc.IH)
    with False show ?thesis by (subst show_nat.simps) simp
  qed
qed

lemma show_int_length: "fits_int n \<Longrightarrow> length (show_int n) \<le> 11"
proof -
  assume "fits_int n"
  then have "nat (- n) < 10 ^ Suc 9" "nat n < 10 ^ Suc 9" by (auto simp: fits_int_def)
  then show ?thesis
    using show_nat_length [of "nat (- n)" 9] show_nat_length [of "nat n" 9]
    by (auto simp: show_int_def)
qed

lemma show_int_not_Nil [simp]: "show_int n \<noteq> []"
  by (simp add: show_int_def)

text \<open>\<open>strcmp(s, lit) == 0\<close> against a literal without a zero byte.\<close>

fun strcmp_eq :: "string \<Rightarrow> string \<Rightarrow> bool option" where
  "strcmp_eq [] lit = None"
| "strcmp_eq (c # cs) [] = Some (c = NUL)"
| "strcmp_eq (c # cs) (d # ds) = (if c = d then strcmp_eq cs ds else Some False)"

text \<open>
  \<open>str_to_i\<close>: digits up to the first other byte. The update \<open>10*n + c - '0'\<close>
  is evaluated from the left in \<open>int\<close>, so it is undefined once \<open>10*n\<close> or
  \<open>10*n + c\<close> leaves the range, also where the final value would fit.
\<close>

fun str_to_i_loop :: "int \<Rightarrow> string \<Rightarrow> int option" where
  "str_to_i_loop n [] = None"
| "str_to_i_loop n (c # cs) =
     (if is_digit c
      then if fits_int (10 * n) \<and> fits_int (10 * n + of_char c)
           then str_to_i_loop (10 * n + of_char c - 48) cs
           else None
      else Some n)"

definition str_to_i :: "string \<Rightarrow> int option" where
  "str_to_i s = str_to_i_loop 0 s"

lemma str_to_i_loop_run:
  assumes "\<forall>d \<in> set ds. is_digit d" and "\<not> is_digit c" and "0 \<le> n"
    and "digits_value n ds \<le> INT_MAX - 48"
  shows "str_to_i_loop n (ds @ c # cs) = Some (digits_value n ds)"
  using assms
proof (induction ds arbitrary: n)
  case (Cons d ds)
  have d: "of_char d = digit_val d + (48::int)" by (simp add: digit_val_def)
  from Cons.prems have r: "0 \<le> digit_val d" by (simp add: digit_val_range)
  have "10 * n + digit_val d \<le> digits_value (10 * n + digit_val d) ds"
    using Cons.prems r by (intro digits_value_mono) auto
  with Cons.prems r have "fits_int (10 * n)" "fits_int (10 * n + of_char d)"
    by (auto simp: fits_int_def d)
  then have "str_to_i_loop n ((d # ds) @ c # cs) =
      str_to_i_loop (10 * n + digit_val d) (ds @ c # cs)"
    using Cons.prems d by simp
  also have "\<dots> = Some (digits_value (10 * n + digit_val d) ds)"
    using Cons.prems r by (intro Cons.IH) auto
  finally show ?case by simp
qed simp

lemma str_to_i_digits:
  "\<forall>d \<in> set ds. is_digit d \<Longrightarrow> \<not> is_digit c \<Longrightarrow> digits_value 0 ds \<le> INT_MAX - 48 \<Longrightarrow>
   str_to_i (ds @ c # cs) = Some (digits_value 0 ds)"
  by (simp add: str_to_i_def str_to_i_loop_run)

lemma str_to_i_show_nat:
  "int n \<le> INT_MAX - 48 \<Longrightarrow> \<not> is_digit c \<Longrightarrow> str_to_i (show_nat n @ c # cs) = Some (int n)"
  by (simp add: str_to_i_digits show_nat_digits digits_value_show_nat)

end
