(* ===== verification/Linked_List.thy ===== *)
theory Linked_List
  imports VT_Prelude
begin

text \<open>
  \<open>utils/linkedlist.c\<close>: a doubly linked list on an explicit memory. \<open>nodes\<close> holds the
  allocated list cells by address, \<open>objs\<close> the allocated objects the items point to. The
  C code never looks at an item except through the list's comparison function. \<open>blocks\<close> lists
  the blocks that other functions obtain and whose contents do not matter. Reading or
  writing through a null or freed pointer is \<open>None\<close>. \<open>malloc\<close> is the environment:
  \<open>llist_append\<close> receives its result, an address with whatever the fresh cell contains,
  or \<open>None\<close> for a failed allocation.

  The representation predicate \<open>list_ok\<close> relates a list header to the addresses of its
  cells; the lemmas show what each operation does to that address list and to the items,
  that no operation faults or loops on a well-formed list, and that cells outside the list are
  never touched.
\<close>

abbreviation (input) OUT_OF_MEMORY_ERROR :: int where "OUT_OF_MEMORY_ERROR \<equiv> -1"
abbreviation (input) ELEM_NOT_FOUND :: int where "ELEM_NOT_FOUND \<equiv> -2"

record llist_elem =
  item :: ptr
  nxt :: ptr
  prv :: ptr

text \<open>
  The blocks that the library allocates for a program which reads a file: the \<open>FILE\<close> of \<open>fopen\<close> and
  the line buffer of \<open>getline\<close>.
\<close>

datatype block = Stream_Block | Line_Buffer

record 'o mem =
  nodes :: "addr \<rightharpoonup> llist_elem"
  objs :: "addr \<rightharpoonup> 'o"
  blocks :: "block list"

record 'o llist =
  l_size :: int
  l_head :: ptr
  l_tail :: ptr
  l_equals :: "(addr \<rightharpoonup> 'o) \<Rightarrow> ptr \<Rightarrow> ptr \<Rightarrow> int option"

subsection \<open>Access through pointers\<close>

definition deref :: "(addr \<rightharpoonup> 'b) \<Rightarrow> ptr \<Rightarrow> 'b option" where
  "deref h p = Option.bind p h"

definition set_nxt :: "(addr \<rightharpoonup> llist_elem) \<Rightarrow> ptr \<Rightarrow> ptr \<Rightarrow> (addr \<rightharpoonup> llist_elem) option" where
  "set_nxt h p v = do { a \<leftarrow> p; n \<leftarrow> h a; Some (h(a \<mapsto> n\<lparr>nxt := v\<rparr>)) }"

definition set_prv :: "(addr \<rightharpoonup> llist_elem) \<Rightarrow> ptr \<Rightarrow> ptr \<Rightarrow> (addr \<rightharpoonup> llist_elem) option" where
  "set_prv h p v = do { a \<leftarrow> p; n \<leftarrow> h a; Some (h(a \<mapsto> n\<lparr>prv := v\<rparr>)) }"

text \<open>\<open>free\<close>: nothing for the null pointer, undefined for a cell that is not allocated.\<close>

definition free_cell :: "(addr \<rightharpoonup> 'b) \<Rightarrow> ptr \<Rightarrow> (addr \<rightharpoonup> 'b) option" where
  "free_cell h p =
     (case p of
        None \<Rightarrow> Some h
      | Some a \<Rightarrow> if h a = None then None else Some (h(a := None)))"

lemma deref_simps [cell_simps]: "deref h None = None" "deref h (Some a) = h a"
  by (simp_all add: deref_def)

lemma set_nxt_Some [cell_simps]:
  "h a = Some n \<Longrightarrow> set_nxt h (Some a) v = Some (h(a \<mapsto> n\<lparr>nxt := v\<rparr>))"
  by (simp add: set_nxt_def)

lemma set_prv_Some [cell_simps]:
  "h a = Some n \<Longrightarrow> set_prv h (Some a) v = Some (h(a \<mapsto> n\<lparr>prv := v\<rparr>))"
  by (simp add: set_prv_def)

lemma free_cell_simps [cell_simps]:
  "free_cell h None = Some h"
  "h a = Some n \<Longrightarrow> free_cell h (Some a) = Some (h(a := None))"
  by (simp_all add: free_cell_def)

subsection \<open>The operations\<close>

definition equals :: "(addr \<rightharpoonup> 'o) \<Rightarrow> ptr \<Rightarrow> ptr \<Rightarrow> int option" where
  "equals os elem1 elem2 = Some (if elem1 = elem2 then 0 else 1)"

definition llist_init :: "'o llist" where
  "llist_init = \<lparr>l_size = 0, l_head = None, l_tail = None, l_equals = equals\<rparr>"

definition llist_set_equality_checker ::
  "'o llist \<Rightarrow> ((addr \<rightharpoonup> 'o) \<Rightarrow> ptr \<Rightarrow> ptr \<Rightarrow> int option) \<Rightarrow> 'o llist" where
  "llist_set_equality_checker l eq = l\<lparr>l_equals := eq\<rparr>"

definition llist_size :: "'o llist \<Rightarrow> int" where
  "llist_size l = l_size l"

definition llist_append ::
  "(addr \<times> llist_elem) option \<Rightarrow> 'o llist \<Rightarrow> ptr \<Rightarrow> 'o mem \<Rightarrow> (int \<times> 'o llist \<times> 'o mem) option" where
  "llist_append new_elem l it m =
     (case new_elem of
        None \<Rightarrow> Some (OUT_OF_MEMORY_ERROR, l, m)
      | Some (a, junk) \<Rightarrow>
          (let h = (nodes m)(a \<mapsto> junk\<lparr>item := it\<rparr>);
               l = l\<lparr>l_size := l_size l + 1\<rparr>
           in if l_head l = None
              then do {
                let l = l\<lparr>l_head := Some a, l_tail := Some a\<rparr>;
                h \<leftarrow> set_nxt h (l_head l) None;
                h \<leftarrow> set_prv h (l_head l) None;
                h \<leftarrow> set_nxt h (l_tail l) None;
                h \<leftarrow> set_prv h (l_tail l) None;
                Some (SUCCESS, l, m\<lparr>nodes := h\<rparr>)
              }
              else do {
                h \<leftarrow> set_nxt h (l_tail l) (Some a);
                h \<leftarrow> set_nxt h (Some a) None;
                h \<leftarrow> set_prv h (Some a) (l_tail l);
                Some (SUCCESS, l\<lparr>l_tail := Some a\<rparr>, m\<lparr>nodes := h\<rparr>)
              }))"

partial_function (option) llist_get_loop ::
  "(addr \<rightharpoonup> llist_elem) \<Rightarrow> ptr \<Rightarrow> int \<Rightarrow> int \<Rightarrow> ptr option" where
  "llist_get_loop h head i index =
     (case head of
        None \<Rightarrow> Some None
      | Some a \<Rightarrow> do {
          n \<leftarrow> h a;
          if i = index then Some (item n) else llist_get_loop h (nxt n) (i + 1) index
        })"

definition llist_get :: "'o llist \<Rightarrow> int \<Rightarrow> 'o mem \<Rightarrow> ptr option" where
  "llist_get l index m = llist_get_loop (nodes m) (l_head l) 0 index"

partial_function (option) llist_get_pos_loop ::
  "'o llist \<Rightarrow> 'o mem \<Rightarrow> ptr \<Rightarrow> ptr \<Rightarrow> int \<Rightarrow> int option" where
  "llist_get_pos_loop l m it head i =
     (case head of
        None \<Rightarrow> Some ELEM_NOT_FOUND
      | Some a \<Rightarrow> do {
          n \<leftarrow> nodes m a;
          r \<leftarrow> l_equals l (objs m) (item n) it;
          if r = 0 then Some i else llist_get_pos_loop l m it (nxt n) (i + 1)
        })"

definition llist_get_pos :: "'o llist \<Rightarrow> ptr \<Rightarrow> 'o mem \<Rightarrow> int option" where
  "llist_get_pos l it m = llist_get_pos_loop l m it (l_head l) 0"

text \<open>
  For the functions that test the list pointer itself, the list argument is an option:
  \<open>None\<close> is the null pointer.
\<close>

definition llist_requeue :: "'o llist option \<Rightarrow> 'o mem \<Rightarrow> ('o llist option \<times> 'o mem) option" where
  "llist_requeue lp m =
     (case lp of
        None \<Rightarrow> Some (None, m)
      | Some l \<Rightarrow>
          if l_size l = 0 \<or> l_size l = 1 then Some (Some l, m)
          else do {
            let head = l_head l;
            n \<leftarrow> deref (nodes m) (l_head l);
            let l = l\<lparr>l_head := nxt n\<rparr>;
            h \<leftarrow> set_prv (nodes m) (l_head l) None;
            h \<leftarrow> set_nxt h (l_tail l) head;
            h \<leftarrow> set_prv h head (l_tail l);
            let l = l\<lparr>l_tail := head\<rparr>;
            h \<leftarrow> set_nxt h (l_tail l) None;
            Some (Some l, m\<lparr>nodes := h\<rparr>)
          })"

definition llist_pop :: "'o llist option \<Rightarrow> 'o mem \<Rightarrow> (ptr \<times> 'o llist option \<times> 'o mem) option" where
  "llist_pop lp m =
     (case lp of
        None \<Rightarrow> Some (None, None, m)
      | Some l \<Rightarrow>
          if l_size l = 0 then Some (None, Some l, m)
          else do {
            let head = l_head l;
            n \<leftarrow> deref (nodes m) head;
            let result = item n;
            if l_size l = 1
            then do {
              h \<leftarrow> free_cell (nodes m) head;
              Some (result, Some (l\<lparr>l_head := None, l_tail := None, l_size := l_size l - 1\<rparr>),
                    m\<lparr>nodes := h\<rparr>)
            }
            else do {
              let l = l\<lparr>l_head := nxt n\<rparr>;
              h \<leftarrow> set_prv (nodes m) (l_head l) None;
              h \<leftarrow> free_cell h head;
              Some (result, Some (l\<lparr>l_size := l_size l - 1\<rparr>), m\<lparr>nodes := h\<rparr>)
            }
          })"

text \<open>
  The body of \<open>llist_remove_at\<close> once the cell \<open>a\<close> at the index is found: take it out of
  the chain, by the cases of the code (only or first cell, last cell, inner cell), and free it.
\<close>

definition llist_unlink :: "'o llist \<Rightarrow> addr \<Rightarrow> 'o mem \<Rightarrow> (ptr \<times> 'o llist \<times> 'o mem) option" where
  "llist_unlink l a m = do {
     n \<leftarrow> nodes m a;
     let result = item n;
     let l = l\<lparr>l_size := l_size l - 1\<rparr>;
     if Some a = l_head l
     then if l_size l = 0
          then do {
            h \<leftarrow> free_cell (nodes m) (Some a);
            Some (result, l\<lparr>l_head := None, l_tail := None\<rparr>, m\<lparr>nodes := h\<rparr>)
          }
          else do {
            h \<leftarrow> (if nxt n \<noteq> None then set_prv (nodes m) (nxt n) None else Some (nodes m));
            n \<leftarrow> h a;
            let l = l\<lparr>l_head := nxt n\<rparr>;
            h \<leftarrow> free_cell h (Some a);
            Some (result, l, m\<lparr>nodes := h\<rparr>)
          }
     else if Some a = l_tail l
     then do {
       t \<leftarrow> deref (nodes m) (l_tail l);
       let l = l\<lparr>l_tail := prv t\<rparr>;
       (l, h) \<leftarrow> (if l_tail l \<noteq> None
                  then do { h \<leftarrow> set_nxt (nodes m) (l_tail l) None; Some (l, h) }
                  else Some (l\<lparr>l_head := None, l_tail := None, l_size := 0\<rparr>, nodes m));
       h \<leftarrow> free_cell h (Some a);
       Some (result, l, m\<lparr>nodes := h\<rparr>)
     }
     else do {
       h \<leftarrow> (if prv n \<noteq> None then set_nxt (nodes m) (prv n) (nxt n) else Some (nodes m));
       n \<leftarrow> h a;
       h \<leftarrow> (if nxt n \<noteq> None then set_prv h (nxt n) (prv n) else Some h);
       h \<leftarrow> free_cell h (Some a);
       Some (result, l, m\<lparr>nodes := h\<rparr>)
     }
   }"

partial_function (option) llist_remove_at_loop ::
  "'o llist \<Rightarrow> 'o mem \<Rightarrow> ptr \<Rightarrow> int \<Rightarrow> int \<Rightarrow> (ptr \<times> 'o llist \<times> 'o mem) option" where
  "llist_remove_at_loop l m head i index =
     (case head of
        None \<Rightarrow> Some (None, l, m)
      | Some a \<Rightarrow>
          if i = index then llist_unlink l a m
          else do { n \<leftarrow> nodes m a; llist_remove_at_loop l m (nxt n) (i + 1) index })"

definition llist_remove_at ::
  "'o llist option \<Rightarrow> int \<Rightarrow> 'o mem \<Rightarrow> (ptr \<times> 'o llist option \<times> 'o mem) option" where
  "llist_remove_at lp index m =
     (case lp of
        None \<Rightarrow> Some (None, None, m)
      | Some l \<Rightarrow> do {
          (r, l, m) \<leftarrow> llist_remove_at_loop l m (l_head l) 0 index;
          Some (r, Some l, m)
        })"

text \<open>\<open>llist_remove\<close> (and \<open>llist_remove_free\<close>, the same code): unlink the first equal item and free it.\<close>

partial_function (option) llist_remove_loop ::
  "'o llist \<Rightarrow> 'o mem \<Rightarrow> ptr \<Rightarrow> ptr \<Rightarrow> int \<Rightarrow> (int \<times> 'o llist option \<times> 'o mem) option" where
  "llist_remove_loop l m it head i =
     (case head of
        None \<Rightarrow> Some (ELEM_NOT_FOUND, Some l, m)
      | Some a \<Rightarrow> do {
          n \<leftarrow> nodes m a;
          let elem = item n;
          r \<leftarrow> l_equals l (objs m) elem it;
          if r = 0
          then do {
            (_, l', m') \<leftarrow> llist_remove_at (Some l) i m;
            os \<leftarrow> free_cell (objs m') elem;
            Some (SUCCESS, l', m'\<lparr>objs := os\<rparr>)
          }
          else llist_remove_loop l m it (nxt n) (i + 1)
        })"

definition llist_remove :: "'o llist \<Rightarrow> ptr \<Rightarrow> 'o mem \<Rightarrow> (int \<times> 'o llist option \<times> 'o mem) option" where
  "llist_remove l it m = llist_remove_loop l m it (l_head l) 0"

text \<open>
  \<open>llist_iterate\<close> fetches each element by its index and calls \<open>act_on\<close> on the non-null
  ones; \<open>st\<close> is whatever \<open>act_on\<close> reads and writes.
\<close>

partial_function (option) llist_iterate_loop ::
  "'o llist \<Rightarrow> 'o mem \<Rightarrow> (addr \<Rightarrow> 's \<Rightarrow> 's) \<Rightarrow> int \<Rightarrow> 's \<Rightarrow> 's option" where
  "llist_iterate_loop l m act_on i st =
     (if i < l_size l
      then do {
        elem \<leftarrow> llist_get l i m;
        llist_iterate_loop l m act_on (i + 1) (case elem of None \<Rightarrow> st | Some e \<Rightarrow> act_on e st)
      }
      else Some st)"

definition llist_iterate :: "'o llist \<Rightarrow> 'o mem \<Rightarrow> (addr \<Rightarrow> 's \<Rightarrow> 's) \<Rightarrow> 's \<Rightarrow> 's option" where
  "llist_iterate l m act_on st = llist_iterate_loop l m act_on 0 st"

partial_function (option) llist_destroy :: "'o llist \<Rightarrow> 'o mem \<Rightarrow> ('o llist \<times> 'o mem) option" where
  "llist_destroy l m =
     (if l_size l > 0
      then do {
        (_, lp, m') \<leftarrow> llist_remove_at (Some l) 0 m;
        l' \<leftarrow> lp;
        llist_destroy l' m'
      }
      else Some (l, m))"

subsection \<open>The representation predicate\<close>

primrec dseg :: "(addr \<rightharpoonup> llist_elem) \<Rightarrow> ptr \<Rightarrow> ptr \<Rightarrow> addr list \<Rightarrow> ptr \<Rightarrow> ptr \<Rightarrow> bool" where
  "dseg h p pv [] q lst \<longleftrightarrow> p = q \<and> lst = pv"
| "dseg h p pv (a # as) q lst \<longleftrightarrow>
     p = Some a \<and>
     (case h a of None \<Rightarrow> False | Some n \<Rightarrow> prv n = pv \<and> dseg h (nxt n) (Some a) as q lst)"

definition list_ok :: "(addr \<rightharpoonup> llist_elem) \<Rightarrow> 'o llist \<Rightarrow> addr list \<Rightarrow> bool" where
  "list_ok h l as \<longleftrightarrow>
     distinct as \<and> dseg h (l_head l) None as None (l_tail l) \<and> l_size l = int (length as)"

definition items :: "(addr \<rightharpoonup> llist_elem) \<Rightarrow> addr list \<Rightarrow> ptr list" where
  "items h as = map (\<lambda>a. item (the (h a))) as"

definition agree_off :: "addr set \<Rightarrow> (addr \<rightharpoonup> 'b) \<Rightarrow> (addr \<rightharpoonup> 'b) \<Rightarrow> bool" where
  "agree_off S h h' \<longleftrightarrow> (\<forall>b. b \<notin> S \<longrightarrow> h' b = h b)"

lemma agree_offD: "agree_off S h h' \<Longrightarrow> a \<notin> S \<Longrightarrow> h' a = h a"
  by (simp add: agree_off_def)

lemma dseg_Cons: "dseg h p pv (a # as) q lst \<longleftrightarrow>
    p = Some a \<and> (\<exists>n. h a = Some n \<and> prv n = pv \<and> dseg h (nxt n) (Some a) as q lst)"
  by (auto split: option.splits)

declare dseg.simps(2) [simp del]
declare dseg_Cons [simp]

lemma dseg_append [simp]:
  "dseg h p pv (as @ bs) q lst \<longleftrightarrow> (\<exists>p' l'. dseg h p pv as p' l' \<and> dseg h p' l' bs q lst)"
  by (induction as arbitrary: p pv) auto

lemma dseg_upd [simp]: "a \<notin> set as \<Longrightarrow> dseg (h(a := x)) p pv as q lst = dseg h p pv as q lst"
  by (induction as arbitrary: p pv) auto

lemma dseg_cong: "(\<And>a. a \<in> set as \<Longrightarrow> h' a = h a) \<Longrightarrow> dseg h' p pv as q lst = dseg h p pv as q lst"
  by (induction as arbitrary: p pv) auto

lemma dseg_None: "dseg h None pv as q lst \<longleftrightarrow> as = [] \<and> q = None \<and> lst = pv"
  by (cases as) auto

lemma dseg_dom: "dseg h p pv as q lst \<Longrightarrow> set as \<subseteq> dom h"
  by (induction as arbitrary: p pv) auto

lemma items_upd [simp]: "a \<notin> set as \<Longrightarrow> items (h(a := x)) as = items h as"
  by (auto simp: items_def)

lemma items_simps [simp]: "items h [] = []" "items h (a # as) = item (the (h a)) # items h as"
  "items h (as @ bs) = items h as @ items h bs" "length (items h as) = length as"
  by (simp_all add: items_def)

lemma list_ok_Nil: "list_ok h l [] \<longleftrightarrow> l_head l = None \<and> l_tail l = None \<and> l_size l = 0"
  by (auto simp: list_ok_def)

lemma llist_append_ok:
  assumes ok: "list_ok (nodes m) l as" and fresh: "nodes m a = None"
  shows "\<exists>l' m'. llist_append (Some (a, junk)) l it m = Some (SUCCESS, l', m') \<and>
           list_ok (nodes m') l' (as @ [a]) \<and>
           items (nodes m') (as @ [a]) = items (nodes m) as @ [it] \<and> objs m' = objs m \<and>
           agree_off (insert a (set as)) (nodes m) (nodes m') \<and> l_equals l' = l_equals l \<and> blocks m' = blocks m"
proof (cases as rule: rev_cases)
  case Nil
  with ok show ?thesis
    by (simp add: list_ok_Nil llist_append_def cell_simps list_ok_def agree_off_def)
next
  case (snoc us u)
  from ok fresh have "a \<notin> set as" using dseg_dom by (fastforce simp: list_ok_def)
  moreover have "l_head l \<noteq> None" using ok snoc by (cases us) (auto simp: list_ok_def)
  ultimately show ?thesis using ok snoc
    by (auto simp: llist_append_def cell_simps list_ok_def agree_off_def)
qed

text \<open>A traversal reads the cells in order.\<close>

lemma llist_get_loop_seg:
  "dseg h p pv as None lst \<Longrightarrow>
   llist_get_loop h p i index =
     Some (if i \<le> index \<and> index < i + int (length as) then item (the (h (as ! nat (index - i)))) else None)"
proof (induction as arbitrary: p pv i)
  case Nil
  then show ?case by (auto simp: llist_get_loop.simps)
next
  case (Cons a as)
  then obtain n where n: "p = Some a" "h a = Some n" "dseg h (nxt n) (Some a) as None lst" by auto
  show ?case
  proof (cases "i = index")
    case True
    with n show ?thesis by (simp add: llist_get_loop.simps [of h "Some a"])
  next
    case False
    have "llist_get_loop h p i index = llist_get_loop h (nxt n) (i + 1) index"
      using n False by (simp add: llist_get_loop.simps [of h "Some a"])
    also note Cons.IH [OF n(3), of "i + 1"]
    also have "i \<noteq> index \<Longrightarrow> i \<le> index \<Longrightarrow> nat (index - i) = Suc (nat (index - (i + 1)))" by simp
    ultimately show ?thesis using False by auto
  qed
qed

lemma llist_get_ok:
  "list_ok (nodes m) l as \<Longrightarrow>
   llist_get l index m =
     Some (if 0 \<le> index \<and> index < int (length as) then items (nodes m) as ! nat index else None)"
  using llist_get_loop_seg [of "nodes m" "l_head l" None as "l_tail l" 0 index]
  by (auto simp: llist_get_def list_ok_def items_def)

lemma llist_get_pos_loop_seg:
  "dseg (nodes m) p pv as None lst \<Longrightarrow>
   \<forall>x \<in> set (items (nodes m) as). l_equals l (objs m) x it \<noteq> None \<Longrightarrow>
   llist_get_pos_loop l m it p i =
     Some (case find_index (\<lambda>x. l_equals l (objs m) x it = Some 0) (items (nodes m) as) of
             None \<Rightarrow> ELEM_NOT_FOUND | Some j \<Rightarrow> i + int j)"
proof (induction as arbitrary: p pv i)
  case Nil
  then show ?case by (simp add: llist_get_pos_loop.simps)
next
  case (Cons a as)
  then obtain n r where n: "p = Some a" "nodes m a = Some n" "dseg (nodes m) (nxt n) (Some a) as None lst"
    and r: "l_equals l (objs m) (item n) it = Some r" by auto
  then show ?case using Cons.IH [OF n(3), of "i + 1"] Cons.prems(2)
    by (auto simp: llist_get_pos_loop.simps [of l m it "Some a"] split: option.splits)
qed

lemma llist_get_pos_ok:
  assumes "list_ok (nodes m) l as"
    and "\<forall>x \<in> set (items (nodes m) as). l_equals l (objs m) x it \<noteq> None"
  shows "llist_get_pos l it m =
     Some (case find_index (\<lambda>x. l_equals l (objs m) x it = Some 0) (items (nodes m) as) of
             None \<Rightarrow> ELEM_NOT_FOUND | Some j \<Rightarrow> int j)"
  using assms llist_get_pos_loop_seg [of m "l_head l" None as "l_tail l" l it 0]
  by (auto simp: llist_get_pos_def list_ok_def split: option.splits)

lemma llist_requeue_ok:
  assumes ok: "list_ok (nodes m) l as"
  shows "\<exists>l' m'. llist_requeue (Some l) m = Some (Some l', m') \<and>
           list_ok (nodes m') l' (rotate1 as) \<and>
           items (nodes m') (rotate1 as) = rotate1 (items (nodes m) as) \<and> objs m' = objs m \<and>
           agree_off (set as) (nodes m) (nodes m') \<and> l_equals l' = l_equals l \<and> blocks m' = blocks m"
proof (cases "length as \<le> 1")
  case True
  then consider "as = []" | a where "as = [a]" by (cases as) auto
  then show ?thesis using ok
    by cases (simp_all add: llist_requeue_def list_ok_def agree_off_def)
next
  case False
  then obtain a b bs where as: "as = a # b # bs" by (cases as; cases "tl as") auto
  show ?thesis
  proof (cases bs rule: rev_cases)
    case Nil
    with ok as show ?thesis
      by (auto simp: llist_requeue_def list_ok_def cell_simps agree_off_def Let_def)
  next
    case (snoc us u)
    with ok as show ?thesis
      by (auto simp: llist_requeue_def list_ok_def cell_simps agree_off_def Let_def)
  qed
qed

lemma llist_pop_ok:
  assumes ok: "list_ok (nodes m) l as"
  shows "\<exists>l' m'. llist_pop (Some l) m =
             Some ((case items (nodes m) as of [] \<Rightarrow> None | x # _ \<Rightarrow> x), Some l', m') \<and>
           list_ok (nodes m') l' (tl as) \<and>
           items (nodes m') (tl as) = tl (items (nodes m) as) \<and> objs m' = objs m \<and>
           (as \<noteq> [] \<longrightarrow> nodes m' (hd as) = None) \<and>
           agree_off (set as) (nodes m) (nodes m') \<and> l_equals l' = l_equals l \<and> blocks m' = blocks m"
proof (cases as)
  case Nil
  with ok show ?thesis by (simp add: llist_pop_def list_ok_def agree_off_def)
next
  case (Cons a bs)
  with ok show ?thesis
    by (cases bs) (auto simp: llist_pop_def list_ok_def cell_simps agree_off_def)
qed

text \<open>Unlinking the cell at a split of the address list.\<close>

lemma llist_unlink_ok:
  assumes ok: "list_ok (nodes m) l (us @ a # vs)"
  shows "\<exists>l' m'. llist_unlink l a m = Some (item (the (nodes m a)), l', m') \<and>
           list_ok (nodes m') l' (us @ vs) \<and> items (nodes m') (us @ vs) = items (nodes m) (us @ vs) \<and>
           objs m' = objs m \<and> nodes m' a = None \<and>
           agree_off (set (us @ a # vs)) (nodes m) (nodes m') \<and> l_equals l' = l_equals l \<and> blocks m' = blocks m"
proof (cases us rule: rev_cases)
  case Nil
  with ok show ?thesis
    by (cases vs) (auto simp: llist_unlink_def list_ok_def cell_simps agree_off_def)
next
  case (snoc ws w)
  show ?thesis
  proof (cases vs rule: rev_cases)
    case Nil
    with ok snoc have "Some a \<noteq> l_head l" by (cases ws) (auto simp: list_ok_def)
    with ok snoc Nil show ?thesis
      by (auto simp: llist_unlink_def list_ok_def cell_simps agree_off_def)
  next
    case (snoc xs x)
    with ok \<open>us = ws @ [w]\<close> have "Some a \<noteq> l_head l" "Some a \<noteq> l_tail l"
      by (cases ws; auto simp: list_ok_def)+
    with ok \<open>us = ws @ [w]\<close> snoc show ?thesis
      by (cases xs) (auto simp: llist_unlink_def list_ok_def cell_simps agree_off_def)
  qed
qed

text \<open>Removal by index, removal by value, iteration and destruction.\<close>

lemma llist_remove_at_loop_seg:
  "dseg (nodes m) p pv as None lst \<Longrightarrow>
   llist_remove_at_loop l m p i index =
     (if i \<le> index \<and> index < i + int (length as)
      then llist_unlink l (as ! nat (index - i)) m else Some (None, l, m))"
proof (induction as arbitrary: p pv i)
  case Nil
  then show ?case by (auto simp: llist_remove_at_loop.simps)
next
  case (Cons a as)
  then obtain n where n: "p = Some a" "nodes m a = Some n" "dseg (nodes m) (nxt n) (Some a) as None lst"
    by auto
  show ?case
  proof (cases "i = index")
    case True
    with n show ?thesis by (simp add: llist_remove_at_loop.simps [of l m "Some a"])
  next
    case False
    then have "i \<le> index \<Longrightarrow> nat (index - i) = Suc (nat (index - (i + 1)))" by simp
    with n False Cons.IH [OF n(3), of "i + 1"] show ?thesis
      by (auto simp: llist_remove_at_loop.simps [of l m "Some a"])
  qed
qed

lemma llist_remove_at_ok:
  assumes ok: "list_ok (nodes m) l as" and i: "i < length as"
  shows "\<exists>l' m'. llist_remove_at (Some l) (int i) m =
             Some (items (nodes m) as ! i, Some l', m') \<and>
           list_ok (nodes m') l' (take i as @ drop (Suc i) as) \<and>
           items (nodes m') (take i as @ drop (Suc i) as) =
             take i (items (nodes m) as) @ drop (Suc i) (items (nodes m) as) \<and>
           objs m' = objs m \<and> nodes m' (as ! i) = None \<and>
           agree_off (set as) (nodes m) (nodes m') \<and> l_equals l' = l_equals l \<and> blocks m' = blocks m"
proof -
  from i have split: "as = take i as @ as ! i # drop (Suc i) as" by (rule id_take_nth_drop)
  with ok have "list_ok (nodes m) l (take i as @ as ! i # drop (Suc i) as)" by simp
  from llist_unlink_ok [OF this] obtain l' m' where
    u: "llist_unlink l (as ! i) m = Some (item (the (nodes m (as ! i))), l', m')"
       "list_ok (nodes m') l' (take i as @ drop (Suc i) as)"
       "items (nodes m') (take i as @ drop (Suc i) as) = items (nodes m) (take i as @ drop (Suc i) as)"
       "objs m' = objs m" "nodes m' (as ! i) = None"
       "agree_off (set as) (nodes m) (nodes m')" "l_equals l' = l_equals l" "blocks m' = blocks m"
    using split by auto
  have "llist_remove_at_loop l m (l_head l) 0 (int i) = llist_unlink l (as ! i) m"
    using ok i llist_remove_at_loop_seg [of m "l_head l" None as "l_tail l" l 0 "int i"]
    by (simp add: list_ok_def)
  with u i show ?thesis
    by (simp add: llist_remove_at_def items_def take_map drop_map)
qed

lemma llist_remove_at_outside:
  assumes "list_ok (nodes m) l as" and "index < 0 \<or> int (length as) \<le> index"
  shows "llist_remove_at (Some l) index m = Some (None, Some l, m)"
  using assms llist_remove_at_loop_seg [of m "l_head l" None as "l_tail l" l 0 index]
  by (auto simp: llist_remove_at_def list_ok_def)

definition free_obj :: "(addr \<rightharpoonup> 'o) \<Rightarrow> ptr \<Rightarrow> (addr \<rightharpoonup> 'o)" where
  "free_obj os p = (case p of None \<Rightarrow> os | Some o1 \<Rightarrow> os(o1 := None))"

lemma free_cell_eq: "(\<And>a. p = Some a \<Longrightarrow> h a \<noteq> None) \<Longrightarrow> free_cell h p = Some (free_obj h p)"
  by (cases p) (auto simp: free_cell_def free_obj_def)

lemma llist_remove_loop_seg:
  assumes "list_ok (nodes m) l (us @ as)" and "dseg (nodes m) p pv as None lst"
    and "\<forall>x \<in> set (items (nodes m) as). l_equals l (objs m) x it \<noteq> None"
  shows "llist_remove_loop l m it p (int (length us)) =
     (case find_index (\<lambda>x. l_equals l (objs m) x it = Some 0) (items (nodes m) as) of
        None \<Rightarrow> Some (ELEM_NOT_FOUND, Some l, m)
      | Some j \<Rightarrow> do {
          (_, l', m') \<leftarrow> llist_remove_at (Some l) (int (length us + j)) m;
          os \<leftarrow> free_cell (objs m') (items (nodes m) as ! j);
          Some (SUCCESS, l', m'\<lparr>objs := os\<rparr>)
        })"
  using assms
proof (induction as arbitrary: p pv us)
  case Nil
  then show ?case by (simp add: llist_remove_loop.simps)
next
  case (Cons a as)
  then obtain n r where n: "p = Some a" "nodes m a = Some n" "dseg (nodes m) (nxt n) (Some a) as None lst"
    and r: "l_equals l (objs m) (item n) it = Some r" by auto
  show ?case
  proof (cases "r = 0")
    case True
    with n r show ?thesis by (simp add: llist_remove_loop.simps [of l m it "Some a"])
  next
    case False
    have "llist_remove_loop l m it p (int (length us)) =
        llist_remove_loop l m it (nxt n) (int (length (us @ [a])))"
      using n r False by (simp add: llist_remove_loop.simps [of l m it "Some a"] add.commute)
    also note Cons.IH [of "us @ [a]", OF _ n(3)]
    finally show ?thesis using Cons.prems n r False
      by (simp add: ac_simps split: option.splits)
  qed
qed

lemma llist_remove_ok:
  assumes ok: "list_ok (nodes m) l as"
    and eqs: "\<forall>x \<in> set (items (nodes m) as). l_equals l (objs m) x it \<noteq> None"
    and alloc: "\<forall>x \<in> set (items (nodes m) as). x \<noteq> None \<longrightarrow> objs m (the x) \<noteq> None"
    and found: "find_index (\<lambda>x. l_equals l (objs m) x it = Some 0) (items (nodes m) as) = Some j"
  shows "\<exists>l' m'. llist_remove l it m = Some (SUCCESS, Some l', m') \<and>
           list_ok (nodes m') l' (take j as @ drop (Suc j) as) \<and>
           items (nodes m') (take j as @ drop (Suc j) as) =
             take j (items (nodes m) as) @ drop (Suc j) (items (nodes m) as) \<and>
           objs m' = free_obj (objs m) (items (nodes m) as ! j) \<and> nodes m' (as ! j) = None \<and>
           agree_off (set as) (nodes m) (nodes m') \<and> blocks m' = blocks m"
proof -
  from found have j: "j < length as" using find_index_Some by fastforce
  obtain l' m' where r: "llist_remove_at (Some l) (int j) m = Some (items (nodes m) as ! j, Some l', m')"
      "list_ok (nodes m') l' (take j as @ drop (Suc j) as)"
      "items (nodes m') (take j as @ drop (Suc j) as) =
         take j (items (nodes m) as) @ drop (Suc j) (items (nodes m) as)"
      "objs m' = objs m" "nodes m' (as ! j) = None" "agree_off (set as) (nodes m) (nodes m')" "blocks m' = blocks m"
    using llist_remove_at_ok [OF ok j] by blast
  have "free_cell (objs m) (items (nodes m) as ! j) = Some (free_obj (objs m) (items (nodes m) as ! j))"
    using alloc j by (intro free_cell_eq) (metis length_map items_def nth_mem option.distinct(1) option.sel)
  with r found eqs ok show ?thesis
    using llist_remove_loop_seg [of m l "[]" as "l_head l" None "l_tail l" it]
    by (auto simp: llist_remove_def list_ok_def)
qed

lemma llist_remove_absent:
  assumes "list_ok (nodes m) l as"
    and "\<forall>x \<in> set (items (nodes m) as). l_equals l (objs m) x it \<noteq> None"
    and "find_index (\<lambda>x. l_equals l (objs m) x it = Some 0) (items (nodes m) as) = None"
  shows "llist_remove l it m = Some (ELEM_NOT_FOUND, Some l, m)"
  using assms llist_remove_loop_seg [of m l "[]" as "l_head l" None "l_tail l" it]
  by (simp add: llist_remove_def list_ok_def)

lemma llist_iterate_loop_ok:
  assumes ok: "list_ok (nodes m) l as"
  shows "i \<le> length as \<Longrightarrow>
    llist_iterate_loop l m act_on (int i) st =
      Some (fold act_on (map the (filter (\<lambda>x. x \<noteq> None) (drop i (items (nodes m) as)))) st)"
proof (induction "length as - i" arbitrary: i st)
  case 0
  with ok show ?case by (subst llist_iterate_loop.simps) (simp add: list_ok_def)
next
  case (Suc k)
  then have i: "i < length as" by simp
  with ok have get: "llist_get l (int i) m = Some (items (nodes m) as ! i)"
    by (simp add: llist_get_ok)
  from i have d: "drop i (items (nodes m) as) = items (nodes m) as ! i # drop (Suc i) (items (nodes m) as)"
    by (simp add: Cons_nth_drop_Suc)
  have ih: "llist_iterate_loop l m act_on (int i + 1) s =
      Some (fold act_on (map the (filter (\<lambda>x. x \<noteq> None) (drop (Suc i) (items (nodes m) as)))) s)" for s
    using Suc.hyps(1) [of "Suc i" s] Suc.hyps(2) i by (simp add: add.commute)
  from ok i get ih show ?case
    by (subst llist_iterate_loop.simps) (auto simp: list_ok_def d split: option.splits)
qed

lemma llist_iterate_ok:
  "list_ok (nodes m) l as \<Longrightarrow>
   llist_iterate l m act_on st =
     Some (fold act_on (map the (filter (\<lambda>x. x \<noteq> None) (items (nodes m) as))) st)"
  using llist_iterate_loop_ok [of m l as 0 act_on st] by (simp add: llist_iterate_def)

lemma llist_destroy_ok:
  "list_ok (nodes m) l as \<Longrightarrow>
   \<exists>l' m'. llist_destroy l m = Some (l', m') \<and> list_ok (nodes m') l' [] \<and>
     objs m' = objs m \<and> (\<forall>a \<in> set as. nodes m' a = None) \<and>
     agree_off (set as) (nodes m) (nodes m') \<and> blocks m' = blocks m"
proof (induction as arbitrary: l m)
  case Nil
  then show ?case by (subst llist_destroy.simps) (auto simp: list_ok_Nil agree_off_def)
next
  case (Cons a as)
  obtain l1 m1 where r: "llist_remove_at (Some l) 0 m = Some (items (nodes m) (a # as) ! 0, Some l1, m1)"
      "list_ok (nodes m1) l1 as" "objs m1 = objs m" "nodes m1 a = None"
      "agree_off (set (a # as)) (nodes m) (nodes m1)" "blocks m1 = blocks m"
    using llist_remove_at_ok [OF Cons.prems, of 0] by auto
  from Cons.IH [OF r(2)] obtain l2 m2 where d: "llist_destroy l1 m1 = Some (l2, m2)"
      "list_ok (nodes m2) l2 []" "objs m2 = objs m1" "\<forall>b \<in> set as. nodes m2 b = None"
      "agree_off (set as) (nodes m1) (nodes m2)" "blocks m2 = blocks m1" by blast
  have "a \<notin> set as" using Cons.prems by (simp add: list_ok_def)
  with r d have "nodes m2 a = None" by (simp add: agree_off_def)
  moreover have "l_size l > 0" using Cons.prems by (simp add: list_ok_def)
  ultimately show ?case using r d
    by (subst llist_destroy.simps) (auto simp: agree_off_def)
qed

subsection \<open>The list as a value\<close>

text \<open>
  The cells of a list, read off the memory: with them the invariant and the contents of a list
  are computable functions of its header and the memory.
\<close>

fun cells :: "(addr \<rightharpoonup> llist_elem) \<Rightarrow> ptr \<Rightarrow> nat \<Rightarrow> addr list" where
  "cells h p 0 = []"
| "cells h p (Suc k) =
     (case p of
        None \<Rightarrow> []
      | Some a \<Rightarrow> (case h a of None \<Rightarrow> [] | Some n \<Rightarrow> a # cells h (nxt n) k))"

definition llist_cells :: "'o llist \<Rightarrow> 'o mem \<Rightarrow> addr list" where
  "llist_cells l m = cells (nodes m) (l_head l) (nat (l_size l))"

definition llist_inv :: "'o llist \<Rightarrow> 'o mem \<Rightarrow> bool" where
  "llist_inv l m \<longleftrightarrow> list_ok (nodes m) l (llist_cells l m)"

definition llist_items :: "'o llist \<Rightarrow> 'o mem \<Rightarrow> ptr list" where
  "llist_items l m = items (nodes m) (llist_cells l m)"

lemma cells_dseg: "dseg h p pv as None lst \<Longrightarrow> cells h p (length as) = as"
  by (induction as arbitrary: p pv) auto

lemma llist_cells_ok: "list_ok (nodes m) l as \<Longrightarrow> llist_cells l m = as"
  by (auto simp: llist_cells_def list_ok_def dest: cells_dseg)

lemma llist_inv_items:
  "list_ok (nodes m) l as \<Longrightarrow> llist_inv l m \<and> llist_items l m = items (nodes m) as"
  by (simp add: llist_inv_def llist_items_def llist_cells_ok)

lemma llist_invD: "llist_inv l m \<Longrightarrow> list_ok (nodes m) l (llist_cells l m)"
  by (simp add: llist_inv_def)

lemma llist_inv_init [simp]: "llist_inv llist_init m" "llist_items llist_init m = []"
  using llist_inv_items [of m llist_init "[]"] by (simp_all add: list_ok_Nil llist_init_def)

subsection \<open>The list as a queue\<close>

text \<open>
  What a client of the list interface may rely on when it uses a list as a queue. \<open>avail\<close>
  says that an allocation result can be used for a new cell, \<open>apart\<close> that two of them do not
  collide. The client facts are about runs of appends, pops and requeues.
\<close>

fun append_all ::
  "('n \<Rightarrow> 'l \<Rightarrow> ptr \<Rightarrow> 'm \<Rightarrow> (int \<times> 'l \<times> 'm) option) \<Rightarrow> ('n \<times> ptr) list \<Rightarrow> 'l \<Rightarrow> 'm \<Rightarrow> ('l \<times> 'm) option" where
  "append_all f [] l m = Some (l, m)"
| "append_all f ((n, x) # xs) l m = do { (_, l, m) \<leftarrow> f n l x m; append_all f xs l m }"

fun pop_all ::
  "('l \<Rightarrow> 'm \<Rightarrow> (ptr \<times> 'l \<times> 'm) option) \<Rightarrow> nat \<Rightarrow> 'l \<Rightarrow> 'm \<Rightarrow> (ptr list \<times> 'l \<times> 'm) option" where
  "pop_all f 0 l m = Some ([], l, m)"
| "pop_all f (Suc k) l m = do {
     (x, l, m) \<leftarrow> f l m; (xs, l, m) \<leftarrow> pop_all f k l m; Some (x # xs, l, m) }"

fun requeue_all :: "('l \<Rightarrow> 'm \<Rightarrow> ('l \<times> 'm) option) \<Rightarrow> nat \<Rightarrow> 'l \<Rightarrow> 'm \<Rightarrow> ('l \<times> 'm) option" where
  "requeue_all f 0 l m = Some (l, m)"
| "requeue_all f (Suc k) l m = do { (l, m) \<leftarrow> f l m; requeue_all f k l m }"

locale list_queue =
  fixes inv :: "'l \<Rightarrow> 'm \<Rightarrow> bool"
    and contents :: "'l \<Rightarrow> 'm \<Rightarrow> ptr list"
    and avail :: "'n \<Rightarrow> 'm \<Rightarrow> bool"
    and apart :: "'n \<Rightarrow> 'n \<Rightarrow> bool"
    and append :: "'n \<Rightarrow> 'l \<Rightarrow> ptr \<Rightarrow> 'm \<Rightarrow> (int \<times> 'l \<times> 'm) option"
    and pop :: "'l \<Rightarrow> 'm \<Rightarrow> (ptr \<times> 'l \<times> 'm) option"
    and requeue :: "'l \<Rightarrow> 'm \<Rightarrow> ('l \<times> 'm) option"
  assumes append_law: "inv l m \<Longrightarrow> avail n m \<Longrightarrow>
      \<exists>l' m'. append n l x m = Some (SUCCESS, l', m') \<and> inv l' m' \<and>
        contents l' m' = contents l m @ [x] \<and> (\<forall>k. avail k m \<longrightarrow> apart n k \<longrightarrow> avail k m')"
    and pop_law: "inv l m \<Longrightarrow>
      \<exists>l' m'. pop l m = Some ((case contents l m of [] \<Rightarrow> None | x # _ \<Rightarrow> x), l', m') \<and>
        inv l' m' \<and> contents l' m' = tl (contents l m)"
    and requeue_law: "inv l m \<Longrightarrow>
      \<exists>l' m'. requeue l m = Some (l', m') \<and> inv l' m' \<and> contents l' m' = rotate1 (contents l m)"
begin

lemma append_all_contents:
  "inv l m \<Longrightarrow> \<forall>n \<in> set (map fst xs). avail n m \<Longrightarrow> sorted_wrt apart (map fst xs) \<Longrightarrow>
   \<exists>l' m'. append_all append xs l m = Some (l', m') \<and> inv l' m' \<and>
     contents l' m' = contents l m @ map snd xs"
proof (induction xs arbitrary: l m)
  case (Cons nx xs)
  obtain n x where nx: "nx = (n, x)" by (cases nx)
  with Cons.prems append_law [of l m n x] obtain l1 m1 where a: "append n l x m = Some (SUCCESS, l1, m1)"
      "inv l1 m1" "contents l1 m1 = contents l m @ [x]" "\<forall>k. avail k m \<longrightarrow> apart n k \<longrightarrow> avail k m1"
    by auto
  then have "\<forall>k \<in> set (map fst xs). avail k m1" using Cons.prems nx by auto
  with Cons.IH [OF a(2)] Cons.prems(3) a nx show ?case by auto
qed simp

lemma pop_all_contents:
  "inv l m \<Longrightarrow> k \<le> length (contents l m) \<Longrightarrow>
   \<exists>l' m'. pop_all pop k l m = Some (take k (contents l m), l', m') \<and> inv l' m' \<and>
     contents l' m' = drop k (contents l m)"
proof (induction k arbitrary: l m)
  case (Suc k)
  then obtain y ys where c: "contents l m = y # ys" by (cases "contents l m") auto
  with pop_law [OF Suc.prems(1)] obtain l1 m1 where p: "pop l m = Some (y, l1, m1)" "inv l1 m1"
      "contents l1 m1 = ys" by auto
  with Suc.IH [OF p(2)] Suc.prems(2) c show ?case by auto
qed simp

lemma fifo:
  assumes "inv l m" and "contents l m = []" and "\<forall>n \<in> set (map fst xs). avail n m"
    and "sorted_wrt apart (map fst xs)"
  shows "\<exists>l1 m1 l2 m2. append_all append xs l m = Some (l1, m1) \<and>
     pop_all pop (length xs) l1 m1 = Some (map snd xs, l2, m2) \<and> inv l2 m2 \<and> contents l2 m2 = []"
proof -
  from append_all_contents [OF assms(1,3,4)] assms(2) obtain l1 m1 where
    a: "append_all append xs l m = Some (l1, m1)" "inv l1 m1" "contents l1 m1 = map snd xs"
    by auto
  with pop_all_contents [OF a(2), of "length xs"] show ?thesis by auto
qed

lemma requeue_all_contents:
  "inv l m \<Longrightarrow>
   \<exists>l' m'. requeue_all requeue k l m = Some (l', m') \<and> inv l' m' \<and>
     contents l' m' = rotate k (contents l m)"
proof (induction k arbitrary: l m)
  case (Suc k)
  from requeue_law [OF Suc.prems] obtain l1 m1 where r: "requeue l m = Some (l1, m1)" "inv l1 m1"
      "contents l1 m1 = rotate1 (contents l m)" by blast
  with Suc.IH [OF r(2)] show ?case by (auto simp: rotate1_rotate_swap)
qed simp

lemma full_turn:
  assumes "inv l m"
  shows "\<exists>l' m'. requeue_all requeue (length (contents l m)) l m = Some (l', m') \<and> inv l' m' \<and>
     contents l' m' = contents l m"
  using requeue_all_contents [OF assms, of "length (contents l m)"] by simp

end

text \<open>The list of \<open>linkedlist.c\<close> keeps these laws.\<close>

definition cell_avail :: "(addr \<times> llist_elem) option \<Rightarrow> 'o mem \<Rightarrow> bool" where
  "cell_avail n m \<longleftrightarrow> (case n of None \<Rightarrow> False | Some (a, _) \<Rightarrow> nodes m a = None)"

definition cell_apart :: "(addr \<times> llist_elem) option \<Rightarrow> (addr \<times> llist_elem) option \<Rightarrow> bool" where
  "cell_apart n k \<longleftrightarrow> map_option fst n \<noteq> map_option fst k"

definition pop_list :: "'o llist \<Rightarrow> 'o mem \<Rightarrow> (ptr \<times> 'o llist \<times> 'o mem) option" where
  "pop_list l m = do { (x, lp, m) \<leftarrow> llist_pop (Some l) m; l \<leftarrow> lp; Some (x, l, m) }"

definition requeue_list :: "'o llist \<Rightarrow> 'o mem \<Rightarrow> ('o llist \<times> 'o mem) option" where
  "requeue_list l m = do { (lp, m) \<leftarrow> llist_requeue (Some l) m; l \<leftarrow> lp; Some (l, m) }"

lemma append_queue_law:
  assumes "llist_inv l m" and "cell_avail n m"
  shows "\<exists>l' m'. llist_append n l x m = Some (SUCCESS, l', m') \<and> llist_inv l' m' \<and>
     llist_items l' m' = llist_items l m @ [x] \<and>
     (\<forall>k. cell_avail k m \<longrightarrow> cell_apart n k \<longrightarrow> cell_avail k m')"
proof -
  let ?as = "llist_cells l m"
  from assms(2) obtain a junk where n: "n = Some (a, junk)" "nodes m a = None"
    by (auto simp: cell_avail_def split: option.splits)
  from llist_append_ok [OF llist_invD [OF assms(1)] n(2)] obtain l' m' where
    r: "llist_append n l x m = Some (SUCCESS, l', m')" "list_ok (nodes m') l' (?as @ [a])"
       "items (nodes m') (?as @ [a]) = llist_items l m @ [x]"
       "agree_off (insert a (set ?as)) (nodes m) (nodes m')"
    unfolding n llist_items_def by blast
  have "set ?as \<subseteq> dom (nodes m)"
    using llist_invD [OF assms(1)] dseg_dom by (fastforce simp: list_ok_def)
  with r(4) have "\<forall>b. nodes m b = None \<longrightarrow> b \<noteq> a \<longrightarrow> nodes m' b = None"
    by (auto simp: agree_off_def)
  then have "\<forall>k. cell_avail k m \<longrightarrow> cell_apart n k \<longrightarrow> cell_avail k m'"
    by (auto simp: cell_avail_def cell_apart_def n split: option.splits)
  with r llist_inv_items [OF r(2)] show ?thesis by auto
qed

lemma pop_queue_law:
  assumes "llist_inv l m"
  shows "\<exists>l' m'. pop_list l m = Some ((case llist_items l m of [] \<Rightarrow> None | x # _ \<Rightarrow> x), l', m') \<and>
     llist_inv l' m' \<and> llist_items l' m' = tl (llist_items l m)"
  using llist_pop_ok [OF llist_invD [OF assms]]
  by (auto simp: pop_list_def llist_items_def llist_inv_def llist_cells_ok)

lemma requeue_queue_law:
  assumes "llist_inv l m"
  shows "\<exists>l' m'. requeue_list l m = Some (l', m') \<and> llist_inv l' m' \<and>
     llist_items l' m' = rotate1 (llist_items l m)"
  using llist_requeue_ok [OF llist_invD [OF assms]]
  by (auto simp: requeue_list_def llist_items_def llist_inv_def llist_cells_ok)

interpretation llq: list_queue llist_inv llist_items cell_avail cell_apart llist_append pop_list requeue_list
  by unfold_locales (rule append_queue_law pop_queue_law requeue_queue_law; assumption)+

subsection \<open>Properties\<close>

text \<open>An empty memory and a cell as \<open>malloc\<close> may return it, for the concrete runs below.\<close>

definition no_mem :: "'o mem" where
  "no_mem = \<lparr>nodes = Map.empty, objs = Map.empty, blocks = []\<rparr>"

definition raw_cell :: llist_elem where
  "raw_cell = \<lparr>item = None, nxt = None, prv = None\<rparr>"

text \<open>A list of three items at the addresses 1 to 3.\<close>

definition demo_mem :: "nat mem" where
  "demo_mem = \<lparr>nodes =
      [1 \<mapsto> \<lparr>item = Some 71, nxt = Some 2, prv = None\<rparr>,
       2 \<mapsto> \<lparr>item = Some 72, nxt = Some 3, prv = Some 1\<rparr>,
       3 \<mapsto> \<lparr>item = Some 73, nxt = None, prv = Some 2\<rparr>],
     objs = [71 \<mapsto> 0, 72 \<mapsto> 0, 73 \<mapsto> 0], blocks = []\<rparr>"

definition demo_list :: "nat llist" where
  "demo_list = \<lparr>l_size = 3, l_head = Some 1, l_tail = Some 3, l_equals = equals\<rparr>"

lemma demo_ok: "list_ok (nodes demo_mem) demo_list [1, 2, 3]"
  by (simp add: list_ok_def demo_list_def demo_mem_def)

lemma demo_inv: "llist_inv demo_list demo_mem" "llist_items demo_list demo_mem = [Some 71, Some 72, Some 73]"
  "llist_size demo_list = 3" "llist_cells demo_list demo_mem = [1, 2, 3]"
  "nodes demo_mem 5 = None" "l_equals demo_list = equals"
  "objs demo_mem = [71 \<mapsto> 0, 72 \<mapsto> 0, 73 \<mapsto> 0]"
  using llist_inv_items [OF demo_ok] llist_cells_ok [OF demo_ok]
  by (simp_all add: demo_mem_def demo_list_def llist_size_def)

lemma demo_nodes: "b \<noteq> Suc 0 \<Longrightarrow> b \<noteq> 2 \<Longrightarrow> b \<noteq> 3 \<Longrightarrow> nodes demo_mem b = None"
  by (simp add: demo_mem_def)

text \<open>
  \<open>llist_append\<close> on a well-formed list with a fresh cell returns SUCCESS, adds the item at
  the end, keeps the list well formed and leaves every object and every cell of other lists alone.
\<close>

theorem llist_append_spec:
  assumes "llist_inv l m" and "nodes m a = None"
  shows "\<exists>l' m'. llist_append (Some (a, junk)) l it m = Some (SUCCESS, l', m') \<and>
     llist_inv l' m' \<and> llist_items l' m' = llist_items l m @ [it] \<and>
     llist_size l' = llist_size l + 1 \<and> objs m' = objs m \<and>
     (\<forall>b. b \<notin> insert a (set (llist_cells l m)) \<longrightarrow> nodes m' b = nodes m b)"
proof -
  from llist_append_ok [OF llist_invD [OF assms(1)] assms(2)] obtain l' m' where
    r: "llist_append (Some (a, junk)) l it m = Some (SUCCESS, l', m')"
       "list_ok (nodes m') l' (llist_cells l m @ [a])"
       "items (nodes m') (llist_cells l m @ [a]) = llist_items l m @ [it]" "objs m' = objs m"
       "agree_off (insert a (set (llist_cells l m))) (nodes m) (nodes m')"
    unfolding llist_items_def by blast
  moreover have "llist_size l' = llist_size l + 1"
    using r(2) llist_invD [OF assms(1)] by (simp add: list_ok_def llist_size_def)
  ultimately show ?thesis using llist_inv_items [OF r(2)] by (auto simp: agree_off_def)
qed

theorem llist_append_spec_witness:
  "\<exists>l' m'. llist_append (Some (5, raw_cell)) demo_list (Some 71) demo_mem = Some (SUCCESS, l', m') \<and>
     llist_items l' m' = [Some 71, Some 72, Some 73, Some 71] \<and> llist_size l' = 4"
  using llist_append_spec [OF demo_inv(1), of 5 raw_cell "Some 71"]
  by (auto simp: demo_inv)

text \<open>
  C25: \<open>llist_remove_at\<close> takes out exactly the cell at the index, whatever its place in the
  chain, returns its item and frees the cell; the other cells of the list keep their items and stay
  in order, and every cell outside the list, every object and every other block stays as it was. An
  index outside the list returns NULL and changes nothing at all. It never faults on a well-formed
  list.
\<close>

theorem llist_remove_at_spec:
  assumes "llist_inv l m"
  shows "if 0 \<le> index \<and> index < llist_size l
     then \<exists>l' m'. llist_remove_at (Some l) index m = Some (llist_items l m ! nat index, Some l', m') \<and>
       llist_inv l' m' \<and> llist_size l' = llist_size l - 1 \<and>
       llist_cells l' m' = take (nat index) (llist_cells l m) @ drop (Suc (nat index)) (llist_cells l m) \<and>
       llist_items l' m' = take (nat index) (llist_items l m) @ drop (Suc (nat index)) (llist_items l m) \<and>
       nodes m' (llist_cells l m ! nat index) = None \<and>
       (\<forall>b. b \<notin> set (llist_cells l m) \<longrightarrow> nodes m' b = nodes m b) \<and>
       objs m' = objs m \<and> blocks m' = blocks m
     else llist_remove_at (Some l) index m = Some (None, Some l, m)"
proof (cases "0 \<le> index \<and> index < llist_size l")
  case True
  have ok: "list_ok (nodes m) l (llist_cells l m)" using assms by (rule llist_invD)
  with True have i: "nat index < length (llist_cells l m)" by (simp add: list_ok_def llist_size_def nat_less_iff)
  let ?as = "take (nat index) (llist_cells l m) @ drop (Suc (nat index)) (llist_cells l m)"
  from llist_remove_at_ok [OF ok i] obtain l' m' where
    r: "llist_remove_at (Some l) index m = Some (llist_items l m ! nat index, Some l', m')"
       "list_ok (nodes m') l' ?as"
       "items (nodes m') ?as = take (nat index) (llist_items l m) @ drop (Suc (nat index)) (llist_items l m)"
       "objs m' = objs m" "nodes m' (llist_cells l m ! nat index) = None"
       "agree_off (set (llist_cells l m)) (nodes m) (nodes m')" "blocks m' = blocks m"
    using True by (auto simp: llist_items_def)
  have "llist_size l' = llist_size l - 1" using r(2) ok i by (simp add: list_ok_def llist_size_def)
  with True r llist_inv_items [OF r(2)] llist_cells_ok [OF r(2)] show ?thesis by (auto simp: agree_off_def)
next
  case False
  with llist_remove_at_outside [OF llist_invD [OF assms], of index] llist_invD [OF assms]
  show ?thesis by (auto simp: list_ok_def llist_size_def)
qed

theorem llist_remove_at_spec_witness:
  "(\<exists>l' m'. llist_remove_at (Some demo_list) 1 demo_mem = Some (Some 72, Some l', m') \<and>
     llist_items l' m' = [Some 71, Some 73] \<and> nodes m' 2 = None) \<and>
   llist_remove_at (Some demo_list) 3 demo_mem = Some (None, Some demo_list, demo_mem)"
  using llist_remove_at_spec [OF demo_inv(1), of 1] llist_remove_at_spec [OF demo_inv(1), of 3]
  by (auto simp: demo_inv)

text \<open>
  Used as a queue from empty, the list is first in, first out: after appending any sequence
  of items, popping as many times returns them in the order they went in and leaves it empty.
\<close>

theorem llist_fifo:
  assumes "\<forall>n \<in> set (map fst xs). cell_avail n m" and "sorted_wrt cell_apart (map fst xs)"
  shows "\<exists>l1 m1 l2 m2. append_all llist_append xs llist_init m = Some (l1, m1) \<and>
     pop_all pop_list (length xs) l1 m1 = Some (map snd xs, l2, m2) \<and>
     llist_inv l2 m2 \<and> llist_items l2 m2 = []"
  using assms by (intro llq.fifo) simp_all

theorem llist_fifo_witness:
  "\<exists>l1 m1 l2 m2.
     append_all llist_append
       [(Some (1, raw_cell), Some 7), (Some (2, raw_cell), None), (Some (3, raw_cell), Some 8)]
       llist_init (no_mem :: nat mem) = Some (l1, m1) \<and>
     pop_all pop_list 3 l1 m1 = Some ([Some 7, None, Some 8], l2, m2)"
  using llist_fifo [of "[(Some (1, raw_cell), Some 7), (Some (2, raw_cell), None),
      (Some (3, raw_cell), Some 8)]" "no_mem :: nat mem"]
  by (auto simp: no_mem_def cell_avail_def cell_apart_def eval_nat_numeral)

text \<open>
  C26: \<open>llist_remove\<close> removes the first item its comparison function calls equal, and frees
  that item as well as its cell, and touches no cell outside the list; without such an item it reports
  ELEM_NOT_FOUND and changes nothing.
\<close>

theorem llist_remove_spec:
  assumes "llist_inv l m"
    and "\<forall>x \<in> set (llist_items l m). l_equals l (objs m) x it \<noteq> None"
    and "\<forall>x \<in> set (llist_items l m). x \<noteq> None \<longrightarrow> objs m (the x) \<noteq> None"
  shows "case find_index (\<lambda>x. l_equals l (objs m) x it = Some 0) (llist_items l m) of
      None \<Rightarrow> llist_remove l it m = Some (ELEM_NOT_FOUND, Some l, m)
    | Some j \<Rightarrow> (\<exists>l' m'. llist_remove l it m = Some (SUCCESS, Some l', m') \<and> llist_inv l' m' \<and>
        llist_items l' m' = take j (llist_items l m) @ drop (Suc j) (llist_items l m) \<and>
        objs m' = free_obj (objs m) (llist_items l m ! j) \<and> nodes m' (llist_cells l m ! j) = None \<and>
        (\<forall>b. b \<notin> set (llist_cells l m) \<longrightarrow> nodes m' b = nodes m b))"
proof (cases "find_index (\<lambda>x. l_equals l (objs m) x it = Some 0) (llist_items l m)")
  case None
  with llist_remove_absent [OF llist_invD [OF assms(1)]] assms show ?thesis
    by (simp add: llist_items_def)
next
  case (Some j)
  with llist_remove_ok [OF llist_invD [OF assms(1)], of it j] assms(2,3) show ?thesis
    by (auto simp: llist_items_def llist_inv_def llist_cells_ok agree_off_def)
qed

theorem llist_remove_spec_witness:
  "\<exists>l' m'. llist_remove demo_list (Some 72) demo_mem = Some (SUCCESS, Some l', m') \<and>
     llist_items l' m' = [Some 71, Some 73] \<and> objs m' 72 = None"
  using llist_remove_spec [OF demo_inv(1), of "Some 72"]
  by (auto simp: demo_inv equals_def free_obj_def)

text \<open>
  C27: \<open>llist_destroy\<close> always ends; it frees every cell of the list and no item, leaves the
  list empty and touches no other cell.
\<close>

theorem llist_destroy_spec:
  assumes "llist_inv l m"
  shows "\<exists>l' m'. llist_destroy l m = Some (l', m') \<and> llist_inv l' m' \<and> llist_items l' m' = [] \<and>
     objs m' = objs m \<and>
     nodes m' = (\<lambda>b. if b \<in> set (llist_cells l m) then None else nodes m b)"
  using llist_destroy_ok [OF llist_invD [OF assms]]
  by (fastforce simp: agree_off_def dest: llist_inv_items)

theorem llist_destroy_spec_witness:
  "\<exists>l' m'. llist_destroy demo_list demo_mem = Some (l', m') \<and> llist_items l' m' = [] \<and>
     (\<forall>b. nodes m' b = None)"
  using llist_destroy_spec [OF demo_inv(1)] by (auto simp: demo_inv demo_nodes)

end
