(* ===== verification/Hash_Map.thy ===== *)
theory Hash_Map
  imports Linked_List C_Strings
begin

unbundle bit_operations_syntax

text \<open>
  \<open>utils/hashmap.c\<close>: an array of linked lists keyed by \<open>int\<close>. Modelled here: the string and
  integer hashes, bit for bit on 32-bit words; the comparers; creation, \<open>hmap_put_abs\<close>,
  \<open>hmap_get_abs\<close>, \<open>hmap_remove_abs\<close> and destruction, on the memory of \<open>Linked_List\<close>, whose
  objects are here the map's elements; the array of list headers and the headers are owned by the map,
  which records whether they are allocated. \<open>hmap_map\<close> reads a map as a partial function; the
  lemmas show that lookup reads it, that insertion updates it, and what removal does to it.

  The locale \<open>int_map\<close> is the interface the time stub uses: a lookup returns the value of the
  last insertion under the key.
\<close>

subsection \<open>Hashes and comparers\<close>

text \<open>
  \<open>str_hash\<close> on 32-bit two's complement: additions and left shifts wrap, \<open>>>\<close> on a signed
  value is arithmetic (what gcc does).
\<close>

definition str_hash_step :: "32 word \<Rightarrow> char \<Rightarrow> 32 word" where
  "str_hash_step hash c =
     (let hash = hash + word_of_int (schar c);
          hash = hash + push_bit 10 hash
      in hash XOR signed_drop_bit 6 hash)"

definition str_hash :: "string \<Rightarrow> 32 word" where
  "str_hash s =
     (let hash = foldl str_hash_step 0 s;
          hash = hash + push_bit 3 hash;
          hash = hash XOR signed_drop_bit 11 hash
      in hash + push_bit 15 hash)"

definition int_hash :: "int \<Rightarrow> 32 word" where
  "int_hash v = str_hash (show_int v)"

definition default_hash :: "int \<Rightarrow> 32 word" where
  "default_hash elem = word_of_int elem"

definition default_key_comparer :: "ptr \<Rightarrow> ptr \<Rightarrow> int" where
  "default_key_comparer key1 key2 = (if key1 = key2 then 0 else 1)"

definition int_key_comparer :: "int option \<Rightarrow> int option \<Rightarrow> int" where
  "int_key_comparer key1 key2 =
     (if key1 = None \<or> key2 = None then 1 else if key1 = key2 then 0 else 1)"

text \<open>
  \<open>abs\<close> of the C library on an \<open>int\<close>: the most negative value has no absolute value
  (undefined behaviour; gcc returns it unchanged).
\<close>

definition c_abs :: "32 word \<Rightarrow> int option" where
  "c_abs w = (if sint w = INT_MIN then None else Some \<bar>sint w\<bar>)"

subsection \<open>The map\<close>

text \<open>
  An element: the key pointer (which \<open>hmap_put_abs\<close> never sets: it keeps what the fresh memory
  holds), the integer key, the value pointer (\<open>'v\<close> names the object pointed to) and the
  comparison function, which \<open>hmap_put_abs\<close> sets to null.
\<close>

record 'v hashmap_elem =
  elem_key :: ptr
  key_val :: int
  elem_value :: "'v option"
  equals_fn :: "(ptr \<Rightarrow> ptr \<Rightarrow> int) option"

text \<open>
  The map owns two kinds of blocks that nothing else points to, the array \<open>h->head\<close> and one list
  header for each of its entries. \<open>heads\<close> is what the headers contain; \<open>head_alloc\<close> and
  \<open>header_alloc\<close> say of the array and of each header whether it is allocated, so that a read through
  a freed pointer and a second \<open>free\<close> are faults.
\<close>

record 'v hashmap =
  heads :: "'v hashmap_elem llist list"
  head_alloc :: bool
  header_alloc :: "bool list"
  h_size :: int
  h_hash :: "int \<Rightarrow> 32 word"
  h_key_comparer :: "int option \<Rightarrow> int option \<Rightarrow> int"

text \<open>
  \<open>hmap_elem_comparer\<close>, the comparison function of the buckets: it calls the first element's
  own function, which is a call through a null pointer (\<open>None\<close>) for elements put by
  \<open>hmap_put_abs\<close>.
\<close>

definition hmap_elem_comparer :: "(addr \<rightharpoonup> 'v hashmap_elem) \<Rightarrow> ptr \<Rightarrow> ptr \<Rightarrow> int option" where
  "hmap_elem_comparer os elem1 elem2 =
     (if elem1 \<noteq> None \<and> elem2 \<noteq> None
      then do {
        e1 \<leftarrow> deref os elem1;
        f \<leftarrow> equals_fn e1;
        e2 \<leftarrow> deref os elem2;
        Some (f (elem_key e1) (elem_key e2))
      }
      else Some 1)"

text \<open>\<open>hmap_init\<close>, when its allocations succeed (it does not test them).\<close>

definition hmap_init :: "int \<Rightarrow> 'v hashmap" where
  "hmap_init m_size =
     (let map_size = (if m_size = 0 then 1000 else m_size);
          hs = replicate (nat map_size) llist_init
      in \<lparr>heads = map (\<lambda>l. llist_set_equality_checker l hmap_elem_comparer) hs,
          head_alloc = True, header_alloc = replicate (length hs) True,
          h_size = map_size, h_hash = int_hash, h_key_comparer = int_key_comparer\<rparr>)"

definition hmap_set_hash :: "'v hashmap \<Rightarrow> (int \<Rightarrow> 32 word) \<Rightarrow> 'v hashmap" where
  "hmap_set_hash h hashfn = h\<lparr>h_hash := hashfn\<rparr>"

definition hmap_set_comparer :: "'v hashmap \<Rightarrow> (int option \<Rightarrow> int option \<Rightarrow> int) \<Rightarrow> 'v hashmap" where
  "hmap_set_comparer h comparerfn = h\<lparr>h_key_comparer := comparerfn\<rparr>"

text \<open>
  The bucket index \<open>key % h->size\<close>: C's remainder has the sign of the key, so a negative key
  not divisible by the size reads in front of the array. The entry is then read through: the array
  and the header it leads to have to be allocated.
\<close>

definition bucket_index :: "'v hashmap \<Rightarrow> int \<Rightarrow> nat option" where
  "bucket_index h key =
     (if h_size h = 0 then None
      else let index = key smod h_size h
           in if head_alloc h \<and> 0 \<le> index \<and> nat index < length (heads h) \<and>
                 at (header_alloc h) (nat index) = Some True
              then Some (nat index) else None)"

text \<open>
  The search loop of \<open>hmap_put_abs\<close>: overwrite the value of the first element with the key and
  return; \<open>None\<close> inside means that the loop ran to the end.
\<close>

partial_function (option) hmap_put_loop ::
  "'v hashmap_elem mem \<Rightarrow> ptr \<Rightarrow> int \<Rightarrow> 'v option \<Rightarrow> 'v hashmap_elem mem option option" where
  "hmap_put_loop m head key v =
     (case head of
        None \<Rightarrow> Some None
      | Some a \<Rightarrow> do {
          n \<leftarrow> nodes m a;
          temp \<leftarrow> deref (objs m) (item n);
          if key_val temp = key
          then do {
            t \<leftarrow> item n;
            Some (Some (m\<lparr>objs := (objs m)(t \<mapsto> temp\<lparr>elem_value := v\<rparr>)\<rparr>))
          }
          else hmap_put_loop m (nxt n) key v
        })"

text \<open>
  \<open>hmap_put_abs\<close>: \<open>e\<close> is where \<open>malloc\<close> puts the new element (freed again when the key is
  found, undefined behaviour when \<open>malloc\<close> fails), \<open>c\<close> the allocation \<open>llist_append\<close> makes.
  A null map returns at once.
\<close>

definition hmap_put_abs ::
  "(addr \<times> 'v hashmap_elem) option \<Rightarrow> (addr \<times> llist_elem) option \<Rightarrow> 'v hashmap option \<Rightarrow> int \<Rightarrow> 'v option \<Rightarrow>
   'v hashmap_elem mem \<Rightarrow> ('v hashmap option \<times> 'v hashmap_elem mem) option" where
  "hmap_put_abs e c hp key v m =
     (case hp of
        None \<Rightarrow> Some (None, m)
      | Some h \<Rightarrow> do {
          index \<leftarrow> bucket_index h key;
          let list = heads h ! index;
          (a, junk) \<leftarrow> e;
          let new_elem = junk\<lparr>key_val := key, elem_value := v, equals_fn := None\<rparr>;
          let m = m\<lparr>objs := (objs m)(a \<mapsto> new_elem)\<rparr>;
          found \<leftarrow> hmap_put_loop m (l_head list) key v;
          (case found of
             Some m' \<Rightarrow> do {
               os \<leftarrow> free_cell (objs m') (Some a);
               Some (Some h, m'\<lparr>objs := os\<rparr>)
             }
           | None \<Rightarrow> do {
               (_, list', m') \<leftarrow> llist_append c list (Some a) m;
               Some (Some (h\<lparr>heads := (heads h)[index := list']\<rparr>), m')
             })
        })"

partial_function (option) hmap_get_loop ::
  "'v hashmap_elem mem \<Rightarrow> ptr \<Rightarrow> int \<Rightarrow> 'v option option" where
  "hmap_get_loop m head key =
     (case head of
        None \<Rightarrow> Some None
      | Some a \<Rightarrow> do {
          n \<leftarrow> nodes m a;
          (case item n of
             None \<Rightarrow> hmap_get_loop m (nxt n) key
           | Some t \<Rightarrow> do {
               temp \<leftarrow> objs m t;
               if key_val temp = key then Some (elem_value temp) else hmap_get_loop m (nxt n) key
             })
        })"

definition hmap_get_abs :: "'v hashmap option \<Rightarrow> int \<Rightarrow> 'v hashmap_elem mem \<Rightarrow> 'v option option" where
  "hmap_get_abs hp key m =
     (case hp of
        None \<Rightarrow> Some None
      | Some h \<Rightarrow> do {
          index \<leftarrow> bucket_index h key;
          hmap_get_loop m (l_head (heads h ! index)) key
        })"

text \<open>
  \<open>hmap_remove_abs\<close>: the element found is not unlinked, its key is set to 0. (The null test on
  the map comes after the map was read, so a null map is undefined behaviour.)
\<close>

partial_function (option) hmap_remove_loop ::
  "'v hashmap_elem mem \<Rightarrow> ptr \<Rightarrow> int \<Rightarrow> 'v hashmap_elem mem option" where
  "hmap_remove_loop m head key =
     (case head of
        None \<Rightarrow> Some m
      | Some a \<Rightarrow> do {
          n \<leftarrow> nodes m a;
          temp \<leftarrow> deref (objs m) (item n);
          if key_val temp = key
          then do { t \<leftarrow> item n; Some (m\<lparr>objs := (objs m)(t \<mapsto> temp\<lparr>key_val := 0\<rparr>)\<rparr>) }
          else hmap_remove_loop m (nxt n) key
        })"

definition hmap_remove_abs :: "'v hashmap option \<Rightarrow> int \<Rightarrow> 'v hashmap_elem mem \<Rightarrow> 'v hashmap_elem mem option" where
  "hmap_remove_abs hp key m = do {
     h \<leftarrow> hp;
     index \<leftarrow> bucket_index h key;
     hmap_remove_loop m (l_head (heads h ! index)) key
   }"

text \<open>
  \<open>hmap_destroy\<close>: for each entry of the array free every element and cell of its list, then the list's
  header; at the end free the array. \<open>free_block\<close> is the \<open>free\<close> of a header or of the array.
\<close>

definition free_block :: "bool \<Rightarrow> bool option" where
  "free_block allocated = (if allocated then Some False else None)"

partial_function (option) hmap_destroy_list ::
  "ptr \<Rightarrow> 'v hashmap_elem mem \<Rightarrow> 'v hashmap_elem mem option" where
  "hmap_destroy_list head m =
     (case head of
        None \<Rightarrow> Some m
      | Some a \<Rightarrow> do {
          n \<leftarrow> nodes m a;
          let head = nxt n;
          os \<leftarrow> free_cell (objs m) (item n);
          ns \<leftarrow> free_cell (nodes m) (Some a);
          hmap_destroy_list head (m\<lparr>nodes := ns, objs := os\<rparr>)
        })"

fun hmap_destroy_lists ::
  "('v hashmap_elem llist \<times> bool) list \<Rightarrow> 'v hashmap_elem mem \<Rightarrow> (bool list \<times> 'v hashmap_elem mem) option" where
  "hmap_destroy_lists [] m = Some ([], m)"
| "hmap_destroy_lists ((l, allocated) # ls) m =
     (if allocated
      then do {
        m \<leftarrow> hmap_destroy_list (l_head l) m;
        b \<leftarrow> free_block allocated;
        (bs, m) \<leftarrow> hmap_destroy_lists ls m;
        Some (b # bs, m)
      }
      else None)"

definition hmap_destroy :: "'v hashmap \<Rightarrow> 'v hashmap_elem mem \<Rightarrow> ('v hashmap \<times> 'v hashmap_elem mem) option" where
  "hmap_destroy h m =
     (if head_alloc h
      then do {
        (bs, m) \<leftarrow> hmap_destroy_lists (zip (heads h) (header_alloc h)) m;
        b \<leftarrow> free_block (head_alloc h);
        Some (h\<lparr>header_alloc := bs, head_alloc := b\<rparr>, m)
      }
      else None)"

subsection \<open>The map as a partial function\<close>

definition elem_at :: "'v hashmap_elem mem \<Rightarrow> addr \<Rightarrow> addr" where
  "elem_at m a = the (item (the (nodes m a)))"

definition entry_at :: "'v hashmap_elem mem \<Rightarrow> addr \<Rightarrow> int \<times> 'v option" where
  "entry_at m a = (let e = the (objs m (elem_at m a)) in (key_val e, elem_value e))"

definition entries :: "'v hashmap_elem mem \<Rightarrow> addr list \<Rightarrow> (int \<times> 'v option) list" where
  "entries m as = map (entry_at m) as"

definition bucket_cells :: "'v hashmap \<Rightarrow> 'v hashmap_elem mem \<Rightarrow> addr list list" where
  "bucket_cells h m = map (\<lambda>l. llist_cells l m) (heads h)"

definition elems_ok :: "'v hashmap_elem mem \<Rightarrow> addr set \<Rightarrow> bool" where
  "elems_ok m A \<longleftrightarrow>
     (\<forall>a \<in> A. item (the (nodes m a)) \<noteq> None \<and> objs m (elem_at m a) \<noteq> None) \<and> inj_on (elem_at m) A"

definition cell_set :: "addr list list \<Rightarrow> addr set" where
  "cell_set ass = set (concat ass)"

lemma cell_set_nth: "a \<in> cell_set ass \<longleftrightarrow> (\<exists>k < length ass. a \<in> set (ass ! k))"
proof
  assume "a \<in> cell_set ass"
  then show "\<exists>k < length ass. a \<in> set (ass ! k)"
    unfolding cell_set_def by (auto simp: in_set_conv_nth [of _ ass])
next
  assume "\<exists>k < length ass. a \<in> set (ass ! k)"
  then show "a \<in> cell_set ass" unfolding cell_set_def using nth_mem by fastforce
qed

lemma elems_okD:
  "elems_ok m A \<Longrightarrow> a \<in> A \<Longrightarrow> item (the (nodes m a)) = Some (elem_at m a) \<and> objs m (elem_at m a) \<noteq> None"
  by (auto simp: elems_ok_def elem_at_def)

definition hmap_ok :: "'v hashmap \<Rightarrow> 'v hashmap_elem mem \<Rightarrow> addr list list \<Rightarrow> bool" where
  "hmap_ok h m ass \<longleftrightarrow>
     0 < h_size h \<and> length (heads h) = nat (h_size h) \<and> length ass = length (heads h) \<and>
     head_alloc h \<and> header_alloc h = replicate (length (heads h)) True \<and>
     (\<forall>i < length ass. list_ok (nodes m) (heads h ! i) (ass ! i)) \<and>
     (\<forall>i < length ass. \<forall>j < length ass. i \<noteq> j \<longrightarrow> set (ass ! i) \<inter> set (ass ! j) = {}) \<and>
     elems_ok m (cell_set ass)"

definition hmap_inv :: "'v hashmap \<Rightarrow> 'v hashmap_elem mem \<Rightarrow> bool" where
  "hmap_inv h m \<longleftrightarrow> hmap_ok h m (bucket_cells h m)"

definition hmap_map :: "'v hashmap \<Rightarrow> 'v hashmap_elem mem \<Rightarrow> int \<Rightarrow> 'v option option" where
  "hmap_map h m key =
     (case bucket_index h key of
        None \<Rightarrow> None
      | Some i \<Rightarrow> map_of (entries m (bucket_cells h m ! i)) key)"

text \<open>No key but 0 occurs twice in a bucket (0 may: it is what removed keys turn into).\<close>

definition hmap_unique :: "'v hashmap \<Rightarrow> 'v hashmap_elem mem \<Rightarrow> bool" where
  "hmap_unique h m \<longleftrightarrow>
     (\<forall>as \<in> set (bucket_cells h m). distinct (filter (\<lambda>k. k \<noteq> 0) (map fst (entries m as))))"

lemma bucket_cells_ok: "hmap_ok h m ass \<Longrightarrow> bucket_cells h m = ass"
  by (rule nth_equalityI) (auto simp: bucket_cells_def hmap_ok_def llist_cells_ok)

lemma hmap_inv_map:
  "hmap_ok h m ass \<Longrightarrow> hmap_inv h m \<and>
   hmap_map h m = (\<lambda>key. case bucket_index h key of None \<Rightarrow> None | Some i \<Rightarrow> map_of (entries m (ass ! i)) key)"
  using bucket_cells_ok [of h m ass] by (simp add: hmap_inv_def hmap_map_def fun_eq_iff split: option.splits)

lemma hmap_unique_ok: "hmap_ok h m ass \<Longrightarrow> hmap_unique h m \<longleftrightarrow>
   (\<forall>i < length ass. distinct (filter (\<lambda>k. k \<noteq> 0) (map fst (entries m (ass ! i)))))"
  by (simp add: hmap_unique_def bucket_cells_ok all_set_conv_all_nth)

lemma bucket_index_nonneg:
  "hmap_ok h m ass \<Longrightarrow> 0 \<le> key \<Longrightarrow> \<exists>i < length ass. bucket_index h key = Some i \<and> int i = key mod h_size h"
proof -
  assume h: "hmap_ok h m ass" and k: "0 \<le> key"
  then have "key smod h_size h = key mod h_size h"
    by (auto simp: signed_modulo_int_def signed_divide_int_def hmap_ok_def minus_div_mult_eq_mod
        zsgn_def split: if_splits)
  moreover have "0 \<le> key mod h_size h" "key mod h_size h < h_size h" using h by (auto simp: hmap_ok_def)
  ultimately show ?thesis using h by (auto simp: bucket_index_def hmap_ok_def at_def nat_less_iff)
qed

lemma bucket_index_less: "hmap_ok h m ass \<Longrightarrow> bucket_index h key = Some i \<Longrightarrow> i < length ass"
  by (auto simp: bucket_index_def hmap_ok_def Let_def split: if_splits)

subsection \<open>The loops over a bucket\<close>

lemma hmap_get_loop_seg:
  "dseg (nodes m) p pv as None lst \<Longrightarrow> elems_ok m (set as) \<Longrightarrow>
   hmap_get_loop m p key = Some (case map_of (entries m as) key of None \<Rightarrow> None | Some v \<Rightarrow> v)"
proof (induction as arbitrary: p pv)
  case Nil
  then show ?case by (simp add: hmap_get_loop.simps entries_def)
next
  case (Cons a as)
  then obtain n t e where n: "p = Some a" "nodes m a = Some n" "dseg (nodes m) (nxt n) (Some a) as None lst"
    and t: "item n = Some t" "objs m t = Some e"
    by (auto simp: elems_ok_def elem_at_def)
  with Cons.IH [OF n(3)] Cons.prems(2) show ?case
    by (simp add: hmap_get_loop.simps [of m "Some a"] entries_def entry_at_def elem_at_def elems_ok_def)
qed

lemma hmap_put_loop_seg:
  "dseg (nodes m) p pv as None lst \<Longrightarrow> elems_ok m (set as) \<Longrightarrow>
   hmap_put_loop m p key v = Some
     (case find_index (\<lambda>e. fst e = key) (entries m as) of
        None \<Rightarrow> None
      | Some j \<Rightarrow> (let t = elem_at m (as ! j)
                  in Some (m\<lparr>objs := (objs m)(t \<mapsto> (the (objs m t))\<lparr>elem_value := v\<rparr>)\<rparr>)))"
proof (induction as arbitrary: p pv)
  case Nil
  then show ?case by (simp add: hmap_put_loop.simps entries_def)
next
  case (Cons a as)
  then obtain n t e where n: "p = Some a" "nodes m a = Some n" "dseg (nodes m) (nxt n) (Some a) as None lst"
    and t: "item n = Some t" "objs m t = Some e"
    by (auto simp: elems_ok_def elem_at_def)
  with Cons.IH [OF n(3)] Cons.prems(2) show ?case
    by (simp add: hmap_put_loop.simps [of m "Some a"] entries_def entry_at_def elem_at_def elems_ok_def
        deref_def split: option.splits)
qed

lemma hmap_remove_loop_seg:
  "dseg (nodes m) p pv as None lst \<Longrightarrow> elems_ok m (set as) \<Longrightarrow>
   hmap_remove_loop m p key = Some
     (case find_index (\<lambda>e. fst e = key) (entries m as) of
        None \<Rightarrow> m
      | Some j \<Rightarrow> (let t = elem_at m (as ! j)
                  in m\<lparr>objs := (objs m)(t \<mapsto> (the (objs m t))\<lparr>key_val := 0\<rparr>)\<rparr>))"
proof (induction as arbitrary: p pv)
  case Nil
  then show ?case by (simp add: hmap_remove_loop.simps entries_def)
next
  case (Cons a as)
  then obtain n t e where n: "p = Some a" "nodes m a = Some n" "dseg (nodes m) (nxt n) (Some a) as None lst"
    and t: "item n = Some t" "objs m t = Some e"
    by (auto simp: elems_ok_def elem_at_def)
  with Cons.IH [OF n(3)] Cons.prems(2) show ?case
    by (simp add: hmap_remove_loop.simps [of m "Some a"] entries_def entry_at_def elem_at_def elems_ok_def
        deref_def split: option.splits)
qed

subsection \<open>Changing one element\<close>

text \<open>Overwriting the element of one cell changes the entry of that cell only.\<close>

lemma entries_obj_upd:
  assumes "elems_ok m A" and "a \<in> A" and "set as \<subseteq> A"
  shows "entries (m\<lparr>objs := (objs m)(elem_at m a \<mapsto> e)\<rparr>) as =
     map (\<lambda>b. if b = a then (key_val e, elem_value e) else entry_at m b) as"
  using assms by (auto simp: entries_def entry_at_def elem_at_def elems_ok_def inj_on_def)

lemma entries_obj_upd_nth:
  assumes "elems_ok m A" and "set as \<subseteq> A" and "distinct as" and "j < length as"
  shows "entries (m\<lparr>objs := (objs m)(elem_at m (as ! j) \<mapsto> e)\<rparr>) as =
     (entries m as)[j := (key_val e, elem_value e)]"
proof -
  have "as ! j \<in> A" using assms by auto
  from entries_obj_upd [OF assms(1) this assms(2)] show ?thesis
    using assms(3,4) by (auto intro!: nth_equalityI simp: nth_list_update nth_eq_iff_index_eq entries_def)
qed

lemma entries_obj_upd_other:
  assumes "elems_ok m A" and "a \<in> A" and "set as \<subseteq> A" and "a \<notin> set as"
  shows "entries (m\<lparr>objs := (objs m)(elem_at m a \<mapsto> e)\<rparr>) as = entries m as"
  unfolding entries_obj_upd [OF assms(1-3)] using assms(4) by (auto simp: entries_def)

lemma hmap_ok_obj_upd:
  assumes "hmap_ok h m ass" and "objs m t \<noteq> None"
  shows "hmap_ok h (m\<lparr>objs := (objs m)(t \<mapsto> e)\<rparr>) ass"
  using assms by (auto simp: hmap_ok_def elems_ok_def elem_at_def inj_on_def)

lemma hmap_ok_bucket:
  assumes "hmap_ok h m ass" and "i < length ass"
  shows "dseg (nodes m) (l_head (heads h ! i)) None (ass ! i) None (l_tail (heads h ! i))"
    and "elems_ok m (set (ass ! i))" and "distinct (ass ! i)" and "set (ass ! i) \<subseteq> cell_set ass"
    and "elems_ok m (cell_set ass)" and "set (ass ! i) \<subseteq> dom (nodes m)"
    and "list_ok (nodes m) (heads h ! i) (ass ! i)"
proof -
  show "list_ok (nodes m) (heads h ! i) (ass ! i)" using assms by (simp add: hmap_ok_def)
  then show d: "dseg (nodes m) (l_head (heads h ! i)) None (ass ! i) None (l_tail (heads h ! i))"
    and "distinct (ass ! i)" by (simp_all add: list_ok_def)
  from d show "set (ass ! i) \<subseteq> dom (nodes m)" by (rule dseg_dom)
  show sub: "set (ass ! i) \<subseteq> cell_set ass" using assms(2) by (auto simp: cell_set_nth)
  show e: "elems_ok m (cell_set ass)" using assms(1) by (simp add: hmap_ok_def)
  with sub show "elems_ok m (set (ass ! i))" by (auto simp: elems_ok_def intro: inj_on_subset)
qed

subsection \<open>What the operations do to the map\<close>

lemma hmap_get_ok:
  assumes ok: "hmap_ok h m ass" and i: "bucket_index h key = Some i"
  shows "hmap_get_abs (Some h) key m =
     Some (case map_of (entries m (ass ! i)) key of None \<Rightarrow> None | Some v \<Rightarrow> v)"
proof -
  have "i < length ass" using ok i by (rule bucket_index_less)
  note b = hmap_ok_bucket [OF ok this]
  from hmap_get_loop_seg [OF b(1,2)] i show ?thesis by (simp add: hmap_get_abs_def)
qed

text \<open>A fresh element does not disturb the map.\<close>

lemma fresh_obj:
  assumes ok: "hmap_ok h m ass" and e: "objs m e = None"
  shows "hmap_ok h (m\<lparr>objs := (objs m)(e \<mapsto> x)\<rparr>) ass"
    and "i < length ass \<Longrightarrow> entries (m\<lparr>objs := (objs m)(e \<mapsto> x)\<rparr>) (ass ! i) = entries m (ass ! i)"
    and "a \<in> cell_set ass \<Longrightarrow> elem_at m a \<noteq> e"
proof -
  have ne: "elem_at m a \<noteq> e" if "a \<in> cell_set ass" for a
    using ok e that elems_okD by (fastforce simp: hmap_ok_def)
  then show "a \<in> cell_set ass \<Longrightarrow> elem_at m a \<noteq> e" .
  show "hmap_ok h (m\<lparr>objs := (objs m)(e \<mapsto> x)\<rparr>) ass"
    using ok e by (auto simp: hmap_ok_def elems_ok_def elem_at_def inj_on_def)
  show "entries (m\<lparr>objs := (objs m)(e \<mapsto> x)\<rparr>) (ass ! i) = entries m (ass ! i)" if "i < length ass"
    using ne hmap_ok_bucket(4) [OF ok that] by (auto simp: entries_def entry_at_def elem_at_def subset_iff)
qed

text \<open>Insertion over an existing key: the value of its first element is replaced.\<close>

lemma hmap_put_found:
  fixes v :: "'v option"
  assumes ok: "hmap_ok (h :: 'v hashmap) m ass" and i: "bucket_index h key = Some i"
    and e: "objs m (fst e) = None"
    and j: "find_index (\<lambda>x. fst x = key) (entries m (ass ! i)) = Some j"
  defines "m' \<equiv> m\<lparr>objs := (objs m)(elem_at m (ass ! i ! j) \<mapsto>
      (the (objs m (elem_at m (ass ! i ! j))))\<lparr>elem_value := v\<rparr>)\<rparr>"
  shows "hmap_put_abs (Some e) c (Some h) key v m = Some (Some h, m')" and "hmap_ok h m' ass"
    and "entries m' (ass ! i) = (entries m (ass ! i))[j := (key, v)]"
    and "k < length ass \<Longrightarrow> k \<noteq> i \<Longrightarrow> entries m' (ass ! k) = entries m (ass ! k)"
    and "nodes m' = nodes m" and "dom (objs m') = dom (objs m)" and "blocks m' = blocks m"
proof -
  have il: "i < length ass" using ok i by (rule bucket_index_less)
  note b = hmap_ok_bucket [OF ok il]
  have jl: "j < length (ass ! i)" and key: "fst (entries m (ass ! i) ! j) = key"
    using find_index_Some [OF j] by (auto simp: entries_def)
  let ?t = "elem_at m (ass ! i ! j)"
  have a: "ass ! i ! j \<in> cell_set ass" using b(4) jl nth_mem by blast
  have t: "objs m ?t \<noteq> None" using elems_okD [OF b(5) a] by simp
  show "hmap_ok h m' ass" unfolding m'_def using ok t by (rule hmap_ok_obj_upd)
  show "nodes m' = nodes m" "dom (objs m') = dom (objs m)" "blocks m' = blocks m" using t by (auto simp: m'_def)
  have kv: "key_val (the (objs m ?t)) = key"
    using key jl by (simp add: entries_def entry_at_def Let_def)
  show "entries m' (ass ! i) = (entries m (ass ! i))[j := (key, v)]"
    unfolding m'_def entries_obj_upd_nth [OF b(5,4,3) jl] by (simp add: kv)
  show "entries m' (ass ! k) = entries m (ass ! k)" if "k < length ass" "k \<noteq> i"
    unfolding m'_def
  proof (rule entries_obj_upd_other [OF b(5) a hmap_ok_bucket(4) [OF ok that(1)]])
    have "set (ass ! k) \<inter> set (ass ! i) = {}" using ok that il by (simp add: hmap_ok_def)
    then show "ass ! i ! j \<notin> set (ass ! k)" using nth_mem [OF jl] by auto
  qed
  let ?m1 = "m\<lparr>objs := (objs m)(fst e \<mapsto> (snd e)\<lparr>key_val := key, elem_value := v, equals_fn := None\<rparr>)\<rparr>"
  have f: "hmap_ok h ?m1 ass" "entries ?m1 (ass ! i) = entries m (ass ! i)" "?t \<noteq> fst e"
    using fresh_obj [OF ok e] il a by auto
  note b1 = hmap_ok_bucket [OF f(1) il]
  have "elem_at ?m1 (ass ! i ! j) = ?t" by (simp add: elem_at_def)
  with hmap_put_loop_seg [OF b1(1,2), of key v] i j f e t
  show "hmap_put_abs (Some e) c (Some h) key v m = Some (Some h, m')"
    by (cases e) (auto simp: hmap_put_abs_def m'_def free_cell_def Let_def fun_upd_twist fun_upd_idem)
qed

text \<open>Insertion of a new key: one more element at the end of its bucket.\<close>

text \<open>
  A new cell \<open>c\<close> with the element \<open>x\<close> at \<open>t\<close> has been appended to the cells \<open>as\<close>: what
  \<open>llist_append\<close> does to the heap.
\<close>

definition appended ::
  "'v hashmap_elem mem \<Rightarrow> 'v hashmap_elem mem \<Rightarrow> addr list \<Rightarrow> addr \<Rightarrow> addr \<Rightarrow> 'v hashmap_elem \<Rightarrow> bool" where
  "appended m m' as c t x \<longleftrightarrow>
     items (nodes m') (as @ [c]) = items (nodes m) as @ [Some t] \<and> objs m' = (objs m)(t \<mapsto> x) \<and>
     agree_off (insert c (set as)) (nodes m) (nodes m')"

lemma new_cell:
  assumes "hmap_ok h m ass" and "nodes m c = None"
  shows "c \<notin> cell_set ass"
proof
  assume "c \<in> cell_set ass"
  then obtain k where "k < length ass" "c \<in> set (ass ! k)" unfolding cell_set_nth by blast
  with hmap_ok_bucket(6) [OF assms(1) this(1)] assms(2) show False by auto
qed

lemma appended_cells:
  assumes ok: "hmap_ok h m ass" and il: "i < length ass" and t: "objs m t = None" and c: "nodes m c = None"
    and a: "appended m m' (ass ! i) c t x"
  shows "item (the (nodes m' c)) = Some t" "entry_at m' c = (key_val x, elem_value x)"
    and "b \<in> cell_set ass \<Longrightarrow> item (the (nodes m' b)) = item (the (nodes m b))"
    and "b \<in> cell_set ass \<Longrightarrow> elem_at m' b = elem_at m b"
    and "b \<in> cell_set ass \<Longrightarrow> elem_at m b \<noteq> t"
    and "b \<in> cell_set ass \<Longrightarrow> entry_at m' b = entry_at m b"
proof -
  show new: "item (the (nodes m' c)) = Some t" using a by (simp add: appended_def items_def)
  then show "entry_at m' c = (key_val x, elem_value x)" using a by (simp add: entry_at_def elem_at_def appended_def)
  assume b: "b \<in> cell_set ass"
  show same: "item (the (nodes m' b)) = item (the (nodes m b))"
  proof (cases "b \<in> set (ass ! i)")
    case True
    with a show ?thesis by (auto simp: appended_def items_def)
  next
    case False
    with b a new_cell [OF ok c] show ?thesis by (auto simp: appended_def agree_off_def)
  qed
  then show el: "elem_at m' b = elem_at m b" by (simp add: elem_at_def)
  show ne: "elem_at m b \<noteq> t" using fresh_obj(3) [OF ok t b] .
  show "entry_at m' b = entry_at m b" using a el ne by (simp add: entry_at_def appended_def)
qed

lemma appended_elems:
  assumes ok: "hmap_ok h m ass" and il: "i < length ass" and t: "objs m t = None" and c: "nodes m c = None"
    and a: "appended m m' (ass ! i) c t x"
  shows "elems_ok m' (insert c (cell_set ass))"
  unfolding elems_ok_def
proof (intro conjI ballI)
  note f = appended_cells [OF assms]
  fix b assume "b \<in> insert c (cell_set ass)"
  then show "item (the (nodes m' b)) \<noteq> None" "objs m' (elem_at m' b) \<noteq> None"
    using elems_okD [OF hmap_ok_bucket(5) [OF ok il], of b] f(3) [of b] f(1) a
    by (auto simp: appended_def elem_at_def)
next
  note f = appended_cells [OF assms]
  have "inj_on (elem_at m') (cell_set ass)"
    using ok f(4) by (auto simp: hmap_ok_def elems_ok_def inj_on_def)
  moreover have "elem_at m' c = t" using f(1) by (simp add: elem_at_def)
  then have "elem_at m' c \<notin> elem_at m' ` cell_set ass" using f(4,5) by (metis imageE)
  ultimately show "inj_on (elem_at m') (insert c (cell_set ass))" using new_cell [OF ok c] by simp
qed

lemma appended_ok:
  assumes ok: "hmap_ok h m ass" and il: "i < length ass" and t: "objs m t = None" and c: "nodes m c = None"
    and a: "appended m m' (ass ! i) c t x" and l: "list_ok (nodes m') l' (ass ! i @ [c])"
  shows "hmap_ok (h\<lparr>heads := (heads h)[i := l']\<rparr>) m' (ass[i := ass ! i @ [c]])"
proof -
  let ?ass = "ass[i := ass ! i @ [c]]" and ?h = "h\<lparr>heads := (heads h)[i := l']\<rparr>"
  have cn: "c \<notin> cell_set ass" using ok c by (rule new_cell)
  have "cell_set ?ass = insert c (cell_set ass)"
    using il by (auto simp: cell_set_nth nth_list_update split: if_splits)
  then have "elems_ok m' (cell_set ?ass)" using appended_elems [OF ok il t c a] by simp
  moreover have "list_ok (nodes m') (heads ?h ! k) (?ass ! k)" if "k < length ass" for k
  proof (cases "k = i")
    case True
    with l il ok show ?thesis by (simp add: hmap_ok_def)
  next
    case False
    have "c \<notin> set (ass ! k)" using cn that by (auto simp: cell_set_nth)
    moreover have "set (ass ! k) \<inter> set (ass ! i) = {}" using ok False that il by (simp add: hmap_ok_def)
    ultimately have "\<And>a. a \<in> set (ass ! k) \<Longrightarrow> nodes m' a = nodes m a"
      using a by (intro agree_offD [of "insert c (set (ass ! i))"]) (auto simp: appended_def)
    then have "dseg (nodes m') p pv (ass ! k) q lst = dseg (nodes m) p pv (ass ! k) q lst" for p pv q lst
      by (rule dseg_cong)
    with False hmap_ok_bucket(7) [OF ok that] show ?thesis by (simp add: list_ok_def)
  qed
  moreover have "set (?ass ! k) \<inter> set (?ass ! k') = {}" if "k < length ass" "k' < length ass" "k \<noteq> k'" for k k'
  proof -
    have "set (ass ! k) \<inter> set (ass ! k') = {}" using ok that by (simp add: hmap_ok_def)
    moreover have "c \<notin> set (ass ! k)" "c \<notin> set (ass ! k')" using cn that by (auto simp: cell_set_nth)
    ultimately show ?thesis using that by (cases "i = k"; cases "i = k'") auto
  qed
  ultimately show ?thesis using ok by (simp add: hmap_ok_def)
qed

lemma hmap_put_new:
  assumes ok: "hmap_ok h m ass" and i: "bucket_index h key = Some i" and e: "objs m (fst e) = None"
    and c: "nodes m (fst c) = None" and j: "find_index (\<lambda>x. fst x = key) (entries m (ass ! i)) = None"
  shows "\<exists>h' m'. hmap_put_abs (Some e) (Some c) (Some h) key v m = Some (Some h', m') \<and>
      hmap_ok h' m' (ass[i := ass ! i @ [fst c]]) \<and> h_size h' = h_size h \<and> length (heads h') = length (heads h) \<and>
      entries m' (ass ! i @ [fst c]) = entries m (ass ! i) @ [(key, v)] \<and>
      (\<forall>k < length ass. k \<noteq> i \<longrightarrow> entries m' (ass ! k) = entries m (ass ! k)) \<and>
      dom (nodes m') \<subseteq> insert (fst c) (dom (nodes m)) \<and> dom (objs m') \<subseteq> insert (fst e) (dom (objs m)) \<and>
      blocks m' = blocks m"
proof -
  let ?x = "(snd e)\<lparr>key_val := key, elem_value := v, equals_fn := None\<rparr>"
  have il: "i < length ass" using ok i by (rule bucket_index_less)
  note f = fresh_obj(1,2) [OF ok e, where x = ?x]
  note b1 = hmap_ok_bucket [OF f(1) il]
  from llist_append_ok [OF b1(7), of "fst c" "snd c" "Some (fst e)"] c obtain l' m' where
    app: "llist_append (Some (fst c, snd c)) (heads h ! i) (Some (fst e)) (m\<lparr>objs := (objs m)(fst e \<mapsto> ?x)\<rparr>) = Some (SUCCESS, l', m')"
      "list_ok (nodes m') l' (ass ! i @ [fst c])" and a: "appended m m' (ass ! i) (fst c) (fst e) ?x"
    and bl: "blocks m' = blocks m" by (auto simp: appended_def)
  note n = appended_cells [OF ok il e c a]
  have "entries m' (ass ! i @ [fst c]) = entries m (ass ! i) @ [(key, v)]"
    using n(2) n(6) hmap_ok_bucket(4) [OF ok il] by (auto simp: entries_def)
  moreover have "\<forall>k < length ass. k \<noteq> i \<longrightarrow> entries m' (ass ! k) = entries m (ass ! k)"
    using hmap_ok_bucket(4) [OF ok] n(6) unfolding entries_def by (blast intro: map_cong)
  moreover have "dom (nodes m') \<subseteq> insert (fst c) (dom (nodes m))"
    using a hmap_ok_bucket(6) [OF ok il] by (auto simp: appended_def agree_off_def)
  moreover have "dom (objs m') \<subseteq> insert (fst e) (dom (objs m))" using a by (auto simp: appended_def)
  moreover have "hmap_put_abs (Some e) (Some c) (Some h) key v m = Some (Some (h\<lparr>heads := (heads h)[i := l']\<rparr>), m')"
    using hmap_put_loop_seg [OF b1(1,2), of key v] f(2) [OF il] i j app(1)
    by (cases e) (simp add: hmap_put_abs_def Let_def)
  ultimately show ?thesis using appended_ok [OF ok il e c a app(2)] bl
    by (intro exI [of _ "h\<lparr>heads := (heads h)[i := l']\<rparr>"] exI [of _ m']) simp
qed

lemma bucket_index_cong:
  "h_size h' = h_size h \<Longrightarrow> length (heads h') = length (heads h) \<Longrightarrow> head_alloc h' = head_alloc h \<Longrightarrow>
   header_alloc h' = header_alloc h \<Longrightarrow> bucket_index h' = bucket_index h"
  by (simp add: bucket_index_def fun_eq_iff)

lemma bucket_index_ok:
  "hmap_ok h m ass \<Longrightarrow> hmap_ok h' m' ass' \<Longrightarrow> h_size h' = h_size h \<Longrightarrow> length (heads h') = length (heads h) \<Longrightarrow>
   bucket_index h' = bucket_index h"
  by (rule bucket_index_cong) (simp_all add: hmap_ok_def)

lemma bucket_index_inj: "bucket_index h key = Some i \<Longrightarrow> bucket_index h key' = Some j \<Longrightarrow> i \<noteq> j \<Longrightarrow> key \<noteq> key'"
  by auto

text \<open>The map after a change of one bucket that updates it at \<open>key\<close>.\<close>

lemma hmap_map_update:
  assumes ok: "hmap_ok h m ass" and ok': "hmap_ok h' m' ass'" and same: "bucket_index h' = bucket_index h"
    and i: "bucket_index h key = Some i" and new: "map_of (entries m' (ass' ! i)) = (map_of (entries m (ass ! i)))(key \<mapsto> v)"
    and others: "\<And>k. k < length ass \<Longrightarrow> k \<noteq> i \<Longrightarrow> entries m' (ass' ! k) = entries m (ass ! k)"
  shows "hmap_map h' m' = (hmap_map h m)(key \<mapsto> v)"
proof
  fix k
  show "hmap_map h' m' k = ((hmap_map h m)(key \<mapsto> v)) k"
  proof (cases "bucket_index h k")
    case None
    with i same show ?thesis by (auto simp: hmap_map_def)
  next
    case (Some k')
    with bucket_index_less [OF ok Some] hmap_inv_map [OF ok] hmap_inv_map [OF ok'] same i new others
    show ?thesis by (cases "k' = i") auto
  qed
qed

lemma hmap_put_map_found:
  assumes inv: "hmap_inv h m" and i: "bucket_index h key = Some i" and e: "objs m (fst e) = None"
    and j: "find_index (\<lambda>x. fst x = key) (entries m (bucket_cells h m ! i)) = Some j"
  shows "\<exists>m'. hmap_put_abs (Some e) c (Some h) key v m = Some (Some h, m') \<and> hmap_inv h m' \<and>
     hmap_map h m' = (hmap_map h m)(key \<mapsto> v) \<and> (hmap_unique h m \<longrightarrow> hmap_unique h m') \<and>
     nodes m' = nodes m \<and> dom (objs m') \<subseteq> dom (objs m) \<and> blocks m' = blocks m"
proof -
  let ?ass = "bucket_cells h m"
  have ok: "hmap_ok h m ?ass" using inv by (simp add: hmap_inv_def)
  note f = hmap_put_found [OF ok i e j, where v = v]
  let ?m' = "m\<lparr>objs := (objs m)(elem_at m (?ass ! i ! j) \<mapsto>
    (the (objs m (elem_at m (?ass ! i ! j))))\<lparr>elem_value := v\<rparr>)\<rparr>"
  have "hmap_map h ?m' = (hmap_map h m)(key \<mapsto> v)"
    using hmap_map_update [OF ok f(2) refl i] map_of_update_first [OF j] f(3,4) by simp
  moreover have "map fst (entries ?m' (?ass ! k)) = map fst (entries m (?ass ! k))" if "k < length ?ass" for k
    using f(3) f(4) [of k] that find_index_Some [OF j]
    by (cases "k = i") (auto simp: map_update list_update_same_conv)
  then have "hmap_unique h m \<longrightarrow> hmap_unique h ?m'"
    unfolding hmap_unique_ok [OF ok] hmap_unique_ok [OF f(2)] by simp
  ultimately show ?thesis using f hmap_inv_map [OF f(2)]
    by (intro exI [of _ ?m']) auto
qed

text \<open>Inserting updates the map and uses up the two allocations.\<close>

lemma hmap_put_map:
  assumes inv: "hmap_inv h m" and key: "0 \<le> key" and e: "objs m (fst e) = None" and c: "nodes m (fst c) = None"
  shows "\<exists>h' m'. hmap_put_abs (Some e) (Some c) (Some h) key v m = Some (Some h', m') \<and> hmap_inv h' m' \<and>
     hmap_map h' m' = (hmap_map h m)(key \<mapsto> v) \<and> h_size h' = h_size h \<and>
     (hmap_unique h m \<longrightarrow> hmap_unique h' m') \<and>
     dom (nodes m') \<subseteq> insert (fst c) (dom (nodes m)) \<and> dom (objs m') \<subseteq> insert (fst e) (dom (objs m))"
proof -
  let ?ass = "bucket_cells h m"
  have ok: "hmap_ok h m ?ass" using inv by (simp add: hmap_inv_def)
  from bucket_index_nonneg [OF ok key] obtain i where il: "i < length ?ass"
    and i: "bucket_index h key = Some i" by blast
  show ?thesis
  proof (cases "find_index (\<lambda>x. fst x = key) (entries m (?ass ! i))")
    case (Some j)
    with hmap_put_map_found [OF inv i e Some, of "Some c" v] show ?thesis by (fastforce intro: subset_insertI2)
  next
    case None
    from hmap_put_new [OF ok i e c None, of v] obtain h' m' where
      n: "hmap_put_abs (Some e) (Some c) (Some h) key v m = Some (Some h', m')"
        "hmap_ok h' m' (?ass[i := ?ass ! i @ [fst c]])" "h_size h' = h_size h"
        "length (heads h') = length (heads h)"
        "entries m' (?ass ! i @ [fst c]) = entries m (?ass ! i) @ [(key, v)]"
        "\<forall>k < length ?ass. k \<noteq> i \<longrightarrow> entries m' (?ass ! k) = entries m (?ass ! k)"
        "dom (nodes m') \<subseteq> insert (fst c) (dom (nodes m))"
        "dom (objs m') \<subseteq> insert (fst e) (dom (objs m))" by blast
    have "map_of (entries m (?ass ! i)) key = None" using None by (simp add: find_index_map_of)
    then have "map_of (entries m' (?ass ! i @ [fst c])) = (map_of (entries m (?ass ! i)))(key \<mapsto> v)"
      unfolding n(5) by (rule map_of_snoc_new)
    then have "hmap_map h' m' = (hmap_map h m)(key \<mapsto> v)"
      using hmap_map_update [OF ok n(2) bucket_index_ok [OF ok n(2,3,4)] i] n(6) il by simp
    moreover have "hmap_unique h m \<longrightarrow> hmap_unique h' m'"
      unfolding hmap_unique_ok [OF ok] hmap_unique_ok [OF n(2)] using n(5,6) il None
      by (auto simp: nth_list_update find_index_None)
    ultimately show ?thesis using n hmap_inv_map [OF n(2)] by blast
  qed
qed

lemma hmap_get_map:
  assumes "hmap_inv h m" and "0 \<le> key"
  shows "hmap_get_abs (Some h) key m = Some (case hmap_map h m key of None \<Rightarrow> None | Some v \<Rightarrow> v)"
proof -
  have ok: "hmap_ok h m (bucket_cells h m)" using assms(1) by (simp add: hmap_inv_def)
  from bucket_index_nonneg [OF ok assms(2)] obtain i where "bucket_index h key = Some i" by blast
  with hmap_get_ok [OF ok this] show ?thesis by (simp add: hmap_map_def)
qed

lemma hmap_init_inv:
  fixes m :: "'v hashmap_elem mem"
  assumes "0 \<le> m_size"
  shows "hmap_inv (hmap_init m_size) m" and "hmap_map (hmap_init m_size) m = Map.empty"
    and "h_size (hmap_init m_size :: 'v hashmap) = (if m_size = 0 then 1000 else m_size)"
proof -
  let ?h = "hmap_init m_size :: 'v hashmap" and ?n = "if m_size = 0 then 1000 else m_size"
  have ok: "hmap_ok ?h m (replicate (nat ?n) [])"
    using assms by (auto simp: hmap_ok_def hmap_init_def Let_def list_ok_Nil llist_init_def
        llist_set_equality_checker_def elems_ok_def cell_set_def)
  with hmap_inv_map [OF ok] bucket_index_less [OF ok]
  show "hmap_inv ?h m" "hmap_map ?h m = Map.empty"
    by (auto simp: fun_eq_iff entries_def split: option.splits)
  show "h_size ?h = ?n" by (simp add: hmap_init_def Let_def)
qed

text \<open>
  Removing a key re-keys its first element to 0: every other key but 0 is unaffected, and the key
  itself is gone when its bucket holds it once.
\<close>

lemma hmap_remove_map:
  assumes inv: "hmap_inv h m" and i: "bucket_index h key = Some i"
  shows "\<exists>m'. hmap_remove_abs (Some h) key m = Some m' \<and> hmap_inv h m' \<and> nodes m' = nodes m \<and>
     bucket_cells h m' = bucket_cells h m \<and>
     (\<forall>k < length (bucket_cells h m). entries m' (bucket_cells h m ! k) =
        (if k = i then (case find_index (\<lambda>x. fst x = key) (entries m (bucket_cells h m ! i)) of
                          None \<Rightarrow> entries m (bucket_cells h m ! i)
                        | Some j \<Rightarrow> (entries m (bucket_cells h m ! i))
                            [j := (0, snd (entries m (bucket_cells h m ! i) ! j))])
         else entries m (bucket_cells h m ! k)))"
proof -
  let ?ass = "bucket_cells h m"
  have ok: "hmap_ok h m ?ass" using inv by (simp add: hmap_inv_def)
  have il: "i < length ?ass" using bucket_index_less [OF ok i] .
  note b = hmap_ok_bucket [OF ok il]
  have cells: "bucket_cells h m' = ?ass" if "hmap_ok h m' ?ass" for m'
    using bucket_cells_ok [OF that] .
  show ?thesis
  proof (cases "find_index (\<lambda>x. fst x = key) (entries m (?ass ! i))")
    case None
    with hmap_remove_loop_seg [OF b(1,2), of key] i inv show ?thesis
      by (intro exI [of _ m]) (auto simp: hmap_remove_abs_def)
  next
    case (Some j)
    then have jl: "j < length (?ass ! i)" by (auto simp: entries_def dest: find_index_Some)
    let ?t = "elem_at m (?ass ! i ! j)"
    let ?m' = "m\<lparr>objs := (objs m)(?t \<mapsto> (the (objs m ?t))\<lparr>key_val := 0\<rparr>)\<rparr>"
    have a: "?ass ! i ! j \<in> cell_set ?ass" using b(4) jl nth_mem by blast
    then have "objs m ?t \<noteq> None" using elems_okD [OF b(5)] by blast
    then have ok': "hmap_ok h ?m' ?ass" by (rule hmap_ok_obj_upd [OF ok])
    have ei: "entries ?m' (?ass ! i) = (entries m (?ass ! i))[j := (0, snd (entries m (?ass ! i) ! j))]"
      unfolding entries_obj_upd_nth [OF b(5,4,3) jl]
      using jl by (simp add: entries_def entry_at_def Let_def)
    have ek: "entries ?m' (?ass ! k) = entries m (?ass ! k)" if "k < length ?ass" "k \<noteq> i" for k
    proof (rule entries_obj_upd_other [OF b(5) a hmap_ok_bucket(4) [OF ok that(1)]])
      have "set (?ass ! k) \<inter> set (?ass ! i) = {}" using ok that il by (simp add: hmap_ok_def)
      then show "?ass ! i ! j \<notin> set (?ass ! k)" using nth_mem [OF jl] by auto
    qed
    have "hmap_remove_abs (Some h) key m = Some ?m'"
      using hmap_remove_loop_seg [OF b(1,2), of key] i Some
      by (simp add: hmap_remove_abs_def Let_def)
    with cells [OF ok'] hmap_inv_map [OF ok'] ei ek Some show ?thesis
      by (intro exI [of _ ?m']) simp
  qed
qed

subsection \<open>Destruction\<close>

lemma hmap_destroy_list_ok:
  "dseg (nodes m) p pv as None lst \<Longrightarrow> distinct as \<Longrightarrow> elems_ok m (set as) \<Longrightarrow>
   hmap_destroy_list p m = Some
     (m\<lparr>nodes := (\<lambda>a. if a \<in> set as then None else nodes m a),
        objs := (\<lambda>t. if t \<in> elem_at m ` set as then None else objs m t)\<rparr>)"
proof (induction as arbitrary: p pv m)
  case Nil
  then show ?case by (simp add: hmap_destroy_list.simps)
next
  case (Cons a as)
  then obtain n t e where n: "p = Some a" "nodes m a = Some n" "dseg (nodes m) (nxt n) (Some a) as None lst"
    and t: "item n = Some t" "objs m t = Some e"
    by (auto simp: elems_ok_def elem_at_def)
  let ?m = "m\<lparr>nodes := (nodes m)(a := None), objs := (objs m)(t := None)\<rparr>"
  have ta: "elem_at m a = t" using n t by (simp add: elem_at_def)
  have el: "elem_at ?m b = elem_at m b" if "b \<in> set as" for b
    using that Cons.prems(2) by (auto simp: elem_at_def)
  have tn: "elem_at m b \<noteq> t" if "b \<in> set as" for b
  proof -
    have "elem_at m a \<notin> elem_at m ` set as" using Cons.prems(2,3) by (auto simp: elems_ok_def)
    with that ta show ?thesis by (metis imageI)
  qed
  have "elems_ok ?m (set as)"
    using Cons.prems(2,3) el tn by (auto simp: elems_ok_def inj_on_def)
  moreover have "dseg (nodes ?m) (nxt n) (Some a) as None lst"
    using n(3) Cons.prems(2) by (simp add: dseg_upd)
  moreover have "distinct as" using Cons.prems(2) by simp
  ultimately have "hmap_destroy_list (nxt n) ?m = Some
     (?m\<lparr>nodes := (\<lambda>a. if a \<in> set as then None else nodes ?m a),
         objs := (\<lambda>t. if t \<in> elem_at ?m ` set as then None else objs ?m t)\<rparr>)" using Cons.IH by blast
  moreover have "elem_at ?m ` set as = elem_at m ` set as" using el by (rule image_cong [OF refl])
  ultimately show ?case using n t ta
    by (simp add: hmap_destroy_list.simps [of "Some a"] free_cell_def) (auto simp: fun_eq_iff)
qed

text \<open>A memory without the cells \<open>A\<close> and the objects they hold.\<close>

definition wipe :: "addr set \<Rightarrow> 'v hashmap_elem mem \<Rightarrow> 'v hashmap_elem mem" where
  "wipe A m = m\<lparr>nodes := (\<lambda>a. if a \<in> A then None else nodes m a),
               objs := (\<lambda>t. if t \<in> elem_at m ` A then None else objs m t)\<rparr>"

lemma elem_at_wipe: "a \<notin> A \<Longrightarrow> elem_at (wipe A m) a = elem_at m a"
  by (simp add: elem_at_def wipe_def)

lemma elem_at_wipe_image: "B \<inter> A = {} \<Longrightarrow> elem_at (wipe A m) ` B = elem_at m ` B"
  by (rule image_cong [OF refl], rule elem_at_wipe) blast

lemma wipe_wipe: "B \<inter> A = {} \<Longrightarrow> wipe B (wipe A m) = wipe (A \<union> B) m"
  unfolding wipe_def [of B] elem_at_wipe_image by (rule mem.equality) (auto simp: wipe_def fun_eq_iff)

lemma elems_ok_wipe: "elems_ok m (A \<union> B) \<Longrightarrow> A \<inter> B = {} \<Longrightarrow> elems_ok (wipe A m) B"
proof -
  assume ok: "elems_ok m (A \<union> B)" and AB: "A \<inter> B = {}"
  have el: "elem_at (wipe A m) b = elem_at m b" if "b \<in> B" for b
    using that AB by (intro elem_at_wipe) auto
  have "elem_at m b \<notin> elem_at m ` A" if "b \<in> B" for b
    using ok AB that by (auto simp: elems_ok_def inj_on_def)
  moreover have "b \<notin> A" if "b \<in> B" for b using AB that by auto
  ultimately have "item (the (nodes (wipe A m) b)) \<noteq> None \<and> objs (wipe A m) (elem_at (wipe A m) b) \<noteq> None"
    if "b \<in> B" for b using ok that unfolding el [OF that] by (simp add: elems_ok_def wipe_def)
  moreover have "inj_on (elem_at (wipe A m)) B"
    using ok el by (auto simp: elems_ok_def inj_on_def)
  ultimately show ?thesis by (simp add: elems_ok_def)
qed

lemma hmap_destroy_lists_ok:
  "list_all2 (list_ok (nodes m)) ls ass \<Longrightarrow> sorted_wrt (\<lambda>x y. set x \<inter> set y = {}) ass \<Longrightarrow>
   elems_ok m (cell_set ass) \<Longrightarrow>
   hmap_destroy_lists (zip ls (replicate (length ls) True)) m =
     Some (replicate (length ls) False, wipe (cell_set ass) m)"
proof (induction ls arbitrary: ass m)
  case Nil
  then show ?case by (simp add: wipe_def cell_set_def)
next
  case (Cons l ls)
  then obtain as ass' where ass: "ass = as # ass'" and l: "list_ok (nodes m) l as"
    and ls: "list_all2 (list_ok (nodes m)) ls ass'" by (auto simp: list_all2_Cons1)
  have cs: "cell_set ass = set as \<union> cell_set ass'" by (simp add: ass cell_set_def)
  have dis: "set as \<inter> cell_set ass' = {}" using Cons.prems(2) by (auto simp: ass cell_set_def)
  have "elems_ok m (set as)"
    using Cons.prems(3) unfolding cs by (auto simp: elems_ok_def intro: inj_on_subset)
  with l have "hmap_destroy_list (l_head l) m = Some (wipe (set as) m)"
    unfolding wipe_def list_ok_def by (blast intro: hmap_destroy_list_ok)
  moreover have "list_all2 (list_ok (nodes (wipe (set as) m))) ls ass'"
    unfolding list_all2_conv_all_nth
  proof (intro conjI allI impI)
    show "length ls = length ass'" using ls by (rule list_all2_lengthD)
    fix k assume k: "k < length ls"
    then have "list_ok (nodes m) (ls ! k) (ass' ! k)" and k': "k < length ass'"
      using ls by (auto simp: list_all2_conv_all_nth)
    moreover have "b \<notin> set as" if "b \<in> set (ass' ! k)" for b
      using dis k' that cell_set_nth [of b ass'] by blast
    then have "dseg (nodes (wipe (set as) m)) p pv (ass' ! k) q lst = dseg (nodes m) p pv (ass' ! k) q lst"
      for p pv q lst by (intro dseg_cong) (simp add: wipe_def)
    ultimately show "list_ok (nodes (wipe (set as) m)) (ls ! k) (ass' ! k)"
      by (simp add: list_ok_def)
  qed
  moreover have "elems_ok (wipe (set as) m) (cell_set ass')"
    using Cons.prems(3) dis unfolding cs by (rule elems_ok_wipe)
  moreover have "sorted_wrt (\<lambda>x y. set x \<inter> set y = {}) ass'" using Cons.prems(2) ass by simp
  ultimately show ?case using Cons.IH dis wipe_wipe [of "cell_set ass'" "set as" m]
    by (simp add: cs Int_commute free_block_def)
qed

lemma hmap_destroy_ok:
  assumes "hmap_inv h m"
  shows "hmap_destroy h m = Some (h\<lparr>header_alloc := replicate (length (heads h)) False, head_alloc := False\<rparr>,
     wipe (cell_set (bucket_cells h m)) m)"
proof -
  have ok: "hmap_ok h m (bucket_cells h m)" using assms by (simp add: hmap_inv_def)
  then have "sorted_wrt (\<lambda>x y. set x \<inter> set y = {}) (bucket_cells h m)"
    unfolding sorted_wrt_iff_nth_less hmap_ok_def by auto
  with ok have "hmap_destroy_lists (zip (heads h) (replicate (length (heads h)) True)) m =
      Some (replicate (length (heads h)) False, wipe (cell_set (bucket_cells h m)) m)"
    by (intro hmap_destroy_lists_ok) (auto simp: hmap_ok_def list_all2_conv_all_nth)
  with ok show ?thesis by (simp add: hmap_destroy_def hmap_ok_def free_block_def)
qed

text \<open>A memory that holds the map and nothing else; an insertion into one leaves one.\<close>

definition hmap_tight :: "'v hashmap \<Rightarrow> 'v hashmap_elem mem \<Rightarrow> bool" where
  "hmap_tight h m \<longleftrightarrow>
     (let A = cell_set (bucket_cells h m) in dom (nodes m) = A \<and> dom (objs m) = elem_at m ` A \<and> blocks m = [])"

lemma hmap_tight_card:
  assumes ok: "hmap_ok h m ass" and n: "dom (nodes m) \<subseteq> cell_set ass"
    and o: "finite (dom (objs m))" "card (dom (objs m)) \<le> card (cell_set ass)" and bl: "blocks m = []"
  shows "hmap_tight h m"
proof -
  have b: "bucket_cells h m = ass" using ok by (rule bucket_cells_ok)
  have "a \<in> dom (nodes m)" if "a \<in> cell_set ass" for a
  proof -
    from that obtain i where "i < length ass" "a \<in> set (ass ! i)" unfolding cell_set_nth by blast
    with hmap_ok_bucket(6) [OF ok] show ?thesis by (auto simp: dom_def)
  qed
  with n have "dom (nodes m) = cell_set ass" by blast
  moreover have el: "elems_ok m (cell_set ass)" using ok by (simp add: hmap_ok_def)
  have "elem_at m ` cell_set ass = dom (objs m)"
  proof (rule card_seteq [OF o(1)])
    show "elem_at m ` cell_set ass \<subseteq> dom (objs m)" using el by (auto simp: elems_ok_def)
    have "card (elem_at m ` cell_set ass) = card (cell_set ass)" using el by (intro card_image) (simp add: elems_ok_def)
    with o(2) show "card (dom (objs m)) \<le> card (elem_at m ` cell_set ass)" by simp
  qed
  ultimately show ?thesis using bl by (simp add: hmap_tight_def b Let_def)
qed

lemma hmap_put_tight:
  assumes inv: "hmap_inv h m" and key: "0 \<le> key" and e: "objs m (fst e) = None" and c: "nodes m (fst c) = None"
    and tight: "hmap_tight h m" and put: "hmap_put_abs (Some e) (Some c) (Some h) key v m = Some (Some h', m')"
  shows "hmap_tight h' m'"
proof -
  let ?ass = "bucket_cells h m" and ?A = "cell_set (bucket_cells h m)"
  have ok: "hmap_ok h m ?ass" using inv by (simp add: hmap_inv_def)
  have t: "dom (nodes m) = ?A" "dom (objs m) = elem_at m ` ?A" and bl: "blocks m = []" using tight by (simp_all add: hmap_tight_def Let_def)
  have fin: "finite ?A" by (simp add: cell_set_def)
  have card: "card (dom (objs m)) \<le> card ?A" unfolding t(2) by (rule card_image_le [OF fin])
  from bucket_index_nonneg [OF ok key] obtain i where il: "i < length ?ass" and i: "bucket_index h key = Some i" by blast
  show ?thesis
  proof (cases "find_index (\<lambda>x. fst x = key) (entries m (?ass ! i))")
    case (Some j)
    from hmap_put_map_found [OF inv i e Some, of "Some c" v] put have
      f: "h' = h" "hmap_inv h m'" "nodes m' = nodes m" "dom (objs m') \<subseteq> dom (objs m)" "blocks m' = blocks m" by auto
    have b: "bucket_cells h m' = ?ass" using f(3) by (simp add: bucket_cells_def llist_cells_def)
    have fo: "finite (dom (objs m))" using fin by (simp add: t(2))
    have "finite (dom (objs m'))" using f(4) fo by (rule finite_subset)
    moreover have "card (dom (objs m')) \<le> card ?A" using card_mono [OF fo f(4)] card by simp
    ultimately have "finite (dom (objs m'))" "card (dom (objs m')) \<le> card ?A" .
    with f b t(1) bl show ?thesis by (intro hmap_tight_card [where ass = ?ass]) (auto simp: hmap_inv_def)
  next
    case None
    let ?ass' = "?ass[i := ?ass ! i @ [fst c]]"
    from hmap_put_new [OF ok i e c None, of v] put have n: "hmap_ok h' m' ?ass'"
      "dom (nodes m') \<subseteq> insert (fst c) (dom (nodes m))" "dom (objs m') \<subseteq> insert (fst e) (dom (objs m))"
      "blocks m' = []" using bl by auto
    have A: "cell_set ?ass' = insert (fst c) ?A"
      using il by (auto simp: cell_set_nth nth_list_update split: if_splits)
    have "card (dom (objs m')) \<le> card (insert (fst e) (dom (objs m)))" using n(3) t(2) fin by (intro card_mono) auto
    also have "\<dots> \<le> Suc (card ?A)" using card card_insert_le_m1 [of "Suc (card ?A)" "dom (objs m)" "fst e"] by simp
    also have "\<dots> = card (cell_set ?ass')" using fin new_cell [OF ok c] by (simp add: A)
    finally have "card (dom (objs m')) \<le> card (cell_set ?ass')" .
    moreover have "finite (dom (objs m'))" using n(3) t(2) fin by (auto intro: finite_subset)
    ultimately show ?thesis using n(1,2,4) t(1) by (intro hmap_tight_card [where ass = ?ass']) (auto simp: A)
  qed
qed

lemma hmap_init_tight: "hmap_tight (hmap_init 1000 :: 'v hashmap) no_mem"
proof (rule hmap_tight_card)
  show "hmap_ok (hmap_init 1000 :: 'v hashmap) no_mem (replicate 1000 [])"
    by (auto simp: hmap_ok_def hmap_init_def Let_def list_ok_Nil llist_init_def
        llist_set_equality_checker_def elems_ok_def cell_set_def)
qed (simp_all add: no_mem_def)

lemma hmap_destroy_tight:
  assumes "hmap_inv h m" and "hmap_tight h m"
  shows "hmap_destroy h m = Some (h\<lparr>header_alloc := replicate (length (heads h)) False, head_alloc := False\<rparr>, no_mem)"
proof -
  let ?A = "cell_set (bucket_cells h m)"
  have d: "dom (nodes m) = ?A" "dom (objs m) = elem_at m ` ?A" "blocks m = []" using assms(2) by (simp_all add: hmap_tight_def Let_def)
  have "(\<lambda>a. if a \<in> dom (nodes m) then None else nodes m a) = Map.empty"
    "(\<lambda>t. if t \<in> dom (objs m) then None else objs m t) = Map.empty" by (auto simp: fun_eq_iff domIff)
  then show ?thesis unfolding hmap_destroy_ok [OF assms(1)] wipe_def no_mem_def d(1,2)
    using d(3) by (simp add: mem.equality)
qed

subsection \<open>The interface: a map from integers\<close>

fun put_all ::
  "('n \<Rightarrow> 'h \<Rightarrow> int \<Rightarrow> 'v option \<Rightarrow> 'm \<Rightarrow> ('h \<times> 'm) option) \<Rightarrow> ('n \<times> int \<times> 'v option) list \<Rightarrow>
   'h \<Rightarrow> 'm \<Rightarrow> ('h \<times> 'm) option" where
  "put_all put [] h m = Some (h, m)"
| "put_all put ((n, k, v) # xs) h m = do { (h, m) \<leftarrow> put n h k v m; put_all put xs h m }"

text \<open>
  What a client of the hash map relies on: with fresh memory at hand (\<open>avail\<close>; \<open>apart\<close>
  allocations stay fresh) an insertion under a key that is not negative succeeds and updates the
  map, and a lookup reads it; a missing key and a null value both read as NULL.
\<close>

locale int_map =
  fixes inv :: "'h \<Rightarrow> 'm \<Rightarrow> bool"
    and abs :: "'h \<Rightarrow> 'm \<Rightarrow> int \<Rightarrow> 'v option option"
    and avail :: "'n \<Rightarrow> 'm \<Rightarrow> bool"
    and apart :: "'n \<Rightarrow> 'n \<Rightarrow> bool"
    and put :: "'n \<Rightarrow> 'h \<Rightarrow> int \<Rightarrow> 'v option \<Rightarrow> 'm \<Rightarrow> ('h \<times> 'm) option"
    and get :: "'h \<Rightarrow> int \<Rightarrow> 'm \<Rightarrow> 'v option option"
  assumes put_law: "inv h m \<Longrightarrow> 0 \<le> k \<Longrightarrow> avail n m \<Longrightarrow>
      \<exists>h' m'. put n h k v m = Some (h', m') \<and> inv h' m' \<and> abs h' m' = (abs h m)(k \<mapsto> v) \<and>
        (\<forall>n'. avail n' m \<longrightarrow> apart n n' \<longrightarrow> avail n' m')"
    and get_law: "inv h m \<Longrightarrow> 0 \<le> k \<Longrightarrow>
      get h k m = Some (case abs h m k of None \<Rightarrow> None | Some v \<Rightarrow> v)"
begin

lemma put_all_abs:
  "inv h m \<Longrightarrow> \<forall>(n, k, v) \<in> set xs. 0 \<le> k \<and> avail n m \<Longrightarrow> sorted_wrt apart (map fst xs) \<Longrightarrow>
   \<exists>h' m'. put_all put xs h m = Some (h', m') \<and> inv h' m' \<and>
     abs h' m' = abs h m ++ map_of (rev (map snd xs))"
proof (induction xs arbitrary: h m)
  case (Cons x xs)
  obtain n k v where x: "x = (n, k, v)" by (cases x)
  with Cons.prems put_law [of h m k n v] obtain h1 m1 where p: "put n h k v m = Some (h1, m1)"
    "inv h1 m1" "abs h1 m1 = (abs h m)(k \<mapsto> v)" "\<forall>n'. avail n' m \<longrightarrow> apart n n' \<longrightarrow> avail n' m1" by auto
  have av: "\<forall>(n, k, v) \<in> set xs. 0 \<le> k \<and> avail n m1" using Cons.prems p(4) x by fastforce
  have "sorted_wrt apart (map fst xs)" using Cons.prems(3) by simp
  from Cons.IH [OF p(2) av this] obtain h' m' where r: "put_all put xs h1 m1 = Some (h', m')"
    "inv h' m'" "abs h' m' = (abs h m)(k \<mapsto> v) ++ map_of (rev (map snd xs))" unfolding p(3) by blast
  moreover have "(abs h m)(k \<mapsto> v) ++ map_of (rev (map snd xs)) = abs h m ++ map_of (rev (map snd (x # xs)))"
    by (rule ext) (auto simp: x map_add_def split: option.splits)
  moreover have "put_all put (x # xs) h m = Some (h', m')" using r(1) p(1) x by simp
  ultimately show ?case by metis
qed simp

lemma get_after_puts:
  assumes "inv h m" and "abs h m = Map.empty" and "\<forall>(n, k, v) \<in> set xs. 0 \<le> k \<and> avail n m"
    and "sorted_wrt apart (map fst xs)" and "0 \<le> key"
  shows "\<exists>h' m'. put_all put xs h m = Some (h', m') \<and> inv h' m' \<and>
    get h' key m' = Some (case map_of (rev (map snd xs)) key of None \<Rightarrow> None | Some v \<Rightarrow> v)"
  using put_all_abs [OF assms(1,3,4)] get_law [OF _ assms(5)] assms(2) by fastforce

end

definition entry_avail :: "(addr \<times> 'v hashmap_elem) \<times> (addr \<times> llist_elem) \<Rightarrow> 'v hashmap_elem mem \<Rightarrow> bool" where
  "entry_avail n m \<longleftrightarrow> objs m (fst (fst n)) = None \<and> nodes m (fst (snd n)) = None"

definition entry_apart ::
  "(addr \<times> 'v hashmap_elem) \<times> (addr \<times> llist_elem) \<Rightarrow> (addr \<times> 'v hashmap_elem) \<times> (addr \<times> llist_elem) \<Rightarrow> bool" where
  "entry_apart n n' \<longleftrightarrow> fst (fst n) \<noteq> fst (fst n') \<and> fst (snd n) \<noteq> fst (snd n')"

definition put_entry ::
  "(addr \<times> 'v hashmap_elem) \<times> (addr \<times> llist_elem) \<Rightarrow> 'v hashmap \<Rightarrow> int \<Rightarrow> 'v option \<Rightarrow>
   'v hashmap_elem mem \<Rightarrow> ('v hashmap \<times> 'v hashmap_elem mem) option" where
  "put_entry n h key v m = do {
     (hp, m) \<leftarrow> hmap_put_abs (Some (fst n)) (Some (snd n)) (Some h) key v m;
     h \<leftarrow> hp;
     Some (h, m)
   }"

definition get_entry :: "'v hashmap \<Rightarrow> int \<Rightarrow> 'v hashmap_elem mem \<Rightarrow> 'v option option" where
  "get_entry h key m = hmap_get_abs (Some h) key m"

lemma put_map_law:
  assumes "hmap_inv h m" and "0 \<le> k" and "entry_avail n m"
  shows "\<exists>h' m'. put_entry n h k v m = Some (h', m') \<and> hmap_inv h' m' \<and>
    hmap_map h' m' = (hmap_map h m)(k \<mapsto> v) \<and>
    (\<forall>n'. entry_avail n' m \<longrightarrow> entry_apart n n' \<longrightarrow> entry_avail n' m')"
proof -
  from assms(3) have "objs m (fst (fst n)) = None" "nodes m (fst (snd n)) = None"
    by (simp_all add: entry_avail_def)
  from hmap_put_map [OF assms(1,2) this, of v] obtain h' m' where
    r: "hmap_put_abs (Some (fst n)) (Some (snd n)) (Some h) k v m = Some (Some h', m')" "hmap_inv h' m'"
      "hmap_map h' m' = (hmap_map h m)(k \<mapsto> v)"
      "dom (nodes m') \<subseteq> insert (fst (snd n)) (dom (nodes m))"
      "dom (objs m') \<subseteq> insert (fst (fst n)) (dom (objs m))" by blast
  from r(4,5) have "\<forall>n'. entry_avail n' m \<longrightarrow> entry_apart n n' \<longrightarrow> entry_avail n' m'"
    unfolding entry_avail_def entry_apart_def by (auto simp: subset_iff dom_def)
  with r(1-3) show ?thesis by (auto simp: put_entry_def)
qed

lemma get_map_law:
  "hmap_inv h m \<Longrightarrow> 0 \<le> k \<Longrightarrow>
   get_entry h k m = Some (case hmap_map h m k of None \<Rightarrow> None | Some v \<Rightarrow> v)"
  unfolding get_entry_def by (rule hmap_get_map)

interpretation hm: int_map hmap_inv hmap_map entry_avail entry_apart put_entry get_entry
  by unfold_locales (rule put_map_law get_map_law; assumption)+

lemma put_tight_law:
  assumes "hmap_inv h m \<and> hmap_tight h m" and "0 \<le> k" and "entry_avail n m"
  shows "\<exists>h' m'. put_entry n h k v m = Some (h', m') \<and> (hmap_inv h' m' \<and> hmap_tight h' m') \<and>
    hmap_map h' m' = (hmap_map h m)(k \<mapsto> v) \<and>
    (\<forall>n'. entry_avail n' m \<longrightarrow> entry_apart n n' \<longrightarrow> entry_avail n' m')"
proof -
  from assms put_map_law [of h m k n v] obtain h' m' where p: "put_entry n h k v m = Some (h', m')" "hmap_inv h' m'"
    "hmap_map h' m' = (hmap_map h m)(k \<mapsto> v)"
    "\<forall>n'. entry_avail n' m \<longrightarrow> entry_apart n n' \<longrightarrow> entry_avail n' m'" by blast
  from p(1) have "hmap_put_abs (Some (fst n)) (Some (snd n)) (Some h) k v m = Some (Some h', m')"
    by (auto simp: put_entry_def split: bind_splits)
  with hmap_put_tight assms have "hmap_tight h' m'" unfolding entry_avail_def by blast
  with p show ?thesis by blast
qed

text \<open>The same interface for a memory of its own.\<close>

interpretation ht: int_map "\<lambda>h m. hmap_inv h m \<and> hmap_tight h m" hmap_map entry_avail entry_apart put_entry get_entry
  by unfold_locales (rule put_tight_law get_map_law; simp)+

subsection \<open>Properties\<close>

text \<open>A map of two buckets with three keys, for the concrete runs below.\<close>

definition demo_hmem :: "nat hashmap_elem mem" where
  "demo_hmem = \<lparr>nodes =
      [1 \<mapsto> \<lparr>item = Some 11, nxt = None, prv = None\<rparr>,
       2 \<mapsto> \<lparr>item = Some 12, nxt = Some 3, prv = None\<rparr>,
       3 \<mapsto> \<lparr>item = Some 13, nxt = None, prv = Some 2\<rparr>],
     objs =
      [11 \<mapsto> \<lparr>elem_key = None, key_val = 4, elem_value = Some 100, equals_fn = None\<rparr>,
       12 \<mapsto> \<lparr>elem_key = None, key_val = 7, elem_value = Some 101, equals_fn = None\<rparr>,
       13 \<mapsto> \<lparr>elem_key = None, key_val = 9, elem_value = None, equals_fn = None\<rparr>],
     blocks = []\<rparr>"

definition demo_hmap :: "nat hashmap" where
  "demo_hmap = \<lparr>heads =
      [\<lparr>l_size = 1, l_head = Some 1, l_tail = Some 1, l_equals = hmap_elem_comparer\<rparr>,
       \<lparr>l_size = 2, l_head = Some 2, l_tail = Some 3, l_equals = hmap_elem_comparer\<rparr>],
     head_alloc = True, header_alloc = [True, True],
     h_size = 2, h_hash = int_hash, h_key_comparer = int_key_comparer\<rparr>"

lemma demo_hmap_ok: "hmap_ok demo_hmap demo_hmem [[1], [2, 3]]"
  by (auto simp: hmap_ok_def demo_hmap_def demo_hmem_def list_ok_def elems_ok_def elem_at_def
      cell_set_def less_Suc_eq eval_nat_numeral)

lemma demo_bucket_index: "bucket_index demo_hmap k =
   (if k smod 2 = 0 then Some 0 else if k smod 2 = 1 then Some 1 else None)"
proof -
  have "\<bar>k smod 2\<bar> < 2" by (auto simp: signed_modulo_int_def signed_divide_int_def zsgn_def minus_div_mult_eq_mod split: if_splits)
  then show ?thesis by (auto simp: bucket_index_def demo_hmap_def Let_def at_def)
qed

lemma demo_entries:
  "entries demo_hmem [1] = [(4, Some 100)]" "entries demo_hmem [2, 3] = [(7, Some 101), (9, None)]"
  by (simp_all add: entries_def entry_at_def elem_at_def demo_hmem_def)

lemma demo_hmap_facts:
  "hmap_inv demo_hmap demo_hmem" "hmap_unique demo_hmap demo_hmem" "h_size demo_hmap = 2"
  "bucket_cells demo_hmap demo_hmem = [[1], [2, 3]]"
  using hmap_inv_map [OF demo_hmap_ok] bucket_cells_ok [OF demo_hmap_ok] demo_entries
  by (simp_all add: hmap_unique_def) (simp add: demo_hmap_def)

lemma demo_elems: "cell_set (bucket_cells demo_hmap demo_hmem) = {1, 2, 3}"
  "elem_at demo_hmem 2 = 12"
  by (auto simp: demo_hmap_facts cell_set_def) (simp add: elem_at_def demo_hmem_def)

lemma demo_hmap_map: "hmap_map demo_hmap demo_hmem 4 = Some (Some 100)"
  "hmap_map demo_hmap demo_hmem 7 = Some (Some 101)"
  "hmap_map demo_hmap demo_hmem 9 = Some None" "hmap_map demo_hmap demo_hmem 0 = None"
  using demo_entries by (simp_all add: hmap_map_def demo_hmap_facts(4) demo_bucket_index)

text \<open>
  C24: A map created with \<open>hmap_init\<close> (1000 buckets for size 0) is well formed, and after any
  sequence of insertions under keys that are not negative a lookup returns the value inserted last
  under its key, and NULL for a key never inserted, whatever the collisions between buckets.
\<close>

theorem hmap_get_after_puts:
  fixes m :: "'v hashmap_elem mem"
  assumes "0 \<le> m_size" and "\<forall>(n, k, v) \<in> set xs. 0 \<le> k \<and> entry_avail n m"
    and "sorted_wrt entry_apart (map fst xs)" and "0 \<le> key"
  shows "\<exists>h m'. put_all put_entry xs (hmap_init m_size) m = Some (h, m') \<and> hmap_inv h m' \<and>
     hmap_get_abs (Some h) key m' =
       Some (case map_of (rev (map snd xs)) key of None \<Rightarrow> None | Some v \<Rightarrow> v)"
  using hm.get_after_puts [OF hmap_init_inv(1,2) [OF assms(1)] assms(2-4)] assms(1)
  by (simp add: get_entry_def)

definition raw_elem :: "nat hashmap_elem" where
  "raw_elem = \<lparr>elem_key = None, key_val = 0, elem_value = None, equals_fn = None\<rparr>"

theorem hmap_get_after_puts_witness:
  "\<exists>h m'. put_all put_entry
       [(((11, raw_elem), (1, raw_cell)), 7, Some 5), (((12, raw_elem), (2, raw_cell)), 9, Some 6),
        (((13, raw_elem), (3, raw_cell)), 7, Some 8)] (hmap_init 2) no_mem = Some (h, m') \<and>
     hmap_get_abs (Some h) 7 m' = Some (Some 8)"
  using hmap_get_after_puts [of 2 "[(((11, raw_elem), (1, raw_cell)), 7, Some 5),
      (((12, raw_elem), (2, raw_cell)), 9, Some 6), (((13, raw_elem), (3, raw_cell)), 7, Some 8)]"
      no_mem 7]
  by (auto simp: no_mem_def entry_avail_def entry_apart_def)

lemma hmap_remove_facts:
  assumes inv: "hmap_inv h m" and uni: "hmap_unique h m" and key: "0 < key"
  shows "\<exists>m'. hmap_remove_abs (Some h) key m = Some m' \<and> hmap_inv h m' \<and> hmap_unique h m' \<and>
     nodes m' = nodes m \<and> hmap_map h m' key = None \<and>
     (\<forall>k. k \<noteq> key \<and> k \<noteq> 0 \<longrightarrow> hmap_map h m' k = hmap_map h m k) \<and>
     (hmap_map h m 0 = None \<longrightarrow>
       hmap_map h m' 0 = (if h_size h dvd key then hmap_map h m key else None))"
proof -
  let ?ass = "bucket_cells h m"
  have ok: "hmap_ok h m ?ass" using inv by (simp add: hmap_inv_def)
  from key have "0 \<le> key" by simp
  from bucket_index_nonneg [OF ok this] obtain i where il: "i < length ?ass"
    and i: "bucket_index h key = Some i" "int i = key mod h_size h" by blast
  from hmap_remove_map [OF inv i(1)] obtain m' where
    r: "hmap_remove_abs (Some h) key m = Some m'" "hmap_inv h m'" "nodes m' = nodes m"
      "bucket_cells h m' = ?ass"
    and e: "\<And>k. k < length ?ass \<Longrightarrow> entries m' (?ass ! k) =
        (if k = i then (case find_index (\<lambda>x. fst x = key) (entries m (?ass ! i)) of
                          None \<Rightarrow> entries m (?ass ! i)
                        | Some j \<Rightarrow> (entries m (?ass ! i))[j := (0, snd (entries m (?ass ! i) ! j))])
         else entries m (?ass ! k))" by blast
  have ok': "hmap_ok h m' ?ass" using r(2,4) by (simp add: hmap_inv_def)
  have d: "distinct (filter (\<lambda>k. k \<noteq> 0) (map fst (entries m (?ass ! k))))" if "k < length ?ass" for k
    using uni that unfolding hmap_unique_ok [OF ok] by blast
  have "hmap_unique h m'" unfolding hmap_unique_ok [OF ok']
    using d e il by (auto simp: map_update distinct_filter_rekey split: option.splits)
  moreover have "hmap_map h m' key = None"
    using e [OF il] d [OF il] i r(4) key
    by (auto simp: hmap_map_def find_index_map_of map_of_rekey_distinct split: option.splits)
  moreover have "hmap_map h m' k = hmap_map h m k" if "k \<noteq> key \<and> k \<noteq> 0" for k
  proof (cases "bucket_index h k")
    case (Some k')
    with e [OF bucket_index_less [OF ok Some]] r(4) that show ?thesis
      by (auto simp: hmap_map_def map_of_rekey_first split: option.splits)
  qed (simp add: hmap_map_def)
  moreover have "hmap_map h m' 0 = (if h_size h dvd key then hmap_map h m key else None)"
    if z: "hmap_map h m 0 = None"
  proof -
    have z0: "bucket_index h 0 = Some 0" using ok by (simp add: bucket_index_def hmap_ok_def at_def)
    have "0 < length ?ass" using il by linarith
    from e [OF this] z show ?thesis using i r(4) z0
      by (auto simp: hmap_map_def mod_eq_0_iff_dvd map_of_rekey_new find_index_map_of split: option.splits)
  qed
  ultimately show ?thesis using r by (intro exI [of _ m']) simp
qed

text \<open>
  C28: \<open>hmap_remove_abs\<close> makes a positive key unknown to later lookups and leaves every other
  key but 0 as it was; it unlinks and frees no cell, and the invariants survive.
\<close>

theorem hmap_remove_spec:
  assumes "hmap_inv h m" and "hmap_unique h m" and "0 < key"
  shows "\<exists>m'. hmap_remove_abs (Some h) key m = Some m' \<and> hmap_inv h m' \<and> hmap_unique h m' \<and>
     nodes m' = nodes m \<and> hmap_get_abs (Some h) key m' = Some None \<and>
     (\<forall>k. 0 < k \<and> k \<noteq> key \<longrightarrow> hmap_get_abs (Some h) k m' = hmap_get_abs (Some h) k m)"
  using hmap_remove_facts [OF assms] hmap_get_map [of h] assms(1,3) by fastforce

theorem hmap_remove_spec_witness:
  "\<exists>m'. hmap_remove_abs (Some demo_hmap) 7 demo_hmem = Some m' \<and>
     hmap_get_abs (Some demo_hmap) 7 m' = Some None \<and>
     hmap_get_abs (Some demo_hmap) 4 m' = Some (Some 100)"
  using hmap_remove_spec [OF demo_hmap_facts(1,2), of 7] hmap_get_map [OF demo_hmap_facts(1), of 4]
  by (auto simp: demo_hmap_map)

text \<open>
  Because removal only sets the element's key to 0, removing a key that shares bucket 0 makes
  its old value appear under the key 0, which was never inserted.
\<close>

theorem hmap_remove_leaves_key_0:
  assumes "hmap_inv h m" and "hmap_unique h m" and "0 < key" and "h_size h dvd key"
    and "hmap_map h m 0 = None" and "hmap_map h m key = Some (Some v)"
  shows "hmap_get_abs (Some h) 0 m = Some None \<and>
     (\<exists>m'. hmap_remove_abs (Some h) key m = Some m' \<and> hmap_get_abs (Some h) 0 m' = Some (Some v))"
  using hmap_remove_facts [OF assms(1-3)] hmap_get_map [of h _ 0] assms by fastforce

theorem hmap_remove_leaves_key_0_witness:
  "\<exists>m'. hmap_remove_abs (Some demo_hmap) 4 demo_hmem = Some m' \<and>
     hmap_get_abs (Some demo_hmap) 0 m' = Some (Some 100)"
  using hmap_remove_leaves_key_0 [OF demo_hmap_facts(1,2), of 4 100]
  by (auto simp: demo_hmap_map demo_hmap_facts)

text \<open>
  C29: \<open>hmap_destroy\<close> frees every cell of every bucket, every element they hold, the header of every
  list and the array of headers, each exactly once; and nothing else: the values, and the cells,
  objects and blocks of other structures, stay. Destroying the map again, or looking a key up in it, is
  then undefined.
\<close>

theorem hmap_destroy_spec:
  assumes "hmap_inv h m"
  shows "\<exists>h' m'. hmap_destroy h m = Some (h', m') \<and>
     nodes m' = (\<lambda>a. if a \<in> cell_set (bucket_cells h m) then None else nodes m a) \<and>
     objs m' = (\<lambda>t. if t \<in> elem_at m ` cell_set (bucket_cells h m) then None else objs m t) \<and>
     blocks m' = blocks m \<and> header_alloc h' = replicate (nat (h_size h)) False \<and> \<not> head_alloc h' \<and>
     hmap_destroy h' m' = None \<and> (\<forall>key. hmap_get_abs (Some h') key m' = None)"
proof -
  have "length (heads h) = nat (h_size h)" using assms by (simp add: hmap_inv_def hmap_ok_def)
  moreover have "hmap_destroy h' m' = None \<and> (\<forall>key. hmap_get_abs (Some h') key m' = None)"
    if "\<not> head_alloc h'" for h' :: "'a hashmap" and m'
    using that by (simp add: hmap_destroy_def hmap_get_abs_def bucket_index_def)
  ultimately show ?thesis using hmap_destroy_ok [OF assms] by (simp add: wipe_def)
qed

theorem hmap_destroy_spec_witness:
  "\<exists>h' m'. hmap_destroy demo_hmap demo_hmem = Some (h', m') \<and> nodes m' 2 = None \<and> objs m' 12 = None \<and>
     header_alloc h' = [False, False] \<and> \<not> head_alloc h'"
  using hmap_destroy_spec [OF demo_hmap_facts(1)]
  by (auto simp: demo_elems(1) demo_elems(2) [symmetric] demo_hmap_facts(3) numeral_2_eq_2)

end
