(* ===== verification/TK_Command.thy ===== *)
theory TK_Command
  imports C_Strings
begin

text \<open>
  The commands of TimeKeeper (\<open>router_app_vt.c\<close>): a round starts with a text
  \<open>|pid,n_insns|pid,n_insns...\<close> or \<open>STOP\<close> in a buffer. Modelled here: the scanners
  \<open>get_next_value\<close> and \<open>get_next_command_tuple\<close>, the command loop of
  \<open>ack_and_get_next_command\<close> and \<open>get_time_to_advance\<close> with what the device
  returned as an argument, and the output loop of \<open>write_results\<close> with the results of
  \<open>write\<close> as an argument.

  The lemmas show that on a terminated buffer the scan never leaves the text and always
  ends, and that a list of commands is read as it was written.
\<close>

subsection \<open>Scanning\<close>

function get_next_value_loop :: "string \<Rightarrow> nat \<Rightarrow> nat option" where
  "get_next_value_loop write_buffer i =
     (if i < length write_buffer
      then if is_digit (write_buffer ! i) then get_next_value_loop write_buffer (i + 1) else Some i
      else None)"
  by auto
termination by (relation "measure (\<lambda>(w, i). length w - i)") auto

declare get_next_value_loop.simps [simp del]

definition get_next_value :: "string \<Rightarrow> int option" where
  "get_next_value write_buffer = do {
     i \<leftarrow> get_next_value_loop write_buffer 1;
     c \<leftarrow> at write_buffer i;
     if c = NUL then Some (-1)
     else do {
       d \<leftarrow> at write_buffer (i + 1);
       Some (if d = NUL then -1 else int i + 1)
     }
   }"

text \<open>
  One tuple: the next resume pointer, the pid and the number of instructions. The comparison with
  \<open>STOP\<close> comes before the test \<open>resume_ptr < 0\<close>, so a negative pointer is read through.
  When the second \<open>get_next_value\<close> returns -1 the pointer returned is \<open>nxt_idx - 2\<close>, not -1.
\<close>

definition get_next_command_tuple :: "string \<Rightarrow> int \<Rightarrow> (int \<times> int \<times> 32 word) option" where
  "get_next_command_tuple buffer resume_ptr =
     (if resume_ptr < 0 then None
      else do {
        let i = nat resume_ptr;
        stop \<leftarrow> strcmp_eq (drop i buffer) ''STOP'';
        if stop then Some (-1, -1, 0)
        else do {
          c \<leftarrow> at buffer i;
          if c \<noteq> CHR ''|'' \<or> c = NUL then Some (-1, 0, 0)
          else do {
            pid \<leftarrow> str_to_i (drop (i + 1) buffer);
            nxt_idx \<leftarrow> get_next_value (drop i buffer);
            if nxt_idx = -1 then Some (-1, 0, 0)
            else do {
              let nxt_idx = nxt_idx + int i;
              n_insns \<leftarrow> str_to_i (drop (nat nxt_idx) buffer);
              g \<leftarrow> get_next_value (drop (nat nxt_idx) buffer);
              let resume_ptr = nxt_idx + g;
              let resume_ptr = resume_ptr - 1;
              Some (resume_ptr, pid, word_of_int n_insns)
            }
          }
        }
      })"

subsection \<open>The command loop\<close>

text \<open>
  The loop shared by \<open>ack_and_get_next_command\<close> and \<open>get_time_to_advance\<close>;
  the inner \<open>None\<close> is the early return for \<open>STOP\<close>.
\<close>

partial_function (option) command_loop :: "string \<Rightarrow> int \<Rightarrow> int \<Rightarrow> int option option" where
  "command_loop nxt_cmd tail_ptr per_round_advance =
     (if tail_ptr \<noteq> -1
      then do {
        (tail_ptr, new_cmd_pid, n_insns) \<leftarrow> get_next_command_tuple nxt_cmd tail_ptr;
        if tail_ptr = -1 \<and> new_cmd_pid = -1 then Some None
        else if new_cmd_pid = 0 then Some (Some per_round_advance)
        else command_loop nxt_cmd tail_ptr (sint n_insns sdiv 1000)
      }
      else Some (Some per_round_advance))"

definition advance_result :: "int option \<Rightarrow> int" where
  "advance_result r =
     (case r of
        None \<Rightarrow> -1
      | Some per_round_advance \<Rightarrow> if per_round_advance < 0 then 100 else per_round_advance)"

text \<open>The text written into the command buffer before the \<open>ioctl\<close>: \<open>J,advance_err,\<close>.\<close>

definition results_message :: "int \<Rightarrow> string" where
  "results_message advance_err = ''J,'' @ show_int advance_err @ '',''"

text \<open>
  \<open>ret\<close> is what the \<open>ioctl\<close> returned, \<open>nxt_cmd\<close> the buffer it left behind.
\<close>

definition ack_and_get_next_command :: "int \<Rightarrow> string \<Rightarrow> int option" where
  "ack_and_get_next_command ret nxt_cmd =
     (if ret = 0
      then do { r \<leftarrow> command_loop nxt_cmd 0 100; Some (advance_result r) }
      else Some (advance_result (Some 100)))"

text \<open>
  \<open>get_time_to_advance\<close> reads until \<open>read\<close> succeeds; its third argument, the number of
  bytes to read, is the file descriptor. \<open>replies\<close> are the results of the calls: \<open>None\<close>
  for -1, or the bytes the device had to give. More than 1024 of them overflow the buffer.
\<close>

fun read_command :: "int \<Rightarrow> string option list \<Rightarrow> string option" where
  "read_command fp [] = None"
| "read_command fp (None # replies) = read_command fp replies"
| "read_command fp (Some bytes # replies) =
     (let got = take (nat fp) bytes
      in if length got \<le> 1024 then Some (got @ replicate (1024 - length got) NUL) else None)"

definition get_time_to_advance :: "int \<Rightarrow> string option list \<Rightarrow> int option" where
  "get_time_to_advance fp replies = do {
     nxt_cmd \<leftarrow> read_command fp replies;
     r \<leftarrow> command_loop nxt_cmd 0 100;
     Some (advance_result r)
   }"

text \<open>
  \<open>write_results\<close>: \<open>writes\<close> are the values \<open>write\<close> returns, \<open>out\<close> the bytes it has
  taken. When the values run out the loop is still waiting: \<open>None\<close>.
\<close>

fun write_results_loop :: "string \<Rightarrow> string \<Rightarrow> int \<Rightarrow> int list \<Rightarrow> string \<Rightarrow> string option" where
  "write_results_loop command cursor ret writes out =
     (if ret \<noteq> int (length command)
      then (case writes of
              [] \<Rightarrow> None
            | r # writes \<Rightarrow>
                if r < 0 then Some out
                else write_results_loop command (drop (nat r) cursor) r writes (out @ take (nat r) cursor))
      else Some out)"

declare write_results_loop.simps [simp del]

definition write_results :: "int \<Rightarrow> int list \<Rightarrow> string option" where
  "write_results advance_err writes =
     write_results_loop (results_message advance_err) (results_message advance_err) 0 writes []"

subsection \<open>Scanning stays inside the text\<close>

text \<open>A text without zero bytes, its terminator, and whatever the buffer holds behind it.\<close>

abbreviation terminated :: "string \<Rightarrow> string \<Rightarrow> string" where
  "terminated tx rest \<equiv> tx @ NUL # rest"

lemma get_next_value_loop_run:
  "\<forall>d \<in> set ds. is_digit d \<Longrightarrow> \<not> is_digit c \<Longrightarrow>
   get_next_value_loop (xs @ ds @ c # ys) (length xs) = Some (length xs + length ds)"
proof (induction ds arbitrary: xs)
  case Nil
  then show ?case by (simp add: get_next_value_loop.simps [of _ "length xs"])
next
  case (Cons d ds)
  with Cons.IH [of "xs @ [d]"] show ?case
    by (simp add: get_next_value_loop.simps [of _ "length xs"] nth_append)
qed

lemma get_next_value_run:
  assumes "\<forall>d \<in> set ds. is_digit d" and "\<not> is_digit c"
  shows "get_next_value (x # ds @ c # ys) =
    (if c = NUL then Some (-1)
     else case ys of [] \<Rightarrow> None | d # _ \<Rightarrow> Some (if d = NUL then -1 else int (length ds) + 2))"
  using get_next_value_loop_run [OF assms, of "[x]" ys]
  by (auto simp: get_next_value_def at_def nth_append split: list.splits)

text \<open>Splitting what follows a position at the first byte that is not a digit.\<close>

lemma digit_run:
  assumes "NUL \<notin> set tx"
  obtains ds c ys where "terminated tx rest = ds @ c # ys" and "\<forall>d \<in> set ds. is_digit d"
    and "\<not> is_digit c" and "length ds \<le> length tx"
    and "c = NUL \<longleftrightarrow> length ds = length tx"
    and "c \<noteq> NUL \<longrightarrow> ys \<noteq> [] \<and> (hd ys = NUL \<longleftrightarrow> Suc (length ds) = length tx)"
proof -
  let ?ds = "takeWhile is_digit tx" and ?r = "dropWhile is_digit tx"
  have s: "tx = ?ds @ ?r" by simp
  show ?thesis
  proof (cases ?r)
    case Nil
    then have "tx = ?ds" using takeWhile_dropWhile_id [of is_digit tx] by (metis append_Nil2)
    then show ?thesis using that [of tx NUL rest] set_takeWhileD [of _ is_digit tx]
      by (auto simp: text_simps)
  next
    case (Cons c zs)
    then have c: "\<not> is_digit c" by (metis dropWhile_eq_Cons_conv)
    have tx: "tx = ?ds @ c # zs" using s Cons by simp
    then have n: "c \<noteq> NUL" "NUL \<notin> set zs" using assms by (metis in_set_conv_decomp, metis Un_iff list.set_intros(2) set_append)
    have len: "length tx = Suc (length ?ds + length zs)" using arg_cong [OF tx, of length] by simp
    show ?thesis
    proof (rule that [of ?ds c "zs @ NUL # rest"])
      show "terminated tx rest = ?ds @ c # zs @ NUL # rest" by (subst tx) simp
      show "c \<noteq> NUL \<longrightarrow> zs @ NUL # rest \<noteq> [] \<and>
          (hd (zs @ NUL # rest) = NUL \<longleftrightarrow> Suc (length ?ds) = length tx)"
        using n len by (cases zs) auto
    qed (use c n len in \<open>auto dest: set_takeWhileD\<close>)
  qed
qed

lemma get_next_value_terminated:
  assumes "NUL \<notin> set tx"
  shows "\<exists>g. get_next_value (terminated (x # tx) rest) = Some g \<and>
    (g = -1 \<or> 2 \<le> g \<and> g < int (length (x # tx)) \<and> (is_digit (hd tx) \<longrightarrow> 3 \<le> g))"
proof -
  obtain ds c ys where
    d: "terminated tx rest = ds @ c # ys" "\<forall>d \<in> set ds. is_digit d" "\<not> is_digit c"
      "length ds \<le> length tx" "c = NUL \<longleftrightarrow> length ds = length tx"
      "c \<noteq> NUL \<longrightarrow> ys \<noteq> [] \<and> (hd ys = NUL \<longleftrightarrow> Suc (length ds) = length tx)"
    by (rule digit_run [OF assms, of rest])
  have "ds \<noteq> []" if "is_digit (hd tx)" "c \<noteq> NUL"
  proof -
    have "tx \<noteq> []" using d(4,5) that(2) by auto
    then have "hd (terminated tx rest) = hd tx" by (cases tx) auto
    with d(1,3) that show ?thesis by auto
  qed
  then have "is_digit (hd tx) \<Longrightarrow> c \<noteq> NUL \<Longrightarrow> 1 \<le> length ds" by (simp add: Suc_leI)
  then show ?thesis
    using get_next_value_run [OF d(2,3), of x ys] d(4-6) unfolding append_Cons d(1)
    by (cases ys) auto
qed

text \<open>Numbers of at most nine digits never overflow.\<close>

definition numbers_short :: "string \<Rightarrow> bool" where
  "numbers_short tx \<longleftrightarrow> (\<forall>i \<le> length tx. length (takeWhile is_digit (drop i tx)) \<le> 9)"

lemma digits_value_bound:
  "\<forall>c \<in> set ds. is_digit c \<Longrightarrow> digits_value n ds < (n + 1) * 10 ^ length ds"
proof (induction ds arbitrary: n)
  case (Cons d ds)
  then have "digit_val d \<le> 9" by (simp add: digit_val_range)
  then have "(10 * n + digit_val d + 1) * 10 ^ length ds \<le> (10 * n + 10) * 10 ^ length ds"
    by (intro mult_right_mono) auto
  moreover have "digits_value (10 * n + digit_val d) ds < (10 * n + digit_val d + 1) * 10 ^ length ds"
    using Cons.IH [of "10 * n + digit_val d"] Cons.prems by simp
  ultimately have "digits_value (10 * n + digit_val d) ds < (10 * n + 10) * 10 ^ length ds" by linarith
  then show ?case by (simp add: algebra_simps)
qed simp

lemma str_to_i_terminated:
  assumes "NUL \<notin> set tx" and "length (takeWhile is_digit tx) \<le> 9"
  shows "\<exists>n. str_to_i (terminated tx rest) = Some n \<and> 0 \<le> n \<and> n < 1000000000 \<and>
    (n \<noteq> 0 \<longrightarrow> tx \<noteq> [] \<and> is_digit (hd tx))"
proof -
  obtain ds c ys where
    d: "terminated tx rest = ds @ c # ys" "\<forall>d \<in> set ds. is_digit d" "\<not> is_digit c"
      "length ds \<le> length tx" by (rule digit_run [OF assms(1), of rest])
  then have "ds = takeWhile is_digit (terminated tx rest)"
    by (simp add: takeWhile_append_stop)
  moreover have "length (takeWhile is_digit (terminated tx rest)) \<le> length (takeWhile is_digit tx)"
    by (induction tx) (auto simp: text_simps)
  ultimately have "length ds \<le> 9" using assms(2) by simp
  then have "(10::int) ^ length ds \<le> 10 ^ 9" by (intro power_increasing) auto
  with digits_value_bound [OF d(2), of 0] have b: "digits_value 0 ds < 1000000000" by simp
  moreover have "0 \<le> digits_value 0 ds" using d(2) by (intro digits_value_mono) auto
  moreover have "tx \<noteq> [] \<and> is_digit (hd tx)" if "digits_value 0 ds \<noteq> 0"
    using that d by (cases ds; cases tx) auto
  ultimately show ?thesis using str_to_i_digits [OF d(2,3), of ys] unfolding d(1) by auto
qed

lemma strcmp_eq_terminated: "NUL \<notin> set tx \<Longrightarrow> NUL \<notin> set lit \<Longrightarrow> strcmp_eq (terminated tx rest) lit = Some (tx = lit)"
proof (induction tx arbitrary: lit)
  case Nil
  then show ?case by (cases lit) auto
next
  case (Cons x tx)
  then show ?case by (cases lit) auto
qed

lemma sint_small: "0 \<le> n \<Longrightarrow> n < 1000000000 \<Longrightarrow> sint (word_of_int n :: 32 word) = n"
  by (intro sint_word_of_int_fits) auto

lemma numbers_short_drop: "numbers_short tx \<Longrightarrow> i \<le> length tx \<Longrightarrow> numbers_short (drop i tx)"
  by (auto simp: numbers_short_def)

lemma numbers_short_at: "numbers_short tx \<Longrightarrow> i \<le> length tx \<Longrightarrow> length (takeWhile is_digit (drop i tx)) \<le> 9"
  by (auto simp: numbers_short_def)

lemma str_to_i_at:
  assumes "NUL \<notin> set tx" and "numbers_short tx" and "k \<le> length tx"
  obtains n where "str_to_i (drop k (terminated tx rest)) = Some n" "0 \<le> n" "n < 1000000000"
    "n \<noteq> 0 \<Longrightarrow> is_digit (hd (drop k tx))"
proof -
  have "NUL \<notin> set (drop k tx)" using assms(1) by (meson in_set_dropD)
  from str_to_i_terminated [OF this numbers_short_at [OF assms(2,3)], of rest] that assms(3)
  show ?thesis by auto
qed

lemma get_next_value_at:
  assumes "NUL \<notin> set tx" and k: "k < length tx"
  obtains g where "get_next_value (drop k (terminated tx rest)) = Some g"
    "g = -1 \<or> 2 \<le> g \<and> g < int (length tx - k) \<and> (is_digit (hd (drop (Suc k) tx)) \<longrightarrow> 3 \<le> g)"
proof -
  have "NUL \<notin> set (drop (Suc k) tx)" using assms(1) by (meson in_set_dropD)
  moreover have "drop k tx = tx ! k # drop (Suc k) tx" using k by (simp add: Cons_nth_drop_Suc)
  moreover have "drop k (terminated tx rest) = terminated (drop k tx) rest" using k by simp
  ultimately show ?thesis
    using get_next_value_terminated [of "drop (Suc k) tx" "tx ! k" rest] that k by (auto simp del: drop_append)
qed

lemma get_next_command_tuple_bar:
  assumes z: "NUL \<notin> set tx" and short: "numbers_short tx" and i: "i < length tx" "tx ! i = CHR ''|''"
    and ns: "strcmp_eq (drop i (terminated tx rest)) ''STOP'' = Some False"
  shows "\<exists>r pid n. get_next_command_tuple (terminated tx rest) (int i) = Some (r, pid, n) \<and>
     0 \<le> sint n \<and> sint n < 1000000000 \<and>
     (pid = 0 \<or> 0 < pid \<and> int i < r \<and> r < int (length tx) \<and> i + 3 < length tx)"
proof -
  have at: "at (terminated tx rest) i = Some CHR ''|''" using i by (simp add: at_def nth_append)
  from i(1) have "i + 1 \<le> length tx" by simp
  from str_to_i_at [OF z short this, of rest] obtain pid where
    pid: "str_to_i (drop (i + 1) (terminated tx rest)) = Some pid" "0 \<le> pid" "pid < 1000000000"
      "pid \<noteq> 0 \<Longrightarrow> is_digit (hd (drop (i + 1) tx))" by blast
  from get_next_value_at [OF z i(1), of rest] obtain g where
    g: "get_next_value (drop i (terminated tx rest)) = Some g"
      "g = -1 \<or> 2 \<le> g \<and> g < int (length tx - i) \<and> (is_digit (hd (drop (Suc i) tx)) \<longrightarrow> 3 \<le> g)" by blast
  show ?thesis
  proof (cases "g = -1")
    case True
    with g ns at pid show ?thesis by (simp add: get_next_command_tuple_def)
  next
    case False
    define k where "k = nat (g + int i)"
    have k: "k < length tx" "int k = g + int i" using g(2) False i by (auto simp: k_def nat_less_iff)
    from str_to_i_at [OF z short less_imp_le [OF k(1)], of rest] obtain n where
      n: "str_to_i (drop k (terminated tx rest)) = Some n" "0 \<le> n" "n < 1000000000" by blast
    from get_next_value_at [OF z k(1), of rest] obtain g' where
      g': "get_next_value (drop k (terminated tx rest)) = Some g'" "g' = -1 \<or> 2 \<le> g' \<and> g' < int (length tx - k)"
      by blast
    have "get_next_command_tuple (terminated tx rest) (int i) =
        Some (g + int i + g' - 1, pid, word_of_int n)"
      using ns at pid(1) g(1) False n(1) g'(1)
      by (simp add: get_next_command_tuple_def Let_def k_def [symmetric])
    moreover have "pid \<noteq> 0 \<Longrightarrow> 0 < pid \<and> int i < g + int i + g' - 1 \<and> g + int i + g' - 1 < int (length tx) \<and> i + 3 < length tx"
      using pid(2,4) g(2) False g'(2) k by auto
    ultimately show ?thesis using sint_small [OF n(2,3)] n(2,3) by auto
  qed
qed

lemma get_next_command_tuple_terminated:
  assumes z: "NUL \<notin> set tx" and short: "numbers_short tx" and i: "i \<le> length tx"
  shows "\<exists>r pid n. get_next_command_tuple (terminated tx rest) (int i) = Some (r, pid, n) \<and>
     0 \<le> sint n \<and> sint n < 1000000000 \<and>
     (r = -1 \<and> pid = -1 \<and> drop i tx = ''STOP'' \<or> pid = 0 \<or>
      0 < pid \<and> int i < r \<and> r < int (length tx) \<and> i + 3 < length tx)"
proof -
  have "NUL \<notin> set (drop i tx)" using z by (meson in_set_dropD)
  moreover have "drop i (terminated tx rest) = terminated (drop i tx) rest" using i by simp
  ultimately have stop: "strcmp_eq (drop i (terminated tx rest)) ''STOP'' = Some (drop i tx = ''STOP'')"
    using strcmp_eq_terminated [of "drop i tx" "''STOP''" rest] by simp
  show ?thesis
  proof (cases "drop i tx = ''STOP''")
    case True
    with stop show ?thesis by (simp add: get_next_command_tuple_def)
  next
    case ns: False
    show ?thesis
    proof (cases "i < length tx \<and> tx ! i = CHR ''|''")
      case False
      then have "at (terminated tx rest) i = Some (if i < length tx then tx ! i else NUL)"
        using i by (auto simp: at_def nth_append)
      with False ns stop show ?thesis by (auto simp: get_next_command_tuple_def)
    next
      case True
      with get_next_command_tuple_bar [OF z short, of i rest] ns stop show ?thesis by auto
    qed
  qed
qed

lemma sdiv_1000: "0 \<le> n \<Longrightarrow> n sdiv 1000 = n div (1000::int)"
  by (auto simp: signed_divide_int_def sgn_if)

lemma div_1000_bound: "0 \<le> n \<Longrightarrow> n < 1000000000 \<Longrightarrow> 0 \<le> n div 1000 \<and> n div (1000::int) < 1000000"
  by auto

lemma command_loop_terminated:
  assumes z: "NUL \<notin> set tx" and short: "numbers_short tx"
  shows "i \<le> length tx \<Longrightarrow> \<exists>r. command_loop (terminated tx rest) (int i) adv = Some r \<and>
     (case r of None \<Rightarrow> True | Some a \<Rightarrow> a = adv \<or> 0 \<le> a \<and> a < 1000000)"
proof (induction "length tx - i" arbitrary: i adv rule: less_induct)
  case less
  from get_next_command_tuple_terminated [OF z short less.prems, of rest] obtain r pid n where
    t: "get_next_command_tuple (terminated tx rest) (int i) = Some (r, pid, n)" "0 \<le> sint n" "sint n < 1000000000"
      "r = -1 \<and> pid = -1 \<or> pid = 0 \<or> 0 < pid \<and> int i < r \<and> r < int (length tx)" by blast
  show ?case
  proof (cases "0 < pid")
    case False
    with t show ?thesis by (auto simp: command_loop.simps [of _ "int i"])
  next
    case True
    then have r: "int i < r" "r < int (length tx)" using t(4) by auto
    then obtain j where j: "r = int j" by (metis nonneg_int_cases of_nat_0_le_iff order_less_imp_le order_trans)
    then have "length tx - j < length tx - i" "j \<le> length tx" using r less.prems by auto
    from less.hyps [OF this, of "sint n sdiv 1000"] j obtain q where
      "command_loop (terminated tx rest) r (sint n sdiv 1000) = Some q"
      "case q of None \<Rightarrow> True | Some a \<Rightarrow> a = sint n sdiv 1000 \<or> 0 \<le> a \<and> a < 1000000" by auto
    moreover have "0 \<le> sint n sdiv 1000 \<and> sint n sdiv 1000 < 1000000" using t(2,3) div_1000_bound by (simp add: sdiv_1000)
    ultimately show ?thesis using t(1) True
      by (intro exI [of _ q]) (auto simp: command_loop.simps [of _ "int i"] split: option.splits)
  qed
qed

subsection \<open>Reading a list of commands\<close>

definition encode_command :: "nat \<times> nat \<Rightarrow> string" where
  "encode_command c = CHR ''|'' # show_nat (fst c) @ CHR '','' # show_nat (snd c)"

definition encode_commands :: "(nat \<times> nat) list \<Rightarrow> string" where
  "encode_commands cs = concat (map encode_command cs)"

definition command_ok :: "nat \<times> nat \<Rightarrow> bool" where
  "command_ok c \<longleftrightarrow> 0 < fst c \<and> int (fst c) \<le> INT_MAX - 48 \<and> int (snd c) \<le> INT_MAX - 48"

lemma show_nat_Cons: obtains d ds where "show_nat n = d # ds" "is_digit d" "\<forall>d \<in> set ds. is_digit d"
  using show_nat_digits [of n] by (cases "show_nat n") auto

lemma get_next_command_tuple_encode:
  fixes pre rest c
  defines "i \<equiv> length pre" and "p \<equiv> length (show_nat (fst c))"
  assumes ok: "command_ok c"
  shows "get_next_command_tuple (pre @ encode_command c @ NUL # rest) (int i) =
       Some (int (i + p), int (fst c), word_of_int (int (snd c)))" (is ?last)
    and "\<not> is_digit x \<Longrightarrow> x \<noteq> NUL \<Longrightarrow> y \<noteq> NUL \<Longrightarrow>
       get_next_command_tuple (pre @ encode_command c @ x # y # rest) (int i) =
       Some (int (length (pre @ encode_command c)), int (fst c), word_of_int (int (snd c)))" (is "_ \<Longrightarrow> _ \<Longrightarrow> _ \<Longrightarrow> ?inner")
proof -
  let ?ds1 = "show_nat (fst c)" and ?ds2 = "show_nat (snd c)"
  obtain d ds where d: "?ds2 = d # ds" "is_digit d" "\<forall>d \<in> set ds. is_digit d" by (rule show_nat_Cons)
  have dn: "d \<noteq> NUL" using digit_not_special [OF d(2)] by simp
  have main: "get_next_command_tuple (pre @ encode_command c @ x # ys) (int i) =
      map_option (\<lambda>g. (int (i + p + 2) + g - 1, int (fst c), word_of_int (int (snd c))))
        (get_next_value (d # ds @ x # ys))" if x: "\<not> is_digit x" for x ys
  proof -
    let ?buf = "pre @ encode_command c @ x # ys"
    have d0: "drop i ?buf = CHR ''|'' # ?ds1 @ CHR '','' # ?ds2 @ x # ys"
      by (simp add: i_def encode_command_def)
    have d1: "drop (i + 1) ?buf = ?ds1 @ CHR '','' # ?ds2 @ x # ys"
      by (simp add: i_def encode_command_def)
    have d2: "drop (i + p + 2) ?buf = ?ds2 @ x # ys"
      by (simp add: i_def p_def encode_command_def)
    have "at ?buf i = Some CHR ''|''" by (simp add: i_def encode_command_def)
    moreover have "strcmp_eq (drop i ?buf) ''STOP'' = Some False" unfolding d0 by simp
    moreover have "str_to_i (drop (i + 1) ?buf) = Some (int (fst c))"
      unfolding d1 using ok by (intro str_to_i_show_nat) (simp_all add: command_ok_def text_simps)
    moreover have "get_next_value (drop i ?buf) = Some (int (p + 2))"
      unfolding d0 p_def using show_nat_digits [of "fst c"] dn
      by (subst get_next_value_run) (simp_all add: text_simps d(1))
    moreover have "str_to_i (drop (i + p + 2) ?buf) = Some (int (snd c))"
      unfolding d2 using ok x by (intro str_to_i_show_nat) (simp_all add: command_ok_def)
    moreover have "drop (i + p + 2) ?buf = d # ds @ x # ys" unfolding d2 d(1) by simp
    moreover have "nat (int (p + 2) + int i) = i + p + 2" by simp
    ultimately show ?thesis
      unfolding get_next_command_tuple_def nat_int Let_def
      by (cases "get_next_value (d # ds @ x # ys)") (simp_all add: algebra_simps)
  qed
  show ?last using main [OF NUL_not_digit, of rest] get_next_value_run [OF d(3) NUL_not_digit, of d rest]
    by simp
  show ?inner if "\<not> is_digit x" "x \<noteq> NUL" "y \<noteq> NUL"
    using main [OF that(1), of "y # rest"] get_next_value_run [OF d(3) that(1), of d "y # rest"] that
    by (simp add: encode_command_def i_def p_def d(1))
qed

lemma at_drop: "drop i xs = y # ys \<Longrightarrow> at xs i = Some y"
  by (metis at_def drop_eq_Nil list.distinct(1) list.sel(1) hd_drop_conv_nth not_le)

lemma get_next_command_tuple_other:
  "drop i buf = x # xs \<Longrightarrow> x \<noteq> CHR ''|'' \<Longrightarrow> x \<noteq> CHR ''S'' \<Longrightarrow>
   get_next_command_tuple buf (int i) = Some (-1, 0, 0)"
  using at_drop [of i buf x xs] by (simp add: get_next_command_tuple_def)

lemma last_command_end:
  "get_next_command_tuple (pre @ encode_command c @ rest) (int (length pre + length (show_nat (fst c)))) =
     Some (-1, 0, 0)"
proof -
  obtain ds d where s: "show_nat (fst c) = ds @ [d]" by (meson show_nat_not_Nil rev_exhaust)
  then have "is_digit d" using show_nat_digits [of "fst c"] by simp
  then have "d \<noteq> CHR ''|''" "d \<noteq> CHR ''S''" by (auto simp: is_digit_def)
  moreover have "drop (length pre + length (show_nat (fst c))) (pre @ encode_command c @ rest) =
      d # CHR '','' # show_nat (snd c) @ rest" by (simp add: s encode_command_def)
  ultimately show ?thesis by (intro get_next_command_tuple_other)
qed

text \<open>What the loop leaves in \<open>per_round_advance\<close> after a list of commands.\<close>

definition commands_advance :: "int \<Rightarrow> (nat \<times> nat) list \<Rightarrow> int" where
  "commands_advance adv cs = (if cs = [] then adv else int (snd (last cs)) div 1000)"

lemma encode_commands_Cons: "encode_commands (c # cs) = encode_command c @ encode_commands cs"
  by (simp add: encode_commands_def)

lemma command_loop_step:
  assumes "get_next_command_tuple buf (int i) = Some (r, int (fst c), word_of_int (int (snd c)))"
    and "command_ok c"
  shows "command_loop buf (int i) adv = command_loop buf r (int (snd c) div 1000)"
proof -
  have "fits_int (int (snd c))" using assms(2) by (auto simp: command_ok_def)
  then have "sint (word_of_int (int (snd c)) :: 32 word) = int (snd c)" by (rule sint_word_of_int_fits)
  with assms show ?thesis
    by (simp add: command_loop.simps [of _ "int i"] command_ok_def sdiv_1000)
qed

lemma command_loop_commands:
  assumes "\<forall>c \<in> set cs. command_ok c"
  shows "command_loop (pre @ encode_commands cs @ NUL # rest) (int (length pre)) adv =
     Some (Some (commands_advance adv cs))"
  using assms
proof (induction cs arbitrary: pre adv)
  case Nil
  then show ?case using get_next_command_tuple_other [of "length pre" "pre @ NUL # rest" NUL rest]
    by (simp add: encode_commands_def commands_advance_def command_loop.simps)
next
  case (Cons c cs)
  then have c: "command_ok c" by simp
  show ?case
  proof (cases cs)
    case Nil
    let ?i = "length pre + length (show_nat (fst c))"
    from command_loop_step [OF get_next_command_tuple_encode(1) [OF c] c, of pre rest adv]
    have "command_loop (pre @ encode_command c @ NUL # rest) (int (length pre)) adv =
        command_loop (pre @ encode_command c @ NUL # rest) (int ?i) (int (snd c) div 1000)" .
    also have "\<dots> = Some (Some (int (snd c) div 1000))"
      using last_command_end [of pre c "NUL # rest"] by (subst command_loop.simps) simp
    finally show ?thesis using Nil by (simp add: encode_commands_def commands_advance_def)
  next
    case (Cons c' cs')
    obtain d ds where d: "show_nat (fst c') = d # ds" "is_digit d" by (rule show_nat_Cons)
    let ?more = "ds @ CHR '','' # show_nat (snd c') @ encode_commands cs' @ NUL # rest"
    have e: "pre @ encode_commands (c # cs) @ NUL # rest = pre @ encode_command c @ CHR ''|'' # d # ?more"
      using Cons d by (simp add: encode_commands_Cons encode_command_def)
    have e': "pre @ encode_command c @ CHR ''|'' # d # ?more =
        (pre @ encode_command c) @ encode_commands cs @ NUL # rest"
      using Cons d by (simp add: encode_commands_Cons encode_command_def)
    have "d \<noteq> NUL" using digit_not_special [OF d(2)] by simp
    from command_loop_step [OF get_next_command_tuple_encode(2) [OF c separators_not_digit(1) _ this] c, of pre ?more adv]
    have "command_loop (pre @ encode_commands (c # cs) @ NUL # rest) (int (length pre)) adv =
        command_loop ((pre @ encode_command c) @ encode_commands cs @ NUL # rest)
          (int (length (pre @ encode_command c))) (int (snd c) div 1000)"
      unfolding e e' by simp
    also have "\<dots> = Some (Some (commands_advance (int (snd c) div 1000) cs))"
      using Cons.IH [of "pre @ encode_command c"] \<open>\<forall>c \<in> set (c # cs). command_ok c\<close> by simp
    finally show ?thesis using Cons by (simp add: commands_advance_def)
  qed
qed

lemma command_loop_stop:
  assumes "\<forall>c \<in> set cs. command_ok c"
  shows "command_loop (pre @ encode_commands cs @ ''STOP'' @ NUL # rest) (int (length pre)) adv = Some None"
  using assms
proof (induction cs arbitrary: pre adv)
  case Nil
  have "get_next_command_tuple (pre @ ''STOP'' @ NUL # rest) (int (length pre)) = Some (-1, -1, 0)"
    by (simp add: get_next_command_tuple_def)
  then show ?case by (simp add: encode_commands_def command_loop.simps)
next
  case (Cons c cs)
  then have c: "command_ok c" by simp
  let ?next = "encode_commands cs @ ''STOP'' @ NUL # rest"
  obtain x y more where n: "?next = x # y # more" "\<not> is_digit x" "x \<noteq> NUL" "y \<noteq> NUL"
  proof (cases cs)
    case Nil
    then show ?thesis using that [of "CHR ''S''" "CHR ''T''" "''OP'' @ NUL # rest"]
      by (simp add: encode_commands_def is_digit_def)
  next
    case (Cons c' cs')
    obtain d ds where d: "show_nat (fst c') = d # ds" "is_digit d" by (rule show_nat_Cons)
    with Cons digit_not_special [OF d(2)] show ?thesis
      using that [of "CHR ''|''" d] by (simp add: encode_commands_Cons encode_command_def text_simps)
  qed
  have e: "pre @ encode_command c @ x # y # more = (pre @ encode_command c) @ ?next" using n(1) by simp
  from command_loop_step [OF get_next_command_tuple_encode(2) [OF c n(2-4)] c, of pre more adv]
  have "command_loop ((pre @ encode_command c) @ ?next) (int (length pre)) adv =
      command_loop ((pre @ encode_command c) @ ?next) (int (length (pre @ encode_command c))) (int (snd c) div 1000)"
    unfolding e .
  also have "\<dots> = Some None" using Cons.prems by (intro Cons.IH) simp
  finally show ?case by (simp add: encode_commands_Cons)
qed

text \<open>With three bytes or fewer there is no command in the buffer.\<close>

lemma takeWhile_terminated:
  "\<exists>tx rest. g @ NUL # zs = terminated tx rest \<and> NUL \<notin> set tx \<and> length tx \<le> length g"
proof (induction g)
  case (Cons x g)
  then obtain tx rest where "g @ NUL # zs = terminated tx rest" "NUL \<notin> set tx" "length tx \<le> length g" by blast
  then show ?case
    by (cases "x = NUL") (force intro: exI [of _ "[]"], force intro: exI [of _ "x # tx"])
qed force

lemma numbers_short_length: "length tx \<le> 9 \<Longrightarrow> numbers_short tx"
  unfolding numbers_short_def using length_takeWhile_le [of is_digit "drop _ tx"]
  by (metis diff_le_self le_trans length_drop)

lemma command_loop_short:
  assumes "length g \<le> 3"
  shows "command_loop (g @ NUL # zs) 0 adv = Some (Some adv)"
proof -
  obtain tx rest where t: "g @ NUL # zs = terminated tx rest" "NUL \<notin> set tx" "length tx \<le> length g"
    using takeWhile_terminated by metis
  with assms have "length tx \<le> 3" by simp
  with get_next_command_tuple_terminated [OF t(2) numbers_short_length, of 0 rest]
  obtain r pid n where "get_next_command_tuple (terminated tx rest) 0 = Some (r, pid, n)"
    "pid = 0 \<or> tx = ''STOP''" by fastforce
  with \<open>length tx \<le> 3\<close> show ?thesis unfolding t(1) by (auto simp: command_loop.simps [of _ 0])
qed

lemma read_command_short:
  assumes "fp \<le> 3" and "Some bytes \<in> set replies"
  shows "\<exists>g zs. read_command fp replies = Some (g @ NUL # zs) \<and> length g \<le> 3"
  using assms(2)
proof (induction replies)
  case (Cons b replies)
  show ?case
  proof (cases b)
    case None
    with Cons show ?thesis by simp
  next
    case (Some bs)
    let ?g = "take (nat fp) bs"
    have g: "length ?g \<le> 3" using assms(1) by simp
    then have "replicate (1024 - length ?g) NUL = NUL # replicate (1023 - length ?g) NUL"
      by (simp flip: replicate_Suc add: Suc_diff_le)
    with g Some show ?thesis by (auto simp: Let_def)
  qed
qed simp

text \<open>What \<open>write\<close> can return when it does not fail: at most what is left to send.\<close>

fun writes_fit :: "nat \<Rightarrow> int list \<Rightarrow> bool" where
  "writes_fit n [] = True"
| "writes_fit n (r # rs) \<longleftrightarrow> 0 \<le> r \<and> r \<le> int n \<and> writes_fit (n - nat r) rs"

lemma write_results_loop_stuck:
  "ret \<noteq> int (length command) \<Longrightarrow> length cursor < length command \<Longrightarrow> writes_fit (length cursor) writes \<Longrightarrow>
   write_results_loop command cursor ret writes out = None"
proof (induction writes arbitrary: cursor ret out)
  case Nil
  then show ?case by (simp add: write_results_loop.simps)
next
  case (Cons r writes)
  then show ?case by (subst write_results_loop.simps) (auto intro!: Cons.IH)
qed

lemma writes_fit_sum: "writes_fit n writes \<Longrightarrow> 0 \<le> sum_list writes \<and> sum_list writes \<le> int n"
  by (induction n writes rule: writes_fit.induct) auto

lemma write_results_loop_fails:
  "ret \<noteq> int (length command) \<Longrightarrow> length cursor < length command \<Longrightarrow> writes_fit (length cursor) writes \<Longrightarrow> e < 0 \<Longrightarrow>
   write_results_loop command cursor ret (writes @ e # rest) out = Some (out @ take (nat (sum_list writes)) cursor)"
proof (induction writes arbitrary: cursor ret out)
  case Nil
  then show ?case by (simp add: write_results_loop.simps)
next
  case (Cons r writes)
  from Cons.prems(3) have r: "0 \<le> r" "r \<le> int (length cursor)" "writes_fit (length (drop (nat r) cursor)) writes" by auto
  from Cons.IH [of r "drop (nat r) cursor" "out @ take (nat r) cursor"] Cons.prems r
  have "write_results_loop command (drop (nat r) cursor) r (writes @ e # rest) (out @ take (nat r) cursor) =
      Some (out @ take (nat r) cursor @ take (nat (sum_list writes)) (drop (nat r) cursor))" by simp
  moreover have "take (nat (r + sum_list writes)) cursor = take (nat r) cursor @ take (nat (sum_list writes)) (drop (nat r) cursor)"
    using r(1) writes_fit_sum [OF r(3)] by (simp add: nat_add_distrib take_add)
  ultimately show ?case using Cons.prems(1) r(1) by (subst write_results_loop.simps) simp
qed

subsection \<open>Properties\<close>

text \<open>
  C22: On any terminated command buffer whose numbers have at most nine digits, whatever else it
  contains, reading the next command ends, reads no byte outside the text, overflows nothing, and
  yields -1 (stop) or an advance between 0 and 999999 microseconds.
\<close>

theorem ack_and_get_next_command_total:
  assumes "NUL \<notin> set tx" and "numbers_short tx"
  shows "\<exists>a. ack_and_get_next_command 0 (tx @ NUL # rest) = Some a \<and> -1 \<le> a \<and> a < 1000000"
  using command_loop_terminated [OF assms, of 0 rest 100]
  by (auto simp: ack_and_get_next_command_def advance_result_def split: option.splits)

theorem ack_and_get_next_command_total_witness:
  "\<exists>a. ack_and_get_next_command 0 (''|12,3|,;|'' @ NUL # ''rest'') = Some a \<and> -1 \<le> a"
  using ack_and_get_next_command_total [of "''|12,3|,;|''" "''rest''"]
  by (simp add: numbers_short_length) blast

text \<open>
  C23: A list of commands is read as TimeKeeper wrote it: the round advances by the last
  command's instruction count divided by 1000 (by 100 for an empty list), and \<open>STOP\<close> at the end
  of the list, or alone, stops the experiment.
\<close>

theorem ack_and_get_next_command_roundtrip:
  assumes "\<forall>c \<in> set cs. command_ok c"
  shows "ack_and_get_next_command 0 (encode_commands cs @ NUL # rest) =
      Some (if cs = [] then 100 else int (snd (last cs)) div 1000) \<and>
    ack_and_get_next_command 0 (encode_commands cs @ ''STOP'' @ NUL # rest) = Some (-1)"
  using command_loop_commands [OF assms, of "[]" rest 100] command_loop_stop [OF assms, of "[]" rest 100]
  by (auto simp: ack_and_get_next_command_def advance_result_def commands_advance_def not_less
      pos_imp_zdiv_nonneg_iff)

theorem ack_and_get_next_command_roundtrip_witness:
  "ack_and_get_next_command 0 (encode_commands [(7, 5), (41, 250000)] @ NUL # []) = Some 250"
  using ack_and_get_next_command_roundtrip [of "[(7, 5), (41, 250000)]" "[]"]
  by (simp add: command_ok_def)

text \<open>
  \<open>get_time_to_advance\<close> passes the file descriptor as the number of bytes to read:
  with a descriptor up to 3 it can neither read a command nor see \<open>STOP\<close>, and
  always answers 100.
\<close>

theorem get_time_to_advance_small_descriptor:
  assumes "0 \<le> fp" and "fp \<le> 3" and "Some bytes \<in> set replies"
  shows "get_time_to_advance fp replies = Some 100"
  using read_command_short [OF assms(2,3)] command_loop_short
  by (auto simp: get_time_to_advance_def advance_result_def)

theorem get_time_to_advance_small_descriptor_witness:
  "get_time_to_advance 3 [None, Some ''STOP''] = Some 100"
  using get_time_to_advance_small_descriptor [of 3 "''STOP''" "[None, Some ''STOP'']"] by simp

text \<open>
  C30: The output loop of \<open>write_results\<close> by what its first \<open>write\<close> returns: the whole text or an error
  ends it; after 0 it starts again. But when the first \<open>write\<close> takes some of the text and not all, then
  as long as the later ones succeed, each taking at most what is left, the loop never ends, also when
  the whole text is out; only a \<open>write\<close> that fails ends it.
\<close>

theorem write_results_short_write:
  fixes advance_err :: int
  defines "n \<equiv> length (results_message advance_err)"
  shows "write_results advance_err (int n # writes) = Some (results_message advance_err) \<and>
     (\<forall>r < 0. write_results advance_err (r # writes) = Some []) \<and>
     write_results advance_err (0 # writes) = write_results advance_err writes \<and>
     (\<forall>r. 0 < r \<and> r < int n \<and> writes_fit (n - nat r) writes \<longrightarrow>
        write_results advance_err (r # writes) = None \<and>
        (\<forall>e < 0. \<forall>rest. write_results advance_err (r # writes @ e # rest) =
           Some (take (nat (r + sum_list writes)) (results_message advance_err))))"
proof -
  let ?msg = "results_message advance_err"
  have n: "0 < n" by (simp add: n_def results_message_def)
  have "write_results advance_err (r # writes) = None"
    "e < 0 \<Longrightarrow> write_results advance_err (r # writes @ e # rest) = Some (take (nat (r + sum_list writes)) ?msg)"
    if r: "0 < r" "r < int n" "writes_fit (n - nat r) writes" for r e rest
  proof -
    have d: "length (drop (nat r) ?msg) = n - nat r" "length (drop (nat r) ?msg) < length ?msg" "r \<noteq> int (length ?msg)"
      using r by (auto simp: n_def)
    have step: "write_results advance_err (r # ws) = write_results_loop ?msg (drop (nat r) ?msg) r ws (take (nat r) ?msg)"
      for ws using r n by (simp add: write_results_def write_results_loop.simps [of ?msg ?msg] n_def)
    show "write_results advance_err (r # writes) = None"
      unfolding step using d r(3) by (intro write_results_loop_stuck) simp_all
    assume e: "e < 0"
    have "0 \<le> sum_list writes" using writes_fit_sum [OF r(3)] by simp
    then have "take (nat r) ?msg @ take (nat (sum_list writes)) (drop (nat r) ?msg) = take (nat (r + sum_list writes)) ?msg"
      using r(1) by (simp add: nat_add_distrib take_add)
    with write_results_loop_fails [OF d(3,2) _ e, of writes rest "take (nat r) ?msg"] d(1) r(3)
    show "write_results advance_err (r # writes @ e # rest) = Some (take (nat (r + sum_list writes)) ?msg)"
      unfolding step by simp
  qed
  moreover have "write_results advance_err (int n # writes) = Some ?msg" "\<forall>r < 0. write_results advance_err (r # writes) = Some []"
    "write_results advance_err (0 # writes) = write_results advance_err writes"
    using n by (simp_all add: write_results_def write_results_loop.simps [of ?msg ?msg] write_results_loop.simps [of ?msg "[]"] n_def)
  ultimately show ?thesis by blast
qed

theorem write_results_short_write_witness:
  "write_results 12 [3, 2, 0, 0] = None \<and> write_results 12 [3, 2, 0, -1] = Some (results_message 12)"
  using write_results_short_write [of 12 "[2, 0, 0]"] write_results_short_write [of 12 "[2, 0]"]
  by (auto simp: results_message_def show_int_def show_nat.simps)

end
