(* ===== verification/VT_Stub.thy ===== *)
theory VT_Stub
  imports Hash_Map
begin

text \<open>
  The virtual time stub of the worker threads (\<open>utils.c\<close>). Modelled here: the message pipes
  between the main thread and a worker, as byte strings; the table of function costs that
  \<open>init_func_times\<close> builds in the hash map; and \<open>update_stub\<close>, cut at the one place where it can
  block: \<open>update_stub_begin\<close> runs up to the \<open>pipe_read\<close> and \<open>update_stub_end\<close> goes on with
  the number read.

  The lemmas show that a message is read back exactly when it is alone in the pipe, that unread
  messages run together, that the table charges 50 microseconds for exactly the eight functions it
  names, and what a call of the stub does to the time left.
\<close>

abbreviation (input) THREAD_BLOCKED :: int where "THREAD_BLOCKED \<equiv> -1"
abbreviation (input) THREAD_EXITING :: int where "THREAD_EXITING \<equiv> -2"

subsection \<open>Pipes\<close>

text \<open>
  \<open>pipe_send\<close>: \<open>fd\<close> is the unread content of the pipe, \<open>ret\<close> what \<open>write\<close> returned. The
  number is written without a terminator or a separator.
\<close>

definition pipe_send :: "int \<Rightarrow> string \<Rightarrow> int \<Rightarrow> string outcome" where
  "pipe_send ret fd msg =
     (let msg_buf = show_int msg
      in if ret \<noteq> int (length msg_buf) then Exits 0 else Returns (fd @ msg_buf))"

text \<open>
  \<open>pipe_read\<close>: \<open>read\<close> takes what is there, up to 2000 bytes, or fails; the buffer was cleared
  before. (A full buffer has no terminator, and \<open>atoi\<close> then reads past it.)
\<close>

definition pipe_read :: "bool \<Rightarrow> string \<Rightarrow> (int \<times> string) outcome" where
  "pipe_read fails fd =
     (if fails then Exits (-1)
      else if fd = [] then Blocks
      else let buf = take BUFSIZE fd @ replicate (BUFSIZE - length fd) NUL
           in case atoi buf of
                None \<Rightarrow> Faults
              | Some n \<Rightarrow> Returns (n, drop BUFSIZE fd))"

text \<open>The write of a message that succeeds, and the read of whatever the pipe holds.\<close>

abbreviation (input) sent :: "string \<Rightarrow> int \<Rightarrow> string" where
  "sent fd msg \<equiv> fd @ show_int msg"

text \<open>What \<open>write\<close> returns when it takes a whole message; any other answer ends the process.\<close>

abbreviation (input) whole :: "int \<Rightarrow> int" where
  "whole msg \<equiv> int (length (show_int msg))"

lemma pipe_send_ok: "pipe_send (whole msg) fd msg = Returns (sent fd msg)"
  by (simp add: pipe_send_def Let_def)

lemma pipe_send_exits: "ret \<noteq> whole msg \<Longrightarrow> pipe_send ret fd msg = Exits 0"
  by (simp add: pipe_send_def Let_def)

lemma pipe_read_fails: "pipe_read True fd = Exits (-1)"
  by (simp add: pipe_read_def)

lemma pipe_read_message: "fits_int n \<Longrightarrow> pipe_read False (show_int n) = Returns (n, [])"
proof -
  assume n: "fits_int n"
  then have l: "length (show_int n) \<le> 11" by (rule show_int_length)
  then have "replicate (BUFSIZE - length (show_int n)) NUL =
      NUL # replicate (1999 - length (show_int n)) NUL"
    by (simp flip: replicate_Suc add: Suc_diff_le)
  with l atoi_show_int [OF n NUL_not_digit] show ?thesis by (simp add: pipe_read_def)
qed

text \<open>Two messages that are in the pipe together are read as one number.\<close>

lemma pipe_read_two:
  assumes "0 \<le> n" and "0 \<le> k" and "n * 10 ^ length (show_int k) + k \<le> INT_MAX"
  shows "pipe_read False (sent (sent [] n) k) = Returns (n * 10 ^ length (show_int k) + k, [])"
proof -
  let ?v = "n * 10 ^ length (show_int k) + k" and ?ds = "show_nat (nat n) @ show_nat (nat k)"
  have "n * 1 \<le> n * 10 ^ length (show_int k)" using assms(1) by (intro mult_left_mono) auto
  then have le: "n \<le> INT_MAX" "k \<le> INT_MAX" using assms by auto
  have ds: "show_int n @ show_int k = ?ds" using assms(1,2) by (simp add: show_int_def)
  have "length (show_int n) \<le> 11" "length (show_int k) \<le> 11"
    using assms(1,2) le by (auto intro!: show_int_length)
  then have len: "length ?ds \<le> 22" unfolding ds [symmetric] by simp
  have "digits_value 0 ?ds = n * 10 ^ length (show_int k) + k"
    using assms(1,2) digits_value_acc [of "int (nat n)" "show_nat (nat k)"]
    by (simp add: digits_value_show_nat show_int_def)
  moreover have "0 \<le> n * 10 ^ length (show_int k)" using assms(1) by simp
  then have "fits_int ?v" using assms(2,3) by (simp add: fits_int_def)
  ultimately have "atoi (?ds @ NUL # replicate (1999 - length ?ds) NUL) = Some ?v"
    using show_nat_digits by (intro atoi_digit_run) (auto simp: text_simps)
  moreover have "replicate (BUFSIZE - length ?ds) NUL = NUL # replicate (1999 - length ?ds) NUL"
    using len by (simp flip: replicate_Suc add: Suc_diff_le)
  ultimately show ?thesis using len by (simp add: pipe_read_def ds del: append_assoc)
qed

subsection \<open>The table of function costs\<close>

text \<open>
  The values of the table are pointers to the global \<open>RECVFROM_US\<close>, ..., which nothing
  changes; the model stores the number a pointer leads to.
\<close>

type_synonym func_times = "int hashmap \<times> int hashmap_elem mem"
type_synonym alloc = "(addr \<times> int hashmap_elem) \<times> (addr \<times> llist_elem)"

definition func_costs :: "(string \<times> int) list" where
  "func_costs =
     [(''recvfrom'', 50), (''rawSocket'', 50), (''setPromisc'', 50), (''intf_name_to_sock_idx'', 50),
      (''get_dst_sock_idx'', 50), (''send_packet'', 50), (''poll'', 50), (''flush_buffer'', 50)]"

text \<open>\<open>abs(str_hash(name))\<close>; undefined for the one hash without an absolute value.\<close>

definition func_key :: "string \<Rightarrow> int option" where
  "func_key name = c_abs (str_hash name)"

fun put_func_times :: "alloc list \<Rightarrow> (string \<times> int) list \<Rightarrow> func_times \<Rightarrow> func_times option" where
  "put_func_times (n # ns) ((name, us) # rest) (h, m) = do {
     key \<leftarrow> func_key name;
     (h, m) \<leftarrow> put_entry n h key (Some us) m;
     put_func_times ns rest (h, m)
   }"
| "put_func_times ns [] (h, m) = Some (h, m)"
| "put_func_times [] _ _ = None"

text \<open>\<open>allocs\<close> are the results of \<open>malloc\<close> during the eight insertions, \<open>m\<close> the heap before.\<close>

definition init_func_times :: "alloc list \<Rightarrow> int hashmap_elem mem \<Rightarrow> func_times option" where
  "init_func_times allocs m = put_func_times allocs func_costs (hmap_init 1000, m)"

text \<open>The value the stub finds for a function: the inner \<open>None\<close> is NULL.\<close>

definition func_time :: "func_times \<Rightarrow> string \<Rightarrow> int option option" where
  "func_time tbl last_fn = do {
     key \<leftarrow> func_key last_fn;
     hmap_get_abs (Some (fst tbl)) key (snd tbl)
   }"

subsection \<open>The stub\<close>

text \<open>
  Where a call of \<open>update_stub\<close> gets to before it can block: it returns (value, time left), or
  it waits in \<open>pipe_read\<close> with the time left and the pipe to the main thread as it is then.
  \<open>fall\<close> is the value of a call that runs off the end of the function body: the code has no
  \<open>return\<close> when time is left.
\<close>

datatype stub_result = Stub_Done int int | Stub_Waits int string

definition update_stub_begin ::
  "func_times \<Rightarrow> int \<Rightarrow> int \<Rightarrow> int \<Rightarrow> string \<Rightarrow> string option \<Rightarrow> stub_result outcome" where
  "update_stub_begin tbl fall ret curr_round_time_left thread_to_main last_fn =
     (case last_fn of
        None \<Rightarrow> Returns (Stub_Waits 0 thread_to_main)
      | Some fn \<Rightarrow>
          (case func_time tbl fn of
             None \<Rightarrow> Faults
           | Some None \<Rightarrow> Returns (Stub_Done SUCCESS curr_round_time_left)
           | Some (Some time_elapsed) \<Rightarrow>
               (let left = curr_round_time_left - time_elapsed
                in if left \<le> 0
                   then (case pipe_send ret thread_to_main (-1 * left) of
                           Returns fd \<Rightarrow> Returns (Stub_Waits left fd)
                         | Exits code \<Rightarrow> Exits code
                         | Blocks \<Rightarrow> Blocks
                         | Faults \<Rightarrow> Faults)
                   else Returns (Stub_Done fall left))))"

text \<open>
  After the \<open>pipe_read\<close>: (value returned, time left). The first command may be 0, later ones
  may not.
\<close>

definition update_stub_end :: "string option \<Rightarrow> int \<Rightarrow> int \<times> int" where
  "update_stub_end last_fn curr_round_time_left =
     (case last_fn of
        None \<Rightarrow> (if curr_round_time_left < 0 then THREAD_EXITING else SUCCESS, curr_round_time_left)
      | Some _ \<Rightarrow> (if curr_round_time_left \<le> 0 then THREAD_EXITING else SUCCESS, curr_round_time_left))"

text \<open>\<open>update_stub_blocking\<close>, cut at its \<open>pipe_read\<close> in the same way.\<close>

definition update_stub_blocking_begin :: "int \<Rightarrow> int \<Rightarrow> string \<Rightarrow> stub_result outcome" where
  "update_stub_blocking_begin ret curr_round_time_left thread_to_main =
     (case pipe_send ret thread_to_main THREAD_BLOCKED of
        Returns fd \<Rightarrow> Returns (Stub_Waits curr_round_time_left fd)
      | Exits code \<Rightarrow> Exits code
      | Blocks \<Rightarrow> Blocks
      | Faults \<Rightarrow> Faults)"

definition update_stub_blocking_end :: "int \<Rightarrow> int \<times> int" where
  "update_stub_blocking_end curr_round_time_left =
     (if curr_round_time_left < 0 then THREAD_EXITING else SUCCESS, curr_round_time_left)"

subsection \<open>What the table holds\<close>

definition func_keys :: "int list" where
  "func_keys = map (\<lambda>c. \<bar>sint (str_hash (fst c))\<bar>) func_costs"

lemma str_hash_names:
  "sint (str_hash ''recvfrom'') = 903716788" "sint (str_hash ''rawSocket'') = -391086606"
  "sint (str_hash ''setPromisc'') = 1913337633" "sint (str_hash ''intf_name_to_sock_idx'') = 410930853"
  "sint (str_hash ''get_dst_sock_idx'') = 1474094221" "sint (str_hash ''send_packet'') = 862327557"
  "sint (str_hash ''poll'') = -1367072374" "sint (str_hash ''flush_buffer'') = 1889486682"
  by code_simp+

lemma str_hash_others:
  "sint (str_hash ''sendto'') = 1261650563" "sint (str_hash ''send_to'') = 27004466"
  "sint (str_hash ''computation'') = -299751899" "sint (str_hash ''fill_buffer'') = 329644117"
  by code_simp+

lemma func_key_names:
  "map (func_key o fst) func_costs = map Some [903716788, 391086606, 1913337633, 410930853,
     1474094221, 862327557, 1367072374, 1889486682]"
  by (simp add: func_costs_def func_key_def c_abs_def str_hash_names)

lemma func_key_nonneg: "func_key name = Some k \<Longrightarrow> 0 \<le> k"
  by (auto simp: func_key_def c_abs_def split: if_splits)

definition cost_entries :: "(string \<times> int) list \<Rightarrow> (int \<times> int option) list" where
  "cost_entries costs = map (\<lambda>(name, us). (the (func_key name), Some us)) costs"

lemma put_func_times_all:
  "length ns = length costs \<Longrightarrow> \<forall>c \<in> set costs. func_key (fst c) \<noteq> None \<Longrightarrow>
   put_func_times ns costs (h, m) = put_all put_entry (zip ns (cost_entries costs)) h m"
proof (induction ns costs arbitrary: h m rule: list_induct2)
  case (Cons n ns c cs)
  then show ?case by (auto simp: cost_entries_def split: prod.splits)
qed (simp add: cost_entries_def)

text \<open>What a list of costs says of a key, the last entry counting; and the \<open>malloc\<close> results it needs.\<close>

definition cost_map :: "(string \<times> int) list \<Rightarrow> int \<Rightarrow> int option" where
  "cost_map costs = map_of (rev (map (\<lambda>(name, us). (the (func_key name), us)) costs))"

definition allocs_for :: "(string \<times> int) list \<Rightarrow> alloc list \<Rightarrow> int hashmap_elem mem \<Rightarrow> bool" where
  "allocs_for costs allocs m \<longleftrightarrow>
     length allocs = length costs \<and> (\<forall>n \<in> set allocs. entry_avail n m) \<and> sorted_wrt entry_apart allocs"

lemma map_of_map_value: "map_of (map (\<lambda>(k, v). (k, f v)) xs) = map_option f o map_of xs"
  by (induction xs) auto

lemma cost_puts_ok:
  assumes al: "allocs_for costs allocs m" and k: "\<forall>c \<in> set costs. func_key (fst c) \<noteq> None"
  shows "\<forall>(n, k, v) \<in> set (zip allocs (cost_entries costs)). 0 \<le> k \<and> entry_avail n m"
    and "sorted_wrt entry_apart (map fst (zip allocs (cost_entries costs)))"
proof -
  have "0 \<le> j" if "(j, v) \<in> set (cost_entries costs)" for j v
    using that k func_key_nonneg by (fastforce simp: cost_entries_def)
  with al show "\<forall>(n, k, v) \<in> set (zip allocs (cost_entries costs)). 0 \<le> k \<and> entry_avail n m"
    by (auto simp: allocs_for_def dest: set_zip_leftD set_zip_rightD)
  show "sorted_wrt entry_apart (map fst (zip allocs (cost_entries costs)))"
    using al by (simp add: allocs_for_def cost_entries_def)
qed

lemma put_func_times_ok:
  assumes al: "allocs_for costs allocs m" and k: "\<forall>c \<in> set costs. func_key (fst c) \<noteq> None"
  shows "\<exists>tbl. put_func_times allocs costs (hmap_init 1000, m) = Some tbl \<and> (\<forall>name. func_time tbl name =
     map_option (cost_map costs) (func_key name))"
proof -
  have len: "length allocs = length costs" using al by (simp add: allocs_for_def)
  let ?xs = "zip allocs (cost_entries costs)"
  have snd: "map snd ?xs = cost_entries costs" using len by (simp add: cost_entries_def)
  have z: "(0::int) \<le> 1000" by simp
  from cost_puts_ok [OF al k] obtain h' m' where r: "put_all put_entry ?xs (hmap_init 1000) m = Some (h', m')"
    "hmap_inv h' m'" "hmap_map h' m' = hmap_map (hmap_init 1000) m ++ map_of (rev (map snd ?xs))"
    using hm.put_all_abs [OF hmap_init_inv(1) [OF z]] by metis
  have "map_of (rev (cost_entries costs)) =
      map_of (map (\<lambda>(k, v). (k, Some v)) (rev (map (\<lambda>(name, us). (the (func_key name), us)) costs)))"
    by (simp add: cost_entries_def rev_map) (rule arg_cong [where f = map_of], auto)
  then have "map_of (rev (cost_entries costs)) = map_option Some o cost_map costs"
    by (simp only: map_of_map_value cost_map_def)
  then have "hmap_map h' m' = map_option Some o cost_map costs"
    unfolding r(3) snd hmap_init_inv(2) [OF z] by simp
  then have "hmap_get_abs (Some h') k m' = Some (cost_map costs k)" if "0 \<le> k" for k
    using hmap_get_map [OF r(2) that] by (cases "cost_map costs k") simp_all
  then have "func_time (h', m') name = map_option (cost_map costs) (func_key name)" for name
    using func_key_nonneg [of name] by (cases "func_key name") (auto simp: func_time_def)
  moreover have "put_func_times allocs costs (hmap_init 1000, m) = Some (h', m')"
    unfolding put_func_times_all [OF len k] by (rule r(1))
  ultimately show ?thesis by blast
qed

text \<open>The table keeps the size it was created with.\<close>

lemma put_entry_size: "put_entry n h key v m = Some (h', m') \<Longrightarrow> h_size h' = h_size h"
  by (auto simp: put_entry_def hmap_put_abs_def Let_def split: bind_splits option.splits prod.splits)

lemma put_func_times_size: "put_func_times ns costs t = Some tbl \<Longrightarrow> h_size (fst tbl) = h_size (fst t)"
  by (induction ns costs t rule: put_func_times.induct) (auto dest: put_entry_size split: bind_splits prod.splits)

text \<open>In a memory of its own the table is all there is.\<close>

lemma put_func_times_tight:
  assumes al: "allocs_for costs allocs no_mem" and k: "\<forall>c \<in> set costs. func_key (fst c) \<noteq> None"
    and tbl: "put_func_times allocs costs (hmap_init 1000, no_mem) = Some tbl"
  shows "hmap_inv (fst tbl) (snd tbl) \<and> hmap_tight (fst tbl) (snd tbl)"
proof -
  have len: "length allocs = length costs" using al by (simp add: allocs_for_def)
  let ?xs = "zip allocs (cost_entries costs)"
  have "hmap_inv (hmap_init 1000 :: int hashmap) no_mem \<and> hmap_tight (hmap_init 1000 :: int hashmap) no_mem"
    using hmap_init_tight by (simp add: hmap_init_inv(1))
  with cost_puts_ok [OF al k] obtain h' m' where "put_all put_entry ?xs (hmap_init 1000) no_mem = Some (h', m')"
    "hmap_inv h' m' \<and> hmap_tight h' m'" using ht.put_all_abs by blast
  with tbl show ?thesis unfolding put_func_times_all [OF len k] by auto
qed

definition table_keys :: "int set" where
  "table_keys = {903716788, 391086606, 1913337633, 410930853, 1474094221, 862327557, 1367072374, 1889486682}"

lemma cost_map_routers: "cost_map func_costs = (\<lambda>k. if k \<in> table_keys then Some 50 else None)"
proof -
  have "map (\<lambda>(name, us). (the (func_key name), us)) func_costs =
      map (\<lambda>k. (k, 50)) [903716788, 391086606, 1913337633, 410930853, 1474094221, 862327557, 1367072374, 1889486682]"
    using func_key_names by (simp add: func_costs_def)
  then show ?thesis by (auto simp: cost_map_def table_keys_def fun_eq_iff)
qed

definition allocs_ok :: "alloc list \<Rightarrow> int hashmap_elem mem \<Rightarrow> bool" where
  "allocs_ok allocs m \<longleftrightarrow>
     length allocs = 8 \<and> (\<forall>n \<in> set allocs. entry_avail n m) \<and> sorted_wrt entry_apart allocs"

lemma init_func_times_ok:
  assumes "allocs_ok allocs m"
  shows "\<exists>tbl. init_func_times allocs m = Some tbl \<and> (\<forall>name. func_time tbl name =
     (case func_key name of None \<Rightarrow> None | Some k \<Rightarrow> Some (if k \<in> table_keys then Some 50 else None)))"
proof -
  have "allocs_for func_costs allocs m" using assms by (simp add: allocs_ok_def allocs_for_def func_costs_def)
  moreover have "\<forall>c \<in> set func_costs. func_key (fst c) \<noteq> None"
    using func_key_names by (auto simp: map_eq_conv func_costs_def)
  ultimately obtain tbl where "init_func_times allocs m = Some tbl"
    "\<And>name. func_time tbl name = map_option (cost_map func_costs) (func_key name)"
    unfolding init_func_times_def using put_func_times_ok by metis
  then show ?thesis unfolding cost_map_routers by (auto split: option.splits)
qed

text \<open>A table as \<open>init_func_times\<close> leaves it: what the clients of the stub need to know of it.\<close>

definition table_ok :: "func_times \<Rightarrow> bool" where
  "table_ok tbl \<longleftrightarrow> (\<forall>name. func_time tbl name =
     (case func_key name of None \<Rightarrow> None | Some k \<Rightarrow> Some (if k \<in> table_keys then Some 50 else None)))"

lemma func_time_named:
  assumes "table_ok tbl" and "name \<in> set (map fst func_costs)"
  shows "func_time tbl name = Some (Some 50)"
  using assms by (auto simp: table_ok_def func_costs_def func_key_def c_abs_def str_hash_names table_keys_def)

lemma func_time_cases:
  assumes "table_ok tbl" and "func_time tbl name = Some c"
  shows "c = None \<or> c = Some 50"
  using assms by (auto simp: table_ok_def split: option.splits if_splits)

subsection \<open>Properties\<close>

definition demo_allocs :: "alloc list" where
  "demo_allocs = map (\<lambda>i. ((i, \<lparr>elem_key = None, key_val = 0, elem_value = None, equals_fn = None\<rparr>), (i, raw_cell)))
     [1, 2, 3, 4, 5, 6, 7, 8]"

lemma demo_allocs_ok: "allocs_ok demo_allocs no_mem"
  by (simp add: allocs_ok_def demo_allocs_def entry_avail_def entry_apart_def no_mem_def)

text \<open>
  C19: A number that \<open>pipe_send\<close> writes into an empty pipe is what \<open>pipe_read\<close> returns, whatever it is,
  and the pipe is empty again; two numbers sent before the reader comes are read as one, the decimal
  digits of both, and the second is lost; a \<open>write\<close> that does not take the whole number and a \<open>read\<close>
  that fails end the process.
\<close>

theorem pipe_messages:
  assumes "0 \<le> n" and "0 \<le> k" and "n * 10 ^ length (show_int k) + k \<le> INT_MAX" and "fits_int i"
  shows "(\<exists>fd. pipe_send (whole i) [] i = Returns fd \<and> pipe_read False fd = Returns (i, [])) \<and>
     (\<exists>fd1 fd2. pipe_send (whole n) [] n = Returns fd1 \<and> pipe_send (whole k) fd1 k = Returns fd2 \<and>
        pipe_read False fd2 = Returns (n * 10 ^ length (show_int k) + k, [])) \<and>
     (\<forall>ret fd. ret \<noteq> whole i \<longrightarrow> pipe_send ret fd i = Exits 0) \<and> (\<forall>fd. pipe_read True fd = Exits (-1))"
proof -
  have "pipe_read False (sent [] i) = Returns (i, [])" using pipe_read_message [OF assms(4)] by simp
  with pipe_read_two [OF assms(1-3)] show ?thesis
    by (simp add: pipe_send_ok pipe_send_exits pipe_read_fails)
qed

theorem pipe_messages_witness:
  "(\<exists>fd. pipe_send 2 [] (-1) = Returns fd \<and> pipe_read False fd = Returns (-1, [])) \<and>
   (\<exists>fd1 fd2. pipe_send 1 [] 5 = Returns fd1 \<and> pipe_send 2 fd1 70 = Returns fd2 \<and>
      pipe_read False fd2 = Returns (570, [])) \<and> pipe_send 1 [] (-1) = Exits 0"
  using pipe_messages [of 5 70 "-1"] by (simp add: show_int_def show_nat.simps fits_int_def)

text \<open>
  With working allocations \<open>init_func_times\<close> builds its table, and the table gives 50
  microseconds to each of the eight names it lists and NULL to every name whose key is none of
  theirs, such as \<open>sendto\<close>.
\<close>

lemma init_func_times_spec:
  assumes "allocs_ok allocs m"
  shows "\<exists>tbl. init_func_times allocs m = Some tbl \<and>
     (\<forall>name \<in> set (map fst func_costs). func_time tbl name = Some (Some 50)) \<and>
     (\<forall>name k. func_key name = Some k \<and> Some k \<notin> set (map (func_key o fst) func_costs) \<longrightarrow>
        func_time tbl name = Some None) \<and>
     func_time tbl ''sendto'' = Some None"
proof -
  from init_func_times_ok [OF assms] obtain tbl where
    t: "init_func_times allocs m = Some tbl" "table_ok tbl" unfolding table_ok_def by blast
  have "func_time tbl name = Some None"
    if "func_key name = Some k" "Some k \<notin> set (map (func_key o fst) func_costs)" for name k
    using t(2) that unfolding func_key_names by (auto simp: table_ok_def table_keys_def)
  moreover have "func_time tbl ''sendto'' = Some None"
    using t(2) by (simp add: table_ok_def func_key_def c_abs_def str_hash_others table_keys_def)
  ultimately show ?thesis using t func_time_named [OF t(2)] by blast
qed

text \<open>
  C18: A call of the stub for a function of the table, made with time left in the round, takes 50
  microseconds off it. When time remains it does not touch the pipes (and the caller gets an
  arbitrary value, the code has no return there); otherwise it reports the overrun, between 0 and
  49, so that the report is never mistaken for THREAD_BLOCKED, and waits.
\<close>

theorem update_stub_begin_spec:
  assumes "allocs_ok allocs m" and "init_func_times allocs m = Some tbl"
    and "name \<in> set (map fst func_costs)" and "0 < left"
  shows "update_stub_begin tbl fall (int (length (show_int (50 - left)))) left fd (Some name) =
       Returns (if 50 < left then Stub_Done fall (left - 50) else Stub_Waits (left - 50) (sent fd (50 - left))) \<and>
     (left \<le> 50 \<longrightarrow> 0 \<le> 50 - left \<and> 50 - left < 50)"
proof -
  have "table_ok tbl" using init_func_times_ok [OF assms(1)] assms(2) by (auto simp: table_ok_def)
  from func_time_named [OF this assms(3)] assms(4) show ?thesis
    by (simp add: update_stub_begin_def pipe_send_def Let_def)
qed

theorem update_stub_begin_spec_witness:
  "\<exists>tbl. init_func_times demo_allocs no_mem = Some tbl \<and>
     update_stub_begin tbl 7 2 30 [] (Some ''poll'') = Returns (Stub_Waits (-20) (show_int 20)) \<and>
     update_stub_begin tbl 7 3 130 [] (Some ''poll'') = Returns (Stub_Done 7 80)"
proof -
  obtain tbl where t: "init_func_times demo_allocs no_mem = Some tbl"
    using init_func_times_ok [OF demo_allocs_ok] by blast
  show ?thesis using t update_stub_begin_spec [OF demo_allocs_ok t, of "''poll''" 30 7 "[]"]
      update_stub_begin_spec [OF demo_allocs_ok t, of "''poll''" 130 7 "[]"]
    by (simp add: func_costs_def show_int_def show_nat.simps)
qed

end
