(* ===== verification/Round_Protocol.thy ===== *)
theory Round_Protocol
  imports TK_Command VT_Stub
begin

text \<open>
  The rounds of an experiment: the loop of \<open>main\<close> in \<open>router_app_vt.c\<close> and what it shares with
  the worker thread (\<open>thread_args\<close>: two pipes, \<open>is_blocked\<close>, \<open>stop\<close>). \<open>main_step\<close> is one
  action of the main thread, with the results of its pipe calls as arguments (one that fails ends the
  process); \<open>worker_step\<close> is the contract of a worker, over abstract phases;
  \<open>sys_step\<close> interleaves the two threads action by action, in every order.

  The locale \<open>vt_worker\<close> is the interface between them: a worker whose steps refine
  \<open>worker_step\<close>. Inside it the protocol invariant is carried over to the concrete worker: one
  message in flight at most, the blocked flag right when the main thread reads it, and the virtual
  time the main thread counts equal to what the worker was charged, gave up or slept.

  Counters in \<open>sys\<close> that no C variable holds (\<open>charged\<close>, \<open>forfeited\<close>, \<open>waited\<close>) only
  record the history; no step depends on them.
\<close>

subsection \<open>The shared state\<close>

record shared =
  m2t :: string
  t2m :: string
  is_blocked :: bool
  stop :: bool

subsection \<open>The main thread\<close>

text \<open>
  The points between the shared accesses of the loop: before asking for the next command, before
  testing \<open>is_blocked\<close>, before \<open>pipe_send\<close>, in \<open>pipe_read\<close>; then the stop message and the join. At
  \<open>M_Exit\<close> a pipe call of the main thread has failed and ended the process with that code.
  \<open>m_elapsed\<close> is the C \<open>int\<close> \<open>time_elapsed\<close>, which wraps around.
\<close>

datatype main_pc = M_Ack | M_Check int | M_Send int | M_Read int | M_SendStop | M_Join | M_Done | M_Exit int

record main_state =
  m_pc :: main_pc
  m_ret :: int
  m_elapsed :: "32 word"

definition main_init :: main_state where
  "main_init = \<lparr>m_pc = M_Ack, m_ret = 0, m_elapsed = 0\<rparr>"

definition shared_init :: shared where
  "shared_init = \<lparr>m2t = [], t2m = [], is_blocked = False, stop = False\<rparr>"

text \<open>
  The answers the main thread gets: what \<open>ack_and_get_next_command\<close> returns, what \<open>write\<close> returns in
  \<open>pipe_send\<close> when it is given so many bytes, whether \<open>read\<close> fails in \<open>pipe_read\<close>.
\<close>

record main_env =
  a_command :: int
  a_write :: "nat \<Rightarrow> int"
  a_read_fails :: bool

text \<open>What the loop does with the number the worker sent.\<close>

definition main_reply :: "int \<Rightarrow> int \<Rightarrow> main_state \<Rightarrow> main_state" where
  "main_reply per_round_advance ret m =
     (if ret = THREAD_BLOCKED
      then m\<lparr>m_pc := M_Ack, m_elapsed := m_elapsed m + word_of_int per_round_advance, m_ret := 0\<rparr>
      else if ret \<ge> 0
      then m\<lparr>m_pc := M_Ack, m_elapsed := m_elapsed m + word_of_int ret + word_of_int per_round_advance,
             m_ret := ret\<rparr>
      else m\<lparr>m_pc := M_Ack, m_ret := 0\<rparr>)"

text \<open>
  One action; \<open>joined\<close> says whether the worker has ended. \<open>None\<close> when the thread cannot go on: it
  waits for data or for the join, or the process has ended.
\<close>

definition main_step :: "main_env \<Rightarrow> bool \<Rightarrow> shared \<Rightarrow> main_state \<Rightarrow> (shared \<times> main_state) option" where
  "main_step e joined s m =
     (case m_pc m of
        M_Ack \<Rightarrow>
          (let per_round_advance = a_command e
           in if per_round_advance = -1 then Some (s\<lparr>stop := True\<rparr>, m\<lparr>m_pc := M_SendStop\<rparr>)
              else Some (s, m\<lparr>m_pc := M_Check per_round_advance\<rparr>))
      | M_Check a \<Rightarrow>
          if \<not> is_blocked s then Some (s, m\<lparr>m_pc := M_Send a\<rparr>)
          else Some (s, m\<lparr>m_pc := M_Ack, m_elapsed := m_elapsed m + word_of_int a, m_ret := 0\<rparr>)
      | M_Send a \<Rightarrow>
          (case pipe_send (a_write e (length (show_int a))) (m2t s) a of
             Returns fd \<Rightarrow> Some (s\<lparr>m2t := fd\<rparr>, m\<lparr>m_pc := M_Read a\<rparr>)
           | Exits code \<Rightarrow> Some (s, m\<lparr>m_pc := M_Exit code\<rparr>)
           | _ \<Rightarrow> None)
      | M_Read a \<Rightarrow>
          (case pipe_read (a_read_fails e) (t2m s) of
             Returns (ret, rest) \<Rightarrow> Some (s\<lparr>t2m := rest\<rparr>, main_reply a ret m)
           | Exits code \<Rightarrow> Some (s, m\<lparr>m_pc := M_Exit code\<rparr>)
           | _ \<Rightarrow> None)
      | M_SendStop \<Rightarrow>
          (case pipe_send (a_write e (length (show_int THREAD_EXITING))) (m2t s) THREAD_EXITING of
             Returns fd \<Rightarrow> Some (s\<lparr>m2t := fd\<rparr>, m\<lparr>m_pc := M_Join\<rparr>)
           | Exits code \<Rightarrow> Some (s, m\<lparr>m_pc := M_Exit code\<rparr>)
           | _ \<Rightarrow> None)
      | M_Join \<Rightarrow> if joined then Some (s, m\<lparr>m_pc := M_Done\<rparr>) else None
      | M_Done \<Rightarrow> None
      | M_Exit code \<Rightarrow> None)"

text \<open>The loop has been left for good; then no thread of the process moves any more.\<close>

definition main_over :: "main_state \<Rightarrow> bool" where
  "main_over m \<longleftrightarrow> (case m_pc m of M_Done \<Rightarrow> True | M_Exit code \<Rightarrow> True | _ \<Rightarrow> False)"

text \<open>Answers with which nothing fails; with others an action is the same or ends the process.\<close>

definition calls_ok :: "int \<Rightarrow> main_env" where
  "calls_ok adv = \<lparr>a_command = adv, a_write = int, a_read_fails = False\<rparr>"

lemma main_step_ok: "main_step (calls_ok adv) joined s m =
   (case m_pc m of
      M_Ack \<Rightarrow>
        if adv = -1 then Some (s\<lparr>stop := True\<rparr>, m\<lparr>m_pc := M_SendStop\<rparr>)
        else Some (s, m\<lparr>m_pc := M_Check adv\<rparr>)
    | M_Check a \<Rightarrow>
        if \<not> is_blocked s then Some (s, m\<lparr>m_pc := M_Send a\<rparr>)
        else Some (s, m\<lparr>m_pc := M_Ack, m_elapsed := m_elapsed m + word_of_int a, m_ret := 0\<rparr>)
    | M_Send a \<Rightarrow> Some (s\<lparr>m2t := sent (m2t s) a\<rparr>, m\<lparr>m_pc := M_Read a\<rparr>)
    | M_Read a \<Rightarrow>
        (case pipe_read False (t2m s) of
           Returns (ret, rest) \<Rightarrow> Some (s\<lparr>t2m := rest\<rparr>, main_reply a ret m)
         | _ \<Rightarrow> None)
    | M_SendStop \<Rightarrow> Some (s\<lparr>m2t := sent (m2t s) THREAD_EXITING\<rparr>, m\<lparr>m_pc := M_Join\<rparr>)
    | M_Join \<Rightarrow> if joined then Some (s, m\<lparr>m_pc := M_Done\<rparr>) else None
    | _ \<Rightarrow> None)"
  by (auto simp: main_step_def calls_ok_def pipe_send_ok pipe_read_def Let_def
      split: main_pc.split outcome.split option.split)

lemma main_step_cases:
  assumes "main_step e joined s m = Some (s', m')"
  obtains (ok) "main_step (calls_ok (a_command e)) joined s m = Some (s', m')"
  | (exit) code where "s' = s" "m' = m\<lparr>m_pc := M_Exit code\<rparr>"
      "m_pc m = M_SendStop \<or> (\<exists>a. m_pc m = M_Send a \<or> m_pc m = M_Read a)"
proof (cases "main_step (calls_ok (a_command e)) joined s m = Some (s', m')")
  case False
  with assms have "\<exists>code. s' = s \<and> m' = m\<lparr>m_pc := M_Exit code\<rparr> \<and>
      (m_pc m = M_SendStop \<or> (\<exists>a. m_pc m = M_Send a \<or> m_pc m = M_Read a))"
    unfolding main_step_ok
    by (cases "m_pc m"; cases "a_read_fails e")
      (auto simp: main_step_def pipe_send_def pipe_read_fails Let_def split: if_splits outcome.splits)
  with exit show ?thesis by blast
qed (rule ok)

subsection \<open>The contract of a worker\<close>

text \<open>
  The phases: waiting in \<open>pipe_read\<close> (or starting up), running with some time left, having set
  \<open>is_blocked\<close>, parked in the blocking \<open>poll\<close> after sending THREAD_BLOCKED, and ended. The label
  of a step says what happens to the time: nothing, a charge, or giving up the rest of the
  round; \<open>Fault\<close> is an end that no message asked for.
\<close>

datatype phase = W_Await | W_Run int | W_Parking | W_Parked | W_Exited

datatype wevent = Silent | Charge int | Forfeit int | Fault

inductive worker_step :: "shared \<Rightarrow> phase \<Rightarrow> wevent \<Rightarrow> shared \<Rightarrow> phase \<Rightarrow> bool" where
  w_internal: "p \<noteq> W_Exited \<Longrightarrow> worker_step s p Silent s p"
| w_charge: "worker_step s (W_Run t) (Charge c) s (W_Run (t - c))"
| w_report: "t \<le> c \<Longrightarrow> c - t \<le> INT_MAX \<Longrightarrow>
    worker_step s (W_Run t) (Charge c) (s\<lparr>t2m := sent (t2m s) (c - t)\<rparr>) W_Await"
| w_block: "worker_step s (W_Run t) (Forfeit t) (s\<lparr>is_blocked := True\<rparr>) W_Parking"
| w_park: "worker_step s W_Parking Silent (s\<lparr>t2m := sent (t2m s) THREAD_BLOCKED\<rparr>) W_Parked"
| w_unpark: "worker_step s W_Parked Silent (s\<lparr>is_blocked := False\<rparr>) W_Await"
| w_go: "pipe_read False (m2t s) = Returns (v, rest) \<Longrightarrow> 0 \<le> v \<Longrightarrow>
    worker_step s W_Await Silent (s\<lparr>m2t := rest\<rparr>) (W_Run v)"
| w_quit: "pipe_read False (m2t s) = Returns (v, rest) \<Longrightarrow> v \<le> 0 \<or> stop s \<Longrightarrow>
    worker_step s W_Await Silent (s\<lparr>m2t := rest\<rparr>) W_Exited"
| w_stop: "stop s \<Longrightarrow> worker_step s (W_Run t) Silent s W_Exited"
| w_fault: "p \<noteq> W_Exited \<Longrightarrow> worker_step s p Fault s W_Exited"

inductive_cases worker_stepE: "worker_step s p e s' p'"

subsection \<open>The two threads together\<close>

record 'w sys =
  sh :: shared
  mn :: main_state
  wk :: 'w
  charged :: int
  forfeited :: int
  waited :: int

text \<open>
  The values \<open>ack_and_get_next_command\<close> can return: stop, or an advance below one second. The
  step relation has the set it draws from as a parameter; the answers to the pipe calls are arbitrary.
  Once the process has ended the worker does not move either. (When a pipe call of the worker fails the
  process ends as well: the worker then has no step, and what the main thread still does in the model
  it can also do while the worker is not scheduled.)
\<close>

definition valid_advances :: "int set" where
  "valid_advances = {-1..<1000000}"

definition count :: "wevent \<Rightarrow> 'w sys \<Rightarrow> 'w sys" where
  "count e y =
     (case e of
        Charge c \<Rightarrow> y\<lparr>charged := charged y + c\<rparr>
      | Forfeit t \<Rightarrow> y\<lparr>forfeited := forfeited y + t\<rparr>
      | _ \<Rightarrow> y)"

text \<open>The time the main thread counts for a round it sleeps through.\<close>

definition slept :: "'w sys \<Rightarrow> int" where
  "slept y = (case m_pc (mn y) of M_Check a \<Rightarrow> if is_blocked (sh y) then a else 0 | _ \<Rightarrow> 0)"

inductive sys_step ::
  "int set \<Rightarrow> (shared \<Rightarrow> 'w \<Rightarrow> wevent \<Rightarrow> shared \<Rightarrow> 'w \<Rightarrow> bool) \<Rightarrow> ('w \<Rightarrow> bool) \<Rightarrow> 'w sys \<Rightarrow> 'w sys \<Rightarrow> bool"
  for advs :: "int set" and ws :: "shared \<Rightarrow> 'w \<Rightarrow> wevent \<Rightarrow> shared \<Rightarrow> 'w \<Rightarrow> bool" and ended :: "'w \<Rightarrow> bool" where
  main_moves: "a_command e \<in> advs \<Longrightarrow> main_step e (ended (wk y)) (sh y) (mn y) = Some (s', m') \<Longrightarrow>
    sys_step advs ws ended y (y\<lparr>sh := s', mn := m', waited := waited y + slept y\<rparr>)"
| worker_moves: "\<not> main_over (mn y) \<Longrightarrow> ws (sh y) (wk y) e s' w' \<Longrightarrow>
    sys_step advs ws ended y (count e (y\<lparr>sh := s', wk := w'\<rparr>))"

inductive_cases sys_stepE: "sys_step advs ws ended y y'"

definition sys_init :: "'w \<Rightarrow> 'w sys" where
  "sys_init w = \<lparr>sh = shared_init, mn = main_init, wk = w, charged = 0, forfeited = 0, waited = 0\<rparr>"

inductive reachable ::
  "int set \<Rightarrow> (shared \<Rightarrow> 'w \<Rightarrow> wevent \<Rightarrow> shared \<Rightarrow> 'w \<Rightarrow> bool) \<Rightarrow> ('w \<Rightarrow> bool) \<Rightarrow> 'w \<Rightarrow> 'w sys \<Rightarrow> bool"
  for advs :: "int set" and ws :: "shared \<Rightarrow> 'w \<Rightarrow> wevent \<Rightarrow> shared \<Rightarrow> 'w \<Rightarrow> bool" and ended :: "'w \<Rightarrow> bool" and w0 :: 'w where
  start: "reachable advs ws ended w0 (sys_init w0)"
| more: "reachable advs ws ended w0 y \<Longrightarrow> sys_step advs ws ended y y' \<Longrightarrow> reachable advs ws ended w0 y'"

text \<open>An invariant of the worker alone.\<close>

lemma reachable_worker:
  assumes "reachable advs ws ended w0 y" and "P w0" and "\<And>s w e s' w'. P w \<Longrightarrow> ws s w e s' w' \<Longrightarrow> P w'"
  shows "P (wk y)"
  using assms(1)
proof (induction rule: reachable.induct)
  case start
  with assms(2) show ?case by (simp add: sys_init_def)
next
  case (more y y')
  from more(2) show ?case
    by (rule sys_stepE) (use more.IH assms(3) in \<open>auto simp: count_def split: wevent.split\<close>)
qed

subsection \<open>The protocol invariant\<close>

text \<open>A pipe that holds nothing or exactly one number.\<close>

definition holds_one :: "string \<Rightarrow> bool" where
  "holds_one fd \<longleftrightarrow> fd = [] \<or> (\<exists>v. fits_int v \<and> fd = show_int v)"

lemma holds_oneI: "holds_one []" "-2147483648 \<le> v \<Longrightarrow> v \<le> INT_MAX \<Longrightarrow> holds_one (show_int v)"
  by (auto simp: holds_one_def fits_int_def)

definition quiet :: "shared \<Rightarrow> bool" where
  "quiet s \<longleftrightarrow> m2t s = [] \<and> t2m s = []"

text \<open>The history counters as the C \<open>int\<close> that the main thread keeps.\<close>

definition time_total :: "'w sys \<Rightarrow> 32 word" where
  "time_total y = word_of_int (charged y + forfeited y + waited y)"

definition flag_ok :: "shared \<Rightarrow> phase \<Rightarrow> bool" where
  "flag_ok s p \<longleftrightarrow> p = W_Exited \<or> (is_blocked s \<longleftrightarrow> p = W_Parking \<or> p = W_Parked)"

text \<open>Where the one message of a round is while the main thread waits for the reply.\<close>

definition round_ok :: "shared \<Rightarrow> phase \<Rightarrow> int \<Rightarrow> 32 word \<Rightarrow> 32 word \<Rightarrow> bool" where
  "round_ok s p a el tot \<longleftrightarrow>
     m2t s = show_int a \<and> t2m s = [] \<and> (p = W_Await \<and> tot = el \<or> p = W_Exited) \<or>
     quiet s \<and> (case p of
         W_Run t \<Rightarrow> tot = el + word_of_int a - word_of_int t
       | W_Parking \<Rightarrow> tot = el + word_of_int a
       | W_Exited \<Rightarrow> True
       | _ \<Rightarrow> False) \<or>
     m2t s = [] \<and> t2m s = show_int THREAD_BLOCKED \<and> p \<in> {W_Parked, W_Await, W_Exited} \<and>
       tot = el + word_of_int a \<or>
     m2t s = [] \<and> (\<exists>v. 0 \<le> v \<and> v \<le> INT_MAX \<and> t2m s = show_int v \<and> tot = el + word_of_int a + word_of_int v) \<and>
       p \<in> {W_Await, W_Exited}"

text \<open>What is left when the process ends in the middle of a round.\<close>

definition stopped_ok :: "shared \<Rightarrow> phase \<Rightarrow> bool" where
  "stopped_ok s p \<longleftrightarrow> holds_one (m2t s) \<and> holds_one (t2m s) \<and> (m2t s = [] \<or> t2m s = []) \<and>
     (stop s \<longrightarrow> quiet s \<and> p \<in> {W_Await, W_Parked, W_Exited})"

definition proto_inv :: "phase sys \<Rightarrow> bool" where
  "proto_inv y \<longleftrightarrow>
     (let s = sh y; p = wk y; el = m_elapsed (mn y); tot = time_total y
      in flag_ok s p \<and>
         (case m_pc (mn y) of
            M_Ack \<Rightarrow> \<not> stop s \<and> quiet s \<and> p \<in> {W_Await, W_Parked, W_Exited} \<and> tot = el
          | M_Check a \<Rightarrow> 0 \<le> a \<and> a < 1000000 \<and>
              \<not> stop s \<and> quiet s \<and> p \<in> {W_Await, W_Parked, W_Exited} \<and> tot = el
          | M_Send a \<Rightarrow> 0 \<le> a \<and> a < 1000000 \<and>
              \<not> stop s \<and> quiet s \<and> p \<in> {W_Await, W_Exited} \<and> tot = el
          | M_Read a \<Rightarrow> 0 \<le> a \<and> a < 1000000 \<and> \<not> stop s \<and> round_ok s p a el tot
          | M_SendStop \<Rightarrow> stop s \<and> quiet s \<and> p \<in> {W_Await, W_Parked, W_Exited} \<and> tot = el
          | M_Join \<Rightarrow> stop s \<and> t2m s = [] \<and> tot = el \<and>
              (m2t s = show_int THREAD_EXITING \<and> p \<in> {W_Await, W_Parked, W_Exited} \<or>
               m2t s = [] \<and> p = W_Exited)
          | M_Done \<Rightarrow> stop s \<and> t2m s = [] \<and> m2t s \<in> {[], show_int THREAD_EXITING} \<and> tot = el \<and> p = W_Exited
          | M_Exit code \<Rightarrow> stopped_ok s p))"

lemma pipe_read_empty [simp]: "pipe_read False [] = Blocks"
  by (simp add: pipe_read_def)

lemma pipe_read_number [simp]:
  "-2147483648 \<le> n \<Longrightarrow> n \<le> INT_MAX \<Longrightarrow> pipe_read False (show_int n) = Returns (n, [])"
  by (intro pipe_read_message) auto

lemma time_total_simps [simp]:
  "time_total (y\<lparr>sh := s\<rparr>) = time_total y" "time_total (y\<lparr>mn := m\<rparr>) = time_total y"
  "time_total (y\<lparr>wk := w\<rparr>) = time_total y"
  "time_total (y\<lparr>waited := waited y + d\<rparr>) = time_total y + word_of_int d"
  "time_total (y\<lparr>charged := charged y + d\<rparr>) = time_total y + word_of_int d"
  "time_total (y\<lparr>forfeited := forfeited y + d\<rparr>) = time_total y + word_of_int d"
  by (simp_all add: time_total_def)

lemma time_total_moves [simp]:
  "time_total (y\<lparr>sh := s, mn := m, waited := waited y + d\<rparr>) = time_total y + word_of_int d"
  "time_total (y\<lparr>sh := s, wk := w\<rparr>) = time_total y"
  by (simp_all add: time_total_def)

lemma time_total_count:
  "time_total (count e y) = time_total y + (case e of Charge c \<Rightarrow> word_of_int c | Forfeit t \<Rightarrow> word_of_int t | _ \<Rightarrow> 0)"
  by (cases e) (simp_all add: count_def)

lemma count_fields [simp]: "sh (count e y) = sh y" "mn (count e y) = mn y" "wk (count e y) = wk y"
  by (simp_all add: count_def split: wevent.split)

lemmas proto_defs = proto_inv_def Let_def flag_ok_def quiet_def

lemma proto_inv_init: "proto_inv (sys_init W_Await)"
  by (simp add: proto_defs sys_init_def shared_init_def main_init_def time_total_def)

lemma proto_inv_read:
  assumes inv: "proto_inv y" and pc: "m_pc (mn y) = M_Read a"
    and st: "main_step (calls_ok adv) j (sh y) (mn y) = Some (s', m')"
  shows "proto_inv (y\<lparr>sh := s', mn := m', waited := waited y + slept y\<rparr>)"
proof -
  from inv pc have r: "round_ok (sh y) (wk y) a (m_elapsed (mn y)) (time_total y)"
    "flag_ok (sh y) (wk y)" "\<not> stop (sh y)" by (auto simp: proto_inv_def Let_def)
  from st pc have ne: "t2m (sh y) \<noteq> []" by (auto simp: main_step_ok)
  with r(1) obtain v where v: "t2m (sh y) = show_int v" "m2t (sh y) = []"
    "v = -1 \<and> wk y \<in> {W_Parked, W_Await, W_Exited} \<and> time_total y = m_elapsed (mn y) + word_of_int a \<or>
     0 \<le> v \<and> v \<le> INT_MAX \<and> wk y \<in> {W_Await, W_Exited} \<and>
       time_total y = m_elapsed (mn y) + word_of_int a + word_of_int v"
    unfolding round_ok_def quiet_def by auto
  then have "pipe_read False (t2m (sh y)) = Returns (v, [])" by auto
  with st pc have "s' = (sh y)\<lparr>t2m := []\<rparr>" "m' = main_reply a v (mn y)" by (auto simp: main_step_ok)
  with v r pc show ?thesis
    by (elim disjE) (auto simp: proto_defs main_reply_def slept_def algebra_simps)
qed

lemma proto_inv_main_ok:
  assumes inv: "proto_inv y" and adv: "adv \<in> valid_advances"
    and st: "main_step (calls_ok adv) (wk y = W_Exited) (sh y) (mn y) = Some (s', m')"
  shows "proto_inv (y\<lparr>sh := s', mn := m', waited := waited y + slept y\<rparr>)"
proof (cases "m_pc (mn y)")
  case (M_Read a)
  with inv st show ?thesis by (intro proto_inv_read)
qed (use inv adv st in \<open>auto simp: main_step_ok proto_defs round_ok_def valid_advances_def slept_def split: if_splits\<close>)

text \<open>A failing pipe call of the main thread.\<close>

lemma proto_inv_exit:
  assumes inv: "proto_inv y" and pc: "m_pc (mn y) = M_SendStop \<or> (\<exists>a. m_pc (mn y) = M_Send a \<or> m_pc (mn y) = M_Read a)"
  shows "stopped_ok (sh y) (wk y)"
  using assms by (auto simp: proto_defs stopped_ok_def round_ok_def intro!: holds_oneI)

lemma proto_inv_main:
  assumes inv: "proto_inv y" and adv: "a_command e \<in> valid_advances"
    and st: "main_step e (wk y = W_Exited) (sh y) (mn y) = Some (s', m')"
  shows "proto_inv (y\<lparr>sh := s', mn := m', waited := waited y + slept y\<rparr>)"
  using st
proof (cases rule: main_step_cases)
  case ok
  with inv adv show ?thesis by (rule proto_inv_main_ok)
next
  case (exit code)
  with proto_inv_exit [OF inv exit(3)] inv show ?thesis by (simp add: proto_inv_def Let_def)
qed

lemma proto_inv_await:
  assumes inv: "proto_inv y" and over: "\<not> main_over (mn y)" and p: "wk y = W_Await"
    and rd: "pipe_read False (m2t (sh y)) = Returns (v, rest)"
  shows "rest = [] \<and> t2m (sh y) = [] \<and> (\<not> is_blocked (sh y)) \<and> time_total y = m_elapsed (mn y) \<and>
    (m_pc (mn y) = M_Read v \<and> 0 \<le> v \<and> v < 1000000 \<and> \<not> stop (sh y) \<or>
     m_pc (mn y) = M_Join \<and> v = THREAD_EXITING \<and> stop (sh y))"
  using assms by (cases "m_pc (mn y)") (auto simp: proto_defs round_ok_def main_over_def)

lemma proto_inv_run:
  assumes "proto_inv y" and "\<not> main_over (mn y)" and "wk y = W_Run t"
  obtains a where "m_pc (mn y) = M_Read a" "0 \<le> a" "a < 1000000" "\<not> stop (sh y)" "m2t (sh y) = []" "t2m (sh y) = []"
    "\<not> is_blocked (sh y)" "time_total y = m_elapsed (mn y) + word_of_int a - word_of_int t"
  using assms by (cases "m_pc (mn y)") (auto simp: proto_defs round_ok_def main_over_def)

lemma proto_inv_worker:
  assumes inv: "proto_inv y" and over: "\<not> main_over (mn y)" and st: "worker_step (sh y) (wk y) e s' p'"
  shows "proto_inv (count e (y\<lparr>sh := s', wk := p'\<rparr>))"
  using st
proof (cases rule: worker_step.cases)
  case w_internal
  with inv show ?thesis by (simp add: count_def)
next
  case (w_charge t c)
  from inv over w_charge(1) obtain a where "m_pc (mn y) = M_Read a" "0 \<le> a" "a < 1000000" "\<not> stop (sh y)"
    "m2t (sh y) = []" "t2m (sh y) = []" "\<not> is_blocked (sh y)"
    "time_total y = m_elapsed (mn y) + word_of_int a - word_of_int t" by (rule proto_inv_run)
  with w_charge show ?thesis by (simp add: proto_defs round_ok_def time_total_count algebra_simps)
next
  case (w_report t c)
  from inv over w_report(1) obtain a where "m_pc (mn y) = M_Read a" "0 \<le> a" "a < 1000000" "\<not> stop (sh y)"
    "m2t (sh y) = []" "t2m (sh y) = []" "\<not> is_blocked (sh y)"
    "time_total y = m_elapsed (mn y) + word_of_int a - word_of_int t" by (rule proto_inv_run)
  moreover have "time_total (count e (y\<lparr>sh := s', wk := p'\<rparr>)) =
      m_elapsed (mn y) + word_of_int a + word_of_int (c - t)"
    using calculation(8) w_report by (simp add: time_total_count algebra_simps)
  then have "\<exists>v. 0 \<le> v \<and> v \<le> INT_MAX \<and> show_int (c - t) = show_int v \<and>
      time_total (count e (y\<lparr>sh := s', wk := p'\<rparr>)) = m_elapsed (mn y) + word_of_int a + word_of_int v"
    using w_report by (intro exI [of _ "c - t"]) simp
  ultimately show ?thesis using w_report by (simp add: proto_defs round_ok_def)
next
  case (w_block t)
  from inv over w_block(1) obtain a where "m_pc (mn y) = M_Read a" "0 \<le> a" "a < 1000000" "\<not> stop (sh y)"
    "m2t (sh y) = []" "t2m (sh y) = []" "\<not> is_blocked (sh y)"
    "time_total y = m_elapsed (mn y) + word_of_int a - word_of_int t" by (rule proto_inv_run)
  with w_block show ?thesis by (simp add: proto_defs round_ok_def time_total_count)
next
  case w_park
  with inv over show ?thesis
    by (cases "m_pc (mn y)") (auto simp: proto_defs round_ok_def time_total_count main_over_def)
next
  case w_unpark
  with inv over show ?thesis
    by (cases "m_pc (mn y)") (auto simp: proto_defs round_ok_def time_total_count main_over_def)
next
  case (w_go v rest)
  from proto_inv_await [OF inv over w_go(1) w_go(5)] w_go inv show ?thesis
    by (auto simp: proto_defs round_ok_def time_total_count)
next
  case (w_quit v rest)
  from proto_inv_await [OF inv over w_quit(1) w_quit(5)] w_quit inv show ?thesis
    by (auto simp: proto_defs round_ok_def time_total_count)
next
  case (w_stop t)
  from inv over w_stop(1) obtain a where "\<not> stop (sh y)" by (rule proto_inv_run)
  with w_stop show ?thesis by simp
next
  case w_fault
  with inv over show ?thesis
    by (cases "m_pc (mn y)"; cases "wk y") (auto simp: proto_defs round_ok_def time_total_count main_over_def)
qed

lemma proto_inv_step:
  "proto_inv y \<Longrightarrow> advs \<subseteq> valid_advances \<Longrightarrow> sys_step advs worker_step (\<lambda>p. p = W_Exited) y y' \<Longrightarrow>
   proto_inv y'"
  by (auto elim!: sys_stepE intro: proto_inv_main proto_inv_worker)

lemma proto_inv_reachable:
  "reachable advs worker_step (\<lambda>p. p = W_Exited) W_Await y \<Longrightarrow> advs \<subseteq> valid_advances \<Longrightarrow> proto_inv y"
  by (induction rule: reachable.induct) (auto intro: proto_inv_init proto_inv_step)

subsection \<open>The interface of a worker\<close>

definition sys_map :: "('w \<Rightarrow> 'v) \<Rightarrow> 'w sys \<Rightarrow> 'v sys" where
  "sys_map f y = \<lparr>sh = sh y, mn = mn y, wk = f (wk y), charged = charged y, forfeited = forfeited y,
     waited = waited y\<rparr>"

lemma sys_map_fields [simp]:
  "sh (sys_map f y) = sh y" "mn (sys_map f y) = mn y" "wk (sys_map f y) = f (wk y)"
  "charged (sys_map f y) = charged y" "forfeited (sys_map f y) = forfeited y"
  "waited (sys_map f y) = waited y" "slept (sys_map f y) = slept y"
  "sys_map f (sys_init w) = sys_init (f w)"
  by (auto simp: sys_map_def slept_def sys_init_def split: main_pc.split)

lemma sys_map_moves:
  "sys_map f (y\<lparr>sh := s, mn := m, waited := d\<rparr>) = (sys_map f y)\<lparr>sh := s, mn := m, waited := d\<rparr>"
  "sys_map f (count e (y\<lparr>sh := s, wk := w\<rparr>)) = count e ((sys_map f y)\<lparr>sh := s, wk := f w\<rparr>)"
  by (simp_all add: sys_map_def count_def split: wevent.split)

lemma time_total_map: "time_total (sys_map f y) = time_total y"
  by (simp add: time_total_def)

text \<open>A worker that has something to do: time to spend, a message to send, or one to read.\<close>

definition runnable_phase :: "shared \<Rightarrow> phase \<Rightarrow> bool" where
  "runnable_phase s p \<longleftrightarrow>
     (case p of
        W_Run t \<Rightarrow> True
      | W_Parking \<Rightarrow> True
      | W_Await \<Rightarrow> (\<exists>v rest. pipe_read False (m2t s) = Returns (v, rest))
      | _ \<Rightarrow> False)"

text \<open>
  A worker \<open>ws\<close> with a phase function \<open>ph\<close>, an invariant \<open>ok\<close> and its start states: it starts
  waiting, and each of its steps is a step of the contract.
\<close>

locale vt_worker =
  fixes ws :: "shared \<Rightarrow> 'w \<Rightarrow> wevent \<Rightarrow> shared \<Rightarrow> 'w \<Rightarrow> bool"
    and ph :: "'w \<Rightarrow> phase"
    and ok :: "'w \<Rightarrow> bool"
    and start :: "'w \<Rightarrow> bool"
  assumes init_law: "start w0 \<Longrightarrow> ok w0 \<and> ph w0 = W_Await"
    and step_law: "ok w \<Longrightarrow> ws s w e s' w' \<Longrightarrow> ok w' \<and> worker_step s (ph w) e s' (ph w')"
begin

lemma sim_step:
  "ok (wk y) \<Longrightarrow> sys_step advs ws (\<lambda>w. ph w = W_Exited) y y' \<Longrightarrow>
   ok (wk y') \<and> sys_step advs worker_step (\<lambda>p. p = W_Exited) (sys_map ph y) (sys_map ph y')"
proof (elim sys_stepE)
  fix e s' m'
  assume "ok (wk y)" "y' = y\<lparr>sh := s', mn := m', waited := waited y + slept y\<rparr>" "a_command e \<in> advs"
    "main_step e (ph (wk y) = W_Exited) (sh y) (mn y) = Some (s', m')"
  moreover from this have "sys_step advs worker_step (\<lambda>p. p = W_Exited) (sys_map ph y)
      ((sys_map ph y)\<lparr>sh := s', mn := m', waited := waited (sys_map ph y) + slept (sys_map ph y)\<rparr>)"
    by (intro sys_step.main_moves) simp_all
  ultimately show ?thesis by (simp add: sys_map_moves)
next
  fix e s' w'
  assume a: "ok (wk y)" "y' = count e (y\<lparr>sh := s', wk := w'\<rparr>)" "\<not> main_over (mn y)" "ws (sh y) (wk y) e s' w'"
  with step_law have "ok w'" "worker_step (sh y) (ph (wk y)) e s' (ph w')" by blast+
  moreover from this(2) have "sys_step advs worker_step (\<lambda>p. p = W_Exited) (sys_map ph y)
      (count e ((sys_map ph y)\<lparr>sh := s', wk := ph w'\<rparr>))"
    using a(3) by (intro sys_step.worker_moves) simp_all
  ultimately show ?thesis using a(2) by (simp add: sys_map_moves)
qed

lemma sim:
  "reachable advs ws (\<lambda>w. ph w = W_Exited) w0 y \<Longrightarrow> start w0 \<Longrightarrow>
   ok (wk y) \<and> reachable advs worker_step (\<lambda>p. p = W_Exited) W_Await (sys_map ph y)"
proof (induction rule: reachable.induct)
  case start
  then show ?case using init_law [of w0] reachable.start [of advs worker_step "\<lambda>p. p = W_Exited" W_Await]
    by (simp add: sys_init_def [of w0]) (simp add: sys_map_def sys_init_def)
next
  case (more y y')
  with sim_step [of y advs y'] show ?case by (auto intro: reachable.more)
qed

lemma lockstep:
  assumes "start w0" and "reachable advs ws (\<lambda>w. ph w = W_Exited) w0 y" and "advs \<subseteq> valid_advances"
  shows "proto_inv (sys_map ph y)"
  using sim [OF assms(2,1)] proto_inv_reachable [OF _ assms(3)] by blast

text \<open>Each pipe holds at most one number, never both pipes, so no two messages run together.\<close>

lemma one_message:
  assumes "start w0" and "reachable advs ws (\<lambda>w. ph w = W_Exited) w0 y" and "advs \<subseteq> valid_advances"
  shows "holds_one (m2t (sh y)) \<and> holds_one (t2m (sh y)) \<and> (m2t (sh y) = [] \<or> t2m (sh y) = [])"
  using lockstep [OF assms]
  by (cases "m_pc (mn y)") (auto simp: proto_defs round_ok_def stopped_ok_def intro!: holds_oneI)

lemma time_accounted:
  assumes "start w0" and "reachable advs ws (\<lambda>w. ph w = W_Exited) w0 y" and "advs \<subseteq> valid_advances"
    and "m_pc (mn y) = M_Ack \<or> m_pc (mn y) = M_Done"
  shows "m_elapsed (mn y) = word_of_int (charged y + forfeited y + waited y)"
  using lockstep [OF assms(1-3)] assms(4)
  by (auto simp: proto_defs time_total_map) (auto simp: time_total_def)

text \<open>When the main thread acts on the flag, the flag is right, and nobody else changes it.\<close>

lemma flag_right:
  assumes "start w0" and "reachable advs ws (\<lambda>w. ph w = W_Exited) w0 y" and "advs \<subseteq> valid_advances"
    and "ph (wk y) \<noteq> W_Exited"
  shows "(m_pc (mn y) = M_Check a \<longrightarrow> ph (wk y) = (if is_blocked (sh y) then W_Parked else W_Await)) \<and>
     (m_pc (mn y) = M_Send a \<longrightarrow> ph (wk y) = W_Await \<and> \<not> is_blocked (sh y) \<and> m2t (sh y) = [])"
  using lockstep [OF assms(1-3)] assms(4) by (auto simp: proto_defs)

text \<open>
  With the worker gone and the pipes empty a round never ends: neither thread can move again, unless
  the read the main thread waits in fails and ends the process.
\<close>

lemma dead_end:
  assumes "ok (wk y)" and "m_pc (mn y) = M_Read a" and "t2m (sh y) = []" and "ph (wk y) = W_Exited"
    and "sys_step advs ws (\<lambda>w. ph w = W_Exited) y y'"
  shows "m_pc (mn y') = M_Exit (-1) \<and> wk y' = wk y \<and> sh y' = sh y"
  using assms(5)
proof (rule sys_stepE)
  fix e s' w'
  assume "ws (sh y) (wk y) e s' w'"
  with step_law assms(1,4) have "worker_step (sh y) W_Exited e s' (ph w')" by metis
  then show ?thesis by (auto elim: worker_stepE)
next
  fix e s' m'
  assume "main_step e (ph (wk y) = W_Exited) (sh y) (mn y) = Some (s', m')"
    "y' = y\<lparr>sh := s', mn := m', waited := waited y + slept y\<rparr>"
  with assms(2,3) show ?thesis by (cases "a_read_fails e") (auto simp: main_step_def pipe_read_fails)
qed

end

subsection \<open>Workers that do not fail\<close>

text \<open>
  A worker that ends only when a message or the stop flag tells it to, and goes on whenever it has
  something to do. No command of such a round has advance 0, which would end the worker.
\<close>

locale vt_worker_reliable = vt_worker +
  assumes no_fault_law: "ok w \<Longrightarrow> ws s w e s' w' \<Longrightarrow> e \<noteq> Fault"
    and progress_law: "ok w \<Longrightarrow> runnable_phase s (ph w) \<Longrightarrow> \<exists>e s' w'. ws s w e s' w' \<and> w' \<noteq> w"

definition live_inv :: "phase sys \<Rightarrow> bool" where
  "live_inv y \<longleftrightarrow>
     (case m_pc (mn y) of M_Check a \<Rightarrow> a \<noteq> 0 | M_Send a \<Rightarrow> a \<noteq> 0 | M_Read a \<Rightarrow> a \<noteq> 0 | _ \<Rightarrow> True) \<and>
     (wk y = W_Exited \<longrightarrow> stop (sh y))"

lemma live_inv_main:
  assumes "proto_inv y" and "live_inv y" and "a_command e \<noteq> 0"
    and "main_step e j (sh y) (mn y) = Some (s', m')"
  shows "live_inv (y\<lparr>sh := s', mn := m', waited := d\<rparr>)"
  using assms(4)
proof (cases rule: main_step_cases)
  case ok
  with assms(1-3) show ?thesis by (cases "m_pc (mn y)")
    (auto simp: live_inv_def main_step_ok main_reply_def split: if_splits outcome.splits)
qed (use assms(2) in \<open>simp add: live_inv_def\<close>)

lemma live_inv_worker:
  assumes inv: "proto_inv y" and live: "live_inv y" and over: "\<not> main_over (mn y)" and st: "worker_step (sh y) (wk y) e s' p'" and e: "e \<noteq> Fault"
  shows "live_inv (count e (y\<lparr>sh := s', wk := p'\<rparr>))"
  using st
proof (cases rule: worker_step.cases)
  case (w_quit v rest)
  from proto_inv_await [OF inv over w_quit(1) w_quit(5)] w_quit(4,6) live w_quit(3) show ?thesis
    by (auto simp: live_inv_def)
qed (use live e in \<open>auto simp: live_inv_def\<close>)

context vt_worker_reliable
begin

lemma live:
  assumes "start w0" and "reachable advs ws (\<lambda>w. ph w = W_Exited) w0 y" and "advs \<subseteq> valid_advances" and "0 \<notin> advs"
  shows "live_inv (sys_map ph y)"
  using assms(2)
proof (induction rule: reachable.induct)
  case start
  then show ?case using init_law [OF assms(1)] by (simp add: live_inv_def) (simp add: sys_init_def main_init_def)
next
  case (more y y')
  from sim [OF more(1) assms(1)] lockstep [OF assms(1) more(1) assms(3)]
  have ok: "ok (wk y)" and inv: "proto_inv (sys_map ph y)" by blast+
  from more(2) show ?case
  proof (rule sys_stepE)
    fix e s' m'
    assume "y' = y\<lparr>sh := s', mn := m', waited := waited y + slept y\<rparr>" "a_command e \<in> advs"
      "main_step e (ph (wk y) = W_Exited) (sh y) (mn y) = Some (s', m')"
    moreover from this(2) assms(4) have "a_command e \<noteq> 0" by metis
    ultimately show ?thesis using live_inv_main [OF inv more.IH, of e "ph (wk y) = W_Exited" s' m']
      by (simp add: sys_map_moves)
  next
    fix e s' w'
    assume y: "y' = count e (y\<lparr>sh := s', wk := w'\<rparr>)" "\<not> main_over (mn y)" and st: "ws (sh y) (wk y) e s' w'"
    from step_law [OF ok st] no_fault_law [OF ok st] live_inv_worker [OF inv more.IH, of e s' "ph w'"] y
    show ?thesis by (simp add: sys_map_moves)
  qed
qed

lemma runnable_moves:
  assumes "ok (wk y)" and "runnable_phase (sh y) (ph (wk y))" and "\<not> main_over (mn y)"
  shows "\<exists>y'. sys_step advs ws (\<lambda>w. ph w = W_Exited) y y' \<and> y' \<noteq> y"
proof -
  from progress_law [OF assms(1,2)] obtain e s' w' where st: "ws (sh y) (wk y) e s' w'" "w' \<noteq> wk y" by blast
  have "wk (count e (y\<lparr>sh := s', wk := w'\<rparr>)) \<noteq> wk y" using st(2) by simp
  then have "count e (y\<lparr>sh := s', wk := w'\<rparr>) \<noteq> y" by metis
  with sys_step.worker_moves [of y ws e s' w', OF assms(3) st(1)] show ?thesis by blast
qed

lemma main_can_move:
  assumes "adv \<in> advs" and "main_step (calls_ok adv) (ph (wk y) = W_Exited) (sh y) (mn y) = Some (s', m')"
    and "m_pc m' \<noteq> m_pc (mn y)"
  shows "\<exists>y'. sys_step advs ws (\<lambda>w. ph w = W_Exited) y y' \<and> y' \<noteq> y"
proof -
  have "mn (y\<lparr>sh := s', mn := m', waited := waited y + slept y\<rparr>) \<noteq> mn y" using assms(3) by auto
  then have "y\<lparr>sh := s', mn := m', waited := waited y + slept y\<rparr> \<noteq> y" by metis
  moreover have "sys_step advs ws (\<lambda>w. ph w = W_Exited) y
      (y\<lparr>sh := s', mn := m', waited := waited y + slept y\<rparr>)"
    by (rule sys_step.main_moves [of "calls_ok adv"]) (use assms(1,2) in \<open>simp_all add: calls_ok_def\<close>)
  ultimately show ?thesis by blast
qed

text \<open>
  No deadlock: until the experiment is over, or the process has ended on a failed pipe call of the main
  thread, some thread can take a step that changes the state, except that the stop message waits for a parked worker to be woken by a packet.
\<close>

lemma no_deadlock:
  assumes w0: "start w0" and r: "reachable advs ws (\<lambda>w. ph w = W_Exited) w0 y" and advs: "advs \<subseteq> valid_advances" "0 \<notin> advs" "adv \<in> advs"
    and going: "\<not> main_over (mn y)" "\<not> (m_pc (mn y) = M_Join \<and> ph (wk y) = W_Parked)"
  shows "\<exists>y'. sys_step advs ws (\<lambda>w. ph w = W_Exited) y y' \<and> y' \<noteq> y"
proof (cases "runnable_phase (sh y) (ph (wk y))")
  case True
  with sim [OF r w0] runnable_moves going(1) show ?thesis by blast
next
  case False
  from lockstep [OF w0 r advs(1)] live [OF w0 r advs(1,2)]
  have inv: "proto_inv (sys_map ph y)" and live: "live_inv (sys_map ph y)" .
  have "\<exists>s' m'. main_step (calls_ok adv) (ph (wk y) = W_Exited) (sh y) (mn y) = Some (s', m') \<and> m_pc m' \<noteq> m_pc (mn y)"
    using False inv live going
    by (cases "m_pc (mn y)"; cases "ph (wk y)")
      (auto simp: main_step_ok proto_defs round_ok_def live_inv_def runnable_phase_def main_reply_def main_over_def)
  with main_can_move [OF advs(3)] show ?thesis by blast
qed

end

end
