(* ===== verification/Routing_Table.thy ===== *)
theory Routing_Table
  imports Linked_List C_Strings
begin

text \<open>
  The static routes of a router (\<open>utils.c\<close>) and the set-up of \<open>router_app_vt.c\<close>: parsing a line
  of the routes file, building the list of entries on the heap of \<open>Linked_List\<close>, looking up the
  output interface of a packet, \<open>cleanup\<close>; the command line options and the interface names.

  \<open>table\<close> reads the list on the heap as a list of pairs. The lemmas show that a line in the format
  of the files under \<open>routes/\<close> is read as its first and last field, that lookup is an ordinary map
  lookup in which the last entry wins, and which entries the cleanup leaves allocated.
\<close>

record routing_entry =
  ip_address :: string
  output_if :: string

abbreviation (input) IP_ADDR_SIZE :: nat where "IP_ADDR_SIZE \<equiv> 20"
abbreviation (input) IF_NAME_SIZE :: nat where "IF_NAME_SIZE \<equiv> 100"
abbreviation (input) N_MAX_TAPS :: int where "N_MAX_TAPS \<equiv> 100"
abbreviation (input) IFNAMSIZ :: nat where "IFNAMSIZ \<equiv> 16"

subsection \<open>Parsing\<close>

definition blank :: "char \<Rightarrow> bool" where
  "blank c \<longleftrightarrow> c = CHR '' '' \<or> c = CHR 0x09 \<or> c = CHR 0x0A"

text \<open>One turn of the loop: a blank becomes a terminator, and a field may start behind it.\<close>

definition split_step :: "nat \<Rightarrow> string \<times> nat \<Rightarrow> string \<times> nat" where
  "split_step i st =
     (let (tmp, if_idx) = st
      in if blank (tmp ! i)
         then (tmp[i := NUL], if tmp ! i \<noteq> CHR 0x0A then i + 1 else if_idx)
         else (tmp, if_idx))"

text \<open>
  One line of the file. \<open>len\<close> is not its length but the size of the buffer \<open>getline\<close> keeps; a
  buffer longer than \<open>tmp\<close> overflows it whatever the line holds. The inner \<open>None\<close> is a skipped
  line.
\<close>

definition parse_line :: "nat \<Rightarrow> string \<Rightarrow> routing_entry option option" where
  "parse_line len line =
     (if len > 1
      then if len > BUFSIZE then None
           else (let tmp = take len (c_str line @ replicate len NUL) @ replicate (BUFSIZE - len) NUL;
                     (tmp, if_idx) = fold split_step [0..<len] (tmp, 0);
                     ip = c_str tmp;
                     intf = c_str (drop if_idx tmp)
                 in if length ip < IP_ADDR_SIZE \<and> if_idx < BUFSIZE \<and> length intf < IF_NAME_SIZE
                    then Some (Some \<lparr>ip_address = ip, output_if = intf\<rparr>)
                    else None)
      else Some None)"

text \<open>
  \<open>populate_routing_list\<close>: \<open>lines\<close> are the results of \<open>getline\<close> (buffer size and bytes), \<open>allocs\<close>
  those of \<open>malloc\<close> for the entries and the list cells, a pair for each line (not used for a line that
  is skipped); a failed allocation of an entry ends the
  process. \<open>None\<close> for the file means that \<open>fopen\<close> failed. The stream that \<open>fopen\<close> opens is never
  closed, and the line buffer that the first call of \<open>getline\<close> allocates (also when it finds no line;
  later calls resize it) is never freed: both stay on the heap as blocks.
\<close>

type_synonym route_alloc = "addr option \<times> (addr \<times> llist_elem) option"

fun populate_loop ::
  "route_alloc list \<Rightarrow> (nat \<times> string) list \<Rightarrow> routing_entry llist \<Rightarrow> routing_entry mem \<Rightarrow>
   (routing_entry llist \<times> routing_entry mem) outcome" where
  "populate_loop allocs [] l m = Returns (l, m)"
| "populate_loop [] (_ # _) l m = Faults"
| "populate_loop ((e, c) # allocs) ((len, line) # lines) l m =
     (if \<not> len > 1 then populate_loop allocs lines l m
      else (case e of
              None \<Rightarrow> Exits FAIL
            | Some a \<Rightarrow>
                (case parse_line len line of
                   None \<Rightarrow> Faults
                 | Some None \<Rightarrow> populate_loop allocs lines l m
                 | Some (Some new_entry) \<Rightarrow>
                     (case llist_append c l (Some a) (m\<lparr>objs := (objs m)(a \<mapsto> new_entry)\<rparr>) of
                        None \<Rightarrow> Faults
                      | Some (_, l, m) \<Rightarrow> populate_loop allocs lines l m))))"

definition populate_routing_list ::
  "route_alloc list \<Rightarrow> (nat \<times> string) list option \<Rightarrow> routing_entry mem \<Rightarrow>
   (routing_entry llist \<times> routing_entry mem) outcome" where
  "populate_routing_list allocs f m =
     (case f of
        None \<Rightarrow> Exits FAIL
      | Some lines \<Rightarrow>
          (let m = m\<lparr>blocks := Stream_Block # blocks m\<rparr>;
               m = m\<lparr>blocks := Line_Buffer # blocks m\<rparr>
           in populate_loop allocs lines llist_init m))"

definition cleanup :: "routing_entry llist \<Rightarrow> routing_entry mem \<Rightarrow> (routing_entry llist \<times> routing_entry mem) option" where
  "cleanup l m = do {
     (entry, lp, m) \<leftarrow> llist_pop (Some l) m;
     l \<leftarrow> lp;
     if entry = None then Some (l, m) else llist_destroy l m
   }"

subsection \<open>Lookup\<close>

text \<open>\<open>inet_ntoa\<close> on the four bytes of an address.\<close>

definition inet_ntoa :: "char \<Rightarrow> char \<Rightarrow> char \<Rightarrow> char \<Rightarrow> string" where
  "inet_ntoa a b c d =
     show_nat (of_char a) @ ''.'' @ show_nat (of_char b) @ ''.'' @ show_nat (of_char c) @ ''.'' @ show_nat (of_char d)"

text \<open>The destination address: the header starts behind 14 bytes of Ethernet header.\<close>

definition dst_ip :: "string \<Rightarrow> string option" where
  "dst_ip pkt = do {
     a \<leftarrow> at pkt 30; b \<leftarrow> at pkt 31; c \<leftarrow> at pkt 32; d \<leftarrow> at pkt 33;
     Some (inet_ntoa a b c d)
   }"

text \<open>The search through the routes does not stop at a match: the last one counts.\<close>

partial_function (option) route_loop ::
  "routing_entry mem \<Rightarrow> string \<Rightarrow> ptr \<Rightarrow> string option \<Rightarrow> string option option" where
  "route_loop m dst_IP head dst_intf =
     (case head of
        None \<Rightarrow> Some dst_intf
      | Some a \<Rightarrow> do {
          n \<leftarrow> nodes m a;
          entry \<leftarrow> deref (objs m) (item n);
          route_loop m dst_IP (nxt n)
            (if ip_address entry = dst_IP then Some (output_if entry) else dst_intf)
        })"

definition get_dst_sock_idx ::
  "routing_entry llist \<Rightarrow> routing_entry mem \<Rightarrow> string \<Rightarrow> string list \<Rightarrow> int option" where
  "get_dst_sock_idx routes m pkt intf_names = do {
     dst_IP \<leftarrow> dst_ip pkt;
     dst_intf \<leftarrow> route_loop m dst_IP (l_head routes) None;
     Some (case dst_intf of
             None \<Rightarrow> -1
           | Some intf \<Rightarrow>
               (case find_index (\<lambda>name. intf = name) intf_names of Some i \<Rightarrow> int i | None \<Rightarrow> 0))
   }"

text \<open>
  \<open>intf_name_to_sock_idx\<close> (never called) declares \<open>intf_names\<close> as one string: each of its
  characters is used as a pointer to a name, which is undefined as soon as there is an interface.
\<close>

definition intf_name_to_sock_idx :: "string \<Rightarrow> string \<Rightarrow> int \<Rightarrow> int option" where
  "intf_name_to_sock_idx intf intf_names n_intfs = (if 0 < n_intfs then None else Some FAIL)"

subsection \<open>Start of a router\<close>

text \<open>
  The options as \<open>getopt\<close> returns them with their arguments. A path of 100 characters or more is
  cut and not terminated; without \<open>-f\<close> the path is never set (\<open>None\<close>).
\<close>

record config =
  cfg_switch_name :: string
  cfg_n_intfs :: int
  cfg_routing_file :: "string option"

fun get_options :: "(char \<times> string) list \<Rightarrow> config \<Rightarrow> config outcome" where
  "get_options [] c = Returns c"
| "get_options ((opt, optarg) # opts) c =
     (if opt = CHR ''h'' then Exits 1
      else if opt = CHR ''i'' then get_options opts (c\<lparr>cfg_switch_name := take (IFNAMSIZ - 1) optarg\<rparr>)
      else if opt = CHR ''n''
      then (case atoi (optarg @ [NUL]) of
              None \<Rightarrow> Faults
            | Some n \<Rightarrow> get_options opts (c\<lparr>cfg_n_intfs := n\<rparr>))
      else if opt = CHR ''f'' then get_options opts (c\<lparr>cfg_routing_file := Some (take 100 optarg)\<rparr>)
      else Exits 1)"

definition intf_name :: "string \<Rightarrow> nat \<Rightarrow> string" where
  "intf_name switch_name i = switch_name @ ''-eth'' @ show_int (int i)"

text \<open>
  From the command line to the interface names; \<open>extra\<close> is the number of arguments left over.
  More than 100 interfaces overflow the array of names.
\<close>

definition router_config :: "(char \<times> string) list \<Rightarrow> nat \<Rightarrow> (config \<times> string list) outcome" where
  "router_config opts extra =
     (case get_options opts \<lparr>cfg_switch_name = [], cfg_n_intfs = 0, cfg_routing_file = None\<rparr> of
        Returns c \<Rightarrow>
          if extra > 0 \<or> cfg_switch_name c = [] \<or> cfg_n_intfs c \<le> 0 then Exits 1
          else if cfg_n_intfs c > N_MAX_TAPS then Faults
          else (let start = (if hd (cfg_switch_name c) = CHR ''h'' then 0 else 1)
                in Returns (c, map (\<lambda>i. intf_name (cfg_switch_name c) (start + i)) [0..<nat (cfg_n_intfs c)]))
      | Exits code \<Rightarrow> Exits code
      | Blocks \<Rightarrow> Blocks
      | Faults \<Rightarrow> Faults)"

subsection \<open>Splitting a line\<close>

definition unblank :: "char \<Rightarrow> char" where
  "unblank c = (if blank c then NUL else c)"

definition separates :: "char \<Rightarrow> bool" where
  "separates c \<longleftrightarrow> blank c \<and> c \<noteq> CHR 0x0A"

primrec field_start :: "nat \<Rightarrow> string \<Rightarrow> nat" where
  "field_start 0 tmp = 0"
| "field_start (Suc k) tmp = (if separates (tmp ! k) then Suc k else field_start k tmp)"

lemma split_loop:
  "k \<le> length tmp \<Longrightarrow>
   fold split_step [0..<k] (tmp, 0) = (map unblank (take k tmp) @ drop k tmp, field_start k tmp)"
proof (induction k)
  case (Suc k)
  then have "drop k tmp = tmp ! k # drop (Suc k) tmp" by (simp add: Cons_nth_drop_Suc)
  moreover have "take (Suc k) tmp = take k tmp @ [tmp ! k]" using Suc.prems by (simp add: take_Suc_conv_app_nth)
  moreover have "length (map unblank (take k tmp)) = k" using Suc.prems by simp
  ultimately show ?case using Suc
    by (simp add: split_step_def Let_def unblank_def separates_def nth_append list_update_append)
qed simp

lemma field_start_run:
  "m \<le> k \<Longrightarrow> (\<And>i. m \<le> i \<Longrightarrow> i < k \<Longrightarrow> \<not> separates (tmp ! i)) \<Longrightarrow> field_start k tmp = field_start m tmp"
proof (induction k)
  case (Suc k)
  then show ?case by (cases "m = Suc k") auto
qed simp

definition plain :: "string \<Rightarrow> bool" where
  "plain s \<longleftrightarrow> (\<forall>c \<in> set s. \<not> blank c \<and> c \<noteq> NUL)"

lemma plain_separates: "plain s \<Longrightarrow> c \<in> set s \<Longrightarrow> \<not> separates c"
  unfolding plain_def separates_def by blast

lemma blank_chars: "\<not> separates CHR 0x0A" "\<not> separates NUL" "\<not> blank NUL" "blank CHR 0x0A"
  by (simp_all add: separates_def blank_def)

lemma map_unblank_plain: "plain s \<Longrightarrow> map unblank s = s"
  by (induction s) (auto simp: plain_def unblank_def)

lemma c_str_plain: "plain s \<Longrightarrow> c_str (s @ NUL # r) = s"
  unfolding c_str_def by (intro takeWhile_append_stop) (auto simp: plain_def)

text \<open>A line of two fields, with anything between them that starts and ends in a separator.\<close>

definition route_line :: "string \<Rightarrow> string \<Rightarrow> string \<Rightarrow> string \<Rightarrow> bool" where
  "route_line line ip sep intf \<longleftrightarrow>
     (\<exists>nl \<in> {[], [CHR 0x0A]}. line = ip @ sep @ intf @ nl) \<and> plain ip \<and> plain intf \<and>
     NUL \<notin> set sep \<and> sep \<noteq> [] \<and> blank (hd sep) \<and> separates (last sep)"

lemma field_start_route:
  assumes intf: "plain intf" and nl: "nl = [] \<or> nl = [CHR 0x0A]" and sep: "sep \<noteq> []" "separates (last sep)"
    and len: "length ip + length sep \<le> len" "len \<le> length tmp"
    and tmp: "tmp = ip @ sep @ intf @ nl @ NUL # replicate z NUL"
  shows "field_start len tmp = length ip + length sep"
proof -
  let ?m = "length ip + length sep" and ?R = "intf @ nl @ NUL # replicate z NUL"
  have "\<not> separates (tmp ! i)" if "?m \<le> i" "i < len" for i
  proof -
    have "tmp = (ip @ sep) @ ?R" unfolding tmp by simp
    then have "tmp ! i = ?R ! (i - ?m)" using that(1) by (metis length_append not_less nth_append)
    moreover have "i - ?m < length ?R" using that len(2) unfolding tmp by simp
    ultimately have "tmp ! i \<in> set ?R" by (metis nth_mem)
    then have "tmp ! i \<in> set intf \<or> tmp ! i = CHR 0x0A \<or> tmp ! i = NUL" using nl by auto
    then show ?thesis using plain_separates [OF intf] blank_chars by metis
  qed
  then have "field_start len tmp = field_start ?m tmp" by (rule field_start_run [OF len(1)])
  moreover obtain b sep' where b: "sep = b # sep'" using sep(1) by (cases sep) auto
  moreover have "tmp ! (length ip + length sep') = last sep"
    using sep(1) b tmp by (simp add: nth_append last_conv_nth)
  ultimately show ?thesis using sep(2) by simp
qed

lemma route_fields:
  fixes z :: nat
  assumes "plain ip" "plain intf" "sep \<noteq> []" "blank (hd sep)" and nl: "nl = [] \<or> nl = [CHR 0x0A]"
  defines "t \<equiv> map unblank (ip @ sep @ intf @ nl @ NUL # replicate z NUL)"
  shows "c_str t = ip" and "c_str (drop (length ip + length sep) t) = intf"
proof -
  obtain b sep' where b: "sep = b # sep'" using assms(3) by (cases sep) auto
  show "c_str t = ip" unfolding t_def b using assms(1,4) b
    by (simp add: map_unblank_plain unblank_def c_str_plain)
  have "drop (length ip + length sep) t = map unblank (intf @ nl @ NUL # replicate z NUL)"
    unfolding t_def by (simp add: drop_map)
  then show "c_str (drop (length ip + length sep) t) = intf"
    using nl assms(2) by (auto simp: map_unblank_plain unblank_def blank_def c_str_plain)
qed

text \<open>The local copy of a line: the line and its padding, whatever \<open>len\<close> the caller gives.\<close>

lemma line_copy:
  assumes nn: "NUL \<notin> set line" and len: "length line < len" "len \<le> BUFSIZE"
  shows "take len (c_str line @ replicate len NUL) @ replicate (BUFSIZE - len) NUL =
    line @ NUL # replicate (BUFSIZE - length line - 1) NUL"
proof -
  have "c_str line = line" unfolding c_str_def takeWhile_eq_all_conv using nn by blast
  moreover have "replicate (len - length line) NUL @ replicate (BUFSIZE - len) NUL =
      NUL # replicate (BUFSIZE - length line - 1) NUL"
    using len by (simp flip: replicate_add replicate_Suc)
  ultimately show ?thesis using len by simp
qed

lemma unblank_prefix:
  assumes "length line < len"
  shows "map unblank (take len (line @ NUL # replicate z NUL)) @ drop len (line @ NUL # replicate z NUL) =
    map unblank (line @ NUL # replicate z NUL)"
proof -
  let ?t = "line @ NUL # replicate z NUL"
  have "map unblank (drop len ?t) = drop len ?t"
    unfolding replicate_Suc [symmetric] using assms by (simp add: unblank_def drop_replicate del: replicate_Suc)
  then show ?thesis by (metis append_take_drop_id map_append)
qed

text \<open>What the loop over a line of two fields leaves in the copy, and where the second field starts.\<close>

lemma split_route:
  assumes line: "route_line line ip sep intf" and len: "length line < len" "len \<le> BUFSIZE"
  shows "\<exists>nl z. (nl = [] \<or> nl = [CHR 0x0A]) \<and> length (ip @ sep @ intf @ nl) + Suc z = BUFSIZE \<and>
     fold split_step [0..<len] (take len (c_str line @ replicate len NUL) @ replicate (BUFSIZE - len) NUL, 0) =
     (map unblank (ip @ sep @ intf @ nl @ NUL # replicate z NUL), length ip + length sep)"
proof -
  have p: "plain ip" "plain intf" "NUL \<notin> set sep" "sep \<noteq> []" "blank (hd sep)" "separates (last sep)"
    using line by (simp_all add: route_line_def)
  from line obtain nl where eq: "line = ip @ sep @ intf @ nl" and nl: "nl = [] \<or> nl = [CHR 0x0A]"
    by (auto simp: route_line_def)
  have "NUL \<notin> set ip" "NUL \<notin> set intf" using p(1,2) unfolding plain_def by blast+
  then have nn: "NUL \<notin> set line" using p(3) nl unfolding eq by auto
  define z where "z = BUFSIZE - length line - 1"
  define tmp where "tmp = line @ NUL # replicate z NUL"
  have lt: "length tmp = BUFSIZE" using len by (simp add: z_def tmp_def)
  have fs: "field_start len tmp = length ip + length sep"
    using len lt eq by (intro field_start_route [OF p(2) nl p(4,6), where z = z]) (simp_all add: tmp_def)
  have "fold split_step [0..<len] (take len (c_str line @ replicate len NUL) @ replicate (BUFSIZE - len) NUL, 0) =
      (map unblank tmp, length ip + length sep)"
    using split_loop [of len tmp] lt len(2) fs unblank_prefix [OF len(1), of z]
    unfolding line_copy [OF nn len] z_def [symmetric] tmp_def [symmetric] by simp
  with nl lt show ?thesis unfolding tmp_def eq by (intro exI [of _ nl] exI [of _ z]) simp
qed

lemma parse_line_route:
  assumes line: "route_line line ip sep intf" and len: "length line < len" "len \<le> BUFSIZE"
    and "length ip < IP_ADDR_SIZE" and "length intf < IF_NAME_SIZE"
  shows "parse_line len line = Some (Some \<lparr>ip_address = ip, output_if = intf\<rparr>)"
proof -
  have p: "plain ip" "plain intf" "sep \<noteq> []" "blank (hd sep)" using line by (simp_all add: route_line_def)
  from split_route [OF line len] obtain nl z where nl: "nl = [] \<or> nl = [CHR 0x0A]"
    and z: "length (ip @ sep @ intf @ nl) + Suc z = BUFSIZE"
    and f: "fold split_step [0..<len] (take len (c_str line @ replicate len NUL) @ replicate (BUFSIZE - len) NUL, 0) =
      (map unblank (ip @ sep @ intf @ nl @ NUL # replicate z NUL), length ip + length sep)" by blast
  have "1 < len" using line len p(3) by (cases sep) (auto simp: route_line_def)
  moreover have "length ip + length sep < BUFSIZE" using z by simp
  ultimately show ?thesis
    using assms(4,5) len(2) route_fields [OF p nl, of z] unfolding parse_line_def Let_def f by simp
qed

subsection \<open>The list of routes as a table\<close>

definition route_at :: "(addr \<rightharpoonup> routing_entry) \<Rightarrow> ptr \<Rightarrow> string \<times> string" where
  "route_at os p = (let e = the (os (the p)) in (ip_address e, output_if e))"

definition route_table :: "routing_entry llist \<Rightarrow> routing_entry mem \<Rightarrow> (string \<times> string) list" where
  "route_table l m = map (route_at (objs m)) (llist_items l m)"

definition routes_ok :: "routing_entry llist \<Rightarrow> routing_entry mem \<Rightarrow> bool" where
  "routes_ok l m \<longleftrightarrow> llist_inv l m \<and> (\<forall>p \<in> set (llist_items l m). p \<noteq> None \<and> objs m (the p) \<noteq> None)"

text \<open>A list whose items are allocated objects, as the routes and the tables of other programs are.\<close>

definition objs_ok :: "'o llist \<Rightarrow> 'o mem \<Rightarrow> bool" where
  "objs_ok l m \<longleftrightarrow> llist_inv l m \<and> (\<forall>p \<in> set (llist_items l m). p \<noteq> None \<and> objs m (the p) \<noteq> None)"

definition obj_list :: "'o llist \<Rightarrow> 'o mem \<Rightarrow> 'o list" where
  "obj_list l m = map (\<lambda>p. the (objs m (the p))) (llist_items l m)"

lemma objs_ok_init: "objs_ok llist_init m" "obj_list llist_init m = []"
  by (simp_all add: objs_ok_def obj_list_def)

lemma routes_ok_objs: "routes_ok l m \<longleftrightarrow> objs_ok l m"
  by (simp add: routes_ok_def objs_ok_def)

lemma route_table_objs: "route_table l m = map (\<lambda>e. (ip_address e, output_if e)) (obj_list l m)"
  by (simp add: route_table_def obj_list_def route_at_def Let_def)

lemma routes_ok_init: "routes_ok llist_init m" "route_table llist_init m = []"
  by (simp_all add: routes_ok_def route_table_def)

lemma route_loop_seg:
  "dseg (nodes m) p pv as None lst \<Longrightarrow> \<forall>x \<in> set (items (nodes m) as). x \<noteq> None \<and> objs m (the x) \<noteq> None \<Longrightarrow>
   route_loop m ip p d = Some (case map_of (rev (map (route_at (objs m)) (items (nodes m) as))) ip of
     None \<Rightarrow> d | Some intf \<Rightarrow> Some intf)"
proof (induction as arbitrary: p pv d)
  case Nil
  then show ?case by (simp add: route_loop.simps)
next
  case (Cons a as)
  then obtain n t e where n: "p = Some a" "nodes m a = Some n" "dseg (nodes m) (nxt n) (Some a) as None lst"
    and t: "item n = Some t" "objs m t = Some e" by auto
  have "\<forall>x \<in> set (items (nodes m) as). x \<noteq> None \<and> objs m (the x) \<noteq> None" using Cons.prems(2) by simp
  note IH = Cons.IH [OF n(3) this]
  show ?case using n t
    by (simp add: route_loop.simps [of m ip "Some a"] cell_simps IH route_at_def map_add_def split: option.splits)
qed

lemma route_loop_ok:
  assumes "routes_ok l m"
  shows "route_loop m ip (l_head l) None = Some (map_of (rev (route_table l m)) ip)"
proof -
  have "list_ok (nodes m) l (llist_cells l m)" using assms by (simp add: routes_ok_def llist_invD)
  then have "dseg (nodes m) (l_head l) None (llist_cells l m) None (l_tail l)" by (simp add: list_ok_def)
  from route_loop_seg [OF this, of ip None] assms show ?thesis
    by (simp add: routes_ok_def llist_items_def route_table_def split: option.splits)
qed

text \<open>Adding an object at the end of a list that owns none of its addresses yet.\<close>

lemma append_obj:
  assumes ok: "objs_ok l m" and a: "objs m a = None" and c: "nodes m c = None"
  shows "\<exists>l' m'. llist_append (Some (c, junk)) l (Some a) (m\<lparr>objs := (objs m)(a \<mapsto> e)\<rparr>) = Some (SUCCESS, l', m') \<and>
     objs_ok l' m' \<and> obj_list l' m' = obj_list l m @ [e] \<and>
     dom (objs m') = insert a (dom (objs m)) \<and> dom (nodes m') = insert c (dom (nodes m)) \<and>
     llist_cells l' m' = llist_cells l m @ [c] \<and> blocks m' = blocks m"
proof -
  let ?m = "m\<lparr>objs := (objs m)(a \<mapsto> e)\<rparr>" and ?as = "llist_cells l m"
  have lok: "list_ok (nodes ?m) l ?as" using ok by (simp add: objs_ok_def llist_invD)
  from llist_append_ok [OF lok, of c junk "Some a"] c obtain l' m' where
    r: "llist_append (Some (c, junk)) l (Some a) ?m = Some (SUCCESS, l', m')" "list_ok (nodes m') l' (?as @ [c])"
      "items (nodes m') (?as @ [c]) = llist_items l m @ [Some a]" "objs m' = (objs m)(a \<mapsto> e)"
      "agree_off (insert c (set ?as)) (nodes m) (nodes m')" and bl: "blocks m' = blocks m"
    by (auto simp: llist_items_def)
  from llist_inv_items [OF r(2)] r(3) have i: "llist_inv l' m'" "llist_items l' m' = llist_items l m @ [Some a]"
    by simp_all
  have old: "the p \<noteq> a" if "p \<in> set (llist_items l m)" for p
    using ok a that by (auto simp: objs_ok_def)
  then have "obj_list l' m' = obj_list l m @ [e]" unfolding obj_list_def i(2) by (simp add: r(4))
  moreover have "objs_ok l' m'" using i ok by (auto simp: objs_ok_def r(4))
  moreover have "dom (nodes m') = insert c (dom (nodes m))"
  proof -
    have "set (?as @ [c]) \<subseteq> dom (nodes m')" using r(2) dseg_dom unfolding list_ok_def by blast
    moreover have "set ?as \<subseteq> dom (nodes m)" using lok dseg_dom unfolding list_ok_def by force
    moreover have "b \<in> dom (nodes m') \<longleftrightarrow> b \<in> dom (nodes m)" if "b \<notin> insert c (set ?as)" for b
      using agree_offD [OF r(5) that] by (simp add: dom_def)
    then have "dom (nodes m') \<union> insert c (set ?as) = dom (nodes m) \<union> insert c (set ?as)" by blast
    ultimately show ?thesis by (simp add: Un_absorb1 Un_absorb2 insert_absorb)
  qed
  moreover have "llist_cells l' m' = ?as @ [c]" using r(2) by (rule llist_cells_ok)
  ultimately show ?thesis using r(1,4) bl by auto
qed

lemma append_route:
  assumes "routes_ok l m" and "objs m a = None" and "nodes m c = None"
  shows "\<exists>l' m'. llist_append (Some (c, junk)) l (Some a) (m\<lparr>objs := (objs m)(a \<mapsto> e)\<rparr>) = Some (SUCCESS, l', m') \<and>
     routes_ok l' m' \<and> route_table l' m' = route_table l m @ [(ip_address e, output_if e)] \<and>
     dom (objs m') = insert a (dom (objs m)) \<and> dom (nodes m') = insert c (dom (nodes m)) \<and>
     llist_cells l' m' = llist_cells l m @ [c] \<and> blocks m' = blocks m"
  using append_obj [of l m a c junk e] assms unfolding routes_ok_objs route_table_objs by fastforce

text \<open>What the file means: the parsed lines in order.\<close>

definition parsed :: "(nat \<times> string) list \<Rightarrow> (string \<times> string) list \<Rightarrow> bool" where
  "parsed lines rs \<longleftrightarrow>
     list_all2 (\<lambda>(len, line) (ip, intf).
       parse_line len line = Some (Some \<lparr>ip_address = ip, output_if = intf\<rparr>)) lines rs"

text \<open>Allocations that all succeed, at addresses that are free and differ.\<close>

fun route_allocs :: "(addr \<times> addr \<times> llist_elem) list \<Rightarrow> route_alloc list" where
  "route_allocs xs = map (\<lambda>(a, c, junk). (Some a, Some (c, junk))) xs"

definition fresh_allocs :: "(addr \<times> addr \<times> llist_elem) list \<Rightarrow> 'o mem \<Rightarrow> bool" where
  "fresh_allocs xs m \<longleftrightarrow> distinct (map fst xs) \<and> distinct (map (fst o snd) xs) \<and>
     (\<forall>x \<in> set xs. objs m (fst x) = None \<and> nodes m (fst (snd x)) = None)"

lemma fresh_allocs_step:
  assumes "fresh_allocs ((a, c, junk) # xs) m" and "dom (objs m') = insert a (dom (objs m))"
    and "dom (nodes m') = insert c (dom (nodes m))"
  shows "fresh_allocs xs m'"
  unfolding fresh_allocs_def
proof (intro conjI ballI)
  fix x assume x: "x \<in> set xs"
  then have "fst x \<noteq> a" "fst (snd x) \<noteq> c" "objs m (fst x) = None" "nodes m (fst (snd x)) = None"
    using assms(1) by (auto simp: fresh_allocs_def image_iff)
  then show "objs m' (fst x) = None" "nodes m' (fst (snd x)) = None" using assms(2,3) by auto
qed (use assms(1) in \<open>auto simp: fresh_allocs_def\<close>)

lemma populate_loop_ok:
  "parsed lines rs \<Longrightarrow> length xs = length lines \<Longrightarrow> routes_ok l m \<Longrightarrow> fresh_allocs xs m \<Longrightarrow>
   \<exists>l' m'. populate_loop (route_allocs xs) lines l m = Returns (l', m') \<and> routes_ok l' m' \<and>
     route_table l' m' = route_table l m @ rs \<and> llist_cells l' m' = llist_cells l m @ map (fst o snd) xs \<and>
     dom (nodes m') = dom (nodes m) \<union> set (map (fst o snd) xs) \<and> dom (objs m') = dom (objs m) \<union> set (map fst xs) \<and>
     blocks m' = blocks m"
proof (induction lines arbitrary: rs xs l m)
  case Nil
  then show ?case by (simp add: parsed_def)
next
  case (Cons ln lines)
  obtain len line where ln: "ln = (len, line)" by (cases ln)
  from Cons.prems(1) ln obtain ip intf rs' where rs: "rs = (ip, intf) # rs'" "parsed lines rs'"
    "parse_line len line = Some (Some \<lparr>ip_address = ip, output_if = intf\<rparr>)"
    by (auto simp: parsed_def list_all2_Cons1)
  have len: "1 < len" using rs(3) by (auto simp: parse_line_def split: if_splits)
  from Cons.prems(2) obtain a c junk xs' where xs: "xs = (a, c, junk) # xs'" by (cases xs) auto
  let ?e = "\<lparr>ip_address = ip, output_if = intf\<rparr>"
  from Cons.prems(4) xs have ac: "objs m a = None" "nodes m c = None" by (simp_all add: fresh_allocs_def)
  from append_route [OF Cons.prems(3) ac, of junk ?e] obtain l' m' where
    r: "llist_append (Some (c, junk)) l (Some a) (m\<lparr>objs := (objs m)(a \<mapsto> ?e)\<rparr>) = Some (SUCCESS, l', m')"
      "routes_ok l' m'" "route_table l' m' = route_table l m @ [(ip, intf)]"
      "dom (objs m') = insert a (dom (objs m))" "dom (nodes m') = insert c (dom (nodes m))"
      "llist_cells l' m' = llist_cells l m @ [c]" "blocks m' = blocks m" by auto
  from fresh_allocs_step [OF Cons.prems(4) [unfolded xs] r(4,5)] have "fresh_allocs xs' m'" .
  with Cons.IH [OF rs(2) _ r(2), of xs'] Cons.prems(2) xs obtain l2 m2 where
    "populate_loop (route_allocs xs') lines l' m' = Returns (l2, m2)" "routes_ok l2 m2"
    "route_table l2 m2 = (route_table l m @ [(ip, intf)]) @ rs'"
    "llist_cells l2 m2 = llist_cells l' m' @ map (fst o snd) xs'"
    "dom (nodes m2) = dom (nodes m') \<union> set (map (fst o snd) xs')" "dom (objs m2) = dom (objs m') \<union> set (map fst xs')"
    "blocks m2 = blocks m'" by (auto simp: r(3))
  with r(1,4-7) rs ln xs len show ?case by simp
qed

definition route_file :: "(nat \<times> string) list \<Rightarrow> (string \<times> string) list \<Rightarrow> bool" where
  "route_file lines rs \<longleftrightarrow>
     list_all2 (\<lambda>(len, line) (ip, intf). (\<exists>sep. route_line line ip sep intf) \<and> length line < len \<and>
       len \<le> BUFSIZE \<and> length ip < IP_ADDR_SIZE \<and> length intf < IF_NAME_SIZE) lines rs"

lemma route_file_parsed: "route_file lines rs \<Longrightarrow> parsed lines rs"
  unfolding route_file_def parsed_def
  by (erule list_all2_mono) (auto intro: parse_line_route)

lemma populate_routing_list_full:
  assumes "route_file lines rs" and "length xs = length lines" and "fresh_allocs xs m"
  shows "\<exists>l m'. populate_routing_list (route_allocs xs) (Some lines) m = Returns (l, m') \<and> routes_ok l m' \<and>
     route_table l m' = rs \<and> llist_cells l m' = map (fst o snd) xs \<and>
     dom (nodes m') = dom (nodes m) \<union> set (map (fst o snd) xs) \<and> dom (objs m') = dom (objs m) \<union> set (map fst xs) \<and>
     blocks m' = Line_Buffer # Stream_Block # blocks m"
proof -
  let ?m = "m\<lparr>blocks := Line_Buffer # Stream_Block # blocks m\<rparr>"
  have "llist_cells (llist_init :: routing_entry llist) ?m = []"
    by (rule llist_cells_ok) (simp add: list_ok_Nil llist_init_def)
  moreover have "fresh_allocs xs ?m" using assms(3) by (simp add: fresh_allocs_def)
  ultimately show ?thesis using populate_loop_ok [OF route_file_parsed [OF assms(1)] assms(2) routes_ok_init(1), of ?m]
    by (simp add: populate_routing_list_def routes_ok_init)
qed

lemma populate_routing_list_ok:
  assumes "route_file lines rs" and "length xs = length lines" and "fresh_allocs xs m"
  shows "\<exists>l m'. populate_routing_list (route_allocs xs) (Some lines) m = Returns (l, m') \<and> routes_ok l m' \<and>
     route_table l m' = rs"
  using populate_routing_list_full [OF assms] by blast

lemma get_dst_sock_idx_ok:
  assumes "routes_ok l m" and "dst_ip pkt = Some d"
  shows "get_dst_sock_idx l m pkt names = Some (case map_of (rev (route_table l m)) d of
     None \<Rightarrow> -1
   | Some intf \<Rightarrow> (case find_index (\<lambda>name. intf = name) names of Some i \<Rightarrow> int i | None \<Rightarrow> 0))"
  using route_loop_ok [OF assms(1)] assms(2) by (simp add: get_dst_sock_idx_def split: option.splits)

lemma find_index_nth:
  "distinct xs \<Longrightarrow> i < length xs \<Longrightarrow> find_index (\<lambda>x. xs ! i = x) xs = Some i"
  by (induction xs arbitrary: i) (auto simp: nth_Cons' less_Suc_eq_0_disj)

lemma dst_ip_defined: "34 \<le> length pkt \<Longrightarrow> dst_ip pkt = Some (inet_ntoa (pkt ! 30) (pkt ! 31) (pkt ! 32) (pkt ! 33))"
  by (simp add: dst_ip_def at_def)

subsection \<open>Addresses and names as text\<close>

lemma show_nat_inj: "show_nat a = show_nat b \<Longrightarrow> a = b"
  by (metis digits_value_show_nat of_nat_eq_iff)

lemma digits_dot_split:
  assumes "show_nat a @ CHR ''.'' # xs = show_nat b @ CHR ''.'' # ys"
  shows "a = b \<and> xs = ys"
proof -
  have d: "\<not> is_digit CHR ''.''" by (simp add: is_digit_def)
  have "show_nat a = takeWhile is_digit (show_nat a @ CHR ''.'' # xs)"
    by (rule takeWhile_append_stop [OF show_nat_digits d, symmetric])
  also have "\<dots> = show_nat b" unfolding assms by (rule takeWhile_append_stop [OF show_nat_digits d])
  finally have "show_nat a = show_nat b" .
  with assms show ?thesis by (auto dest: show_nat_inj)
qed

lemma of_char_nat_inj: "(of_char a :: nat) = of_char b \<Longrightarrow> a = b"
  by (metis char_of_char)

lemma inet_ntoa_inj: "inet_ntoa a b c d = inet_ntoa a' b' c' d' \<longleftrightarrow> a = a' \<and> b = b' \<and> c = c' \<and> d = d'"
proof
  assume "inet_ntoa a b c d = inet_ntoa a' b' c' d'"
  then have "show_nat (of_char a) @ CHR ''.'' # show_nat (of_char b) @ CHR ''.'' # show_nat (of_char c) @
        CHR ''.'' # show_nat (of_char d) =
      show_nat (of_char a') @ CHR ''.'' # show_nat (of_char b') @ CHR ''.'' # show_nat (of_char c') @
        CHR ''.'' # show_nat (of_char d')" by (simp add: inet_ntoa_def)
  then have "(of_char a :: nat) = of_char a'" "(of_char b :: nat) = of_char b'" "(of_char c :: nat) = of_char c'"
    "(of_char d :: nat) = of_char d'"
    using digits_dot_split show_nat_inj by metis+
  then show "a = a' \<and> b = b' \<and> c = c' \<and> d = d'" by (simp add: of_char_nat_inj)
qed simp

lemma inet_ntoa_length: "length (inet_ntoa a b c d) < IP_ADDR_SIZE"
proof -
  have l: "length (show_nat (of_char x)) \<le> 3" for x :: char
  proof -
    have "(of_char x :: nat) < 10 ^ Suc 2" by (rule less_le_trans [OF nat_of_char_less_256]) simp
    from show_nat_length [OF this] show ?thesis by simp
  qed
  show ?thesis using l [of a] l [of b] l [of c] l [of d] by (simp add: inet_ntoa_def)
qed

lemma show_int_inj: "0 \<le> a \<Longrightarrow> 0 \<le> b \<Longrightarrow> show_int a = show_int b \<Longrightarrow> a = b"
  using show_nat_inj [of "nat a" "nat b"] by (simp add: show_int_def)

lemma intf_name_inj: "intf_name s i = intf_name s j \<longleftrightarrow> i = j"
  using show_int_inj [of "int i" "int j"] by (auto simp: intf_name_def)

lemma get_options_bounds:
  "get_options opts c = Returns c' \<Longrightarrow> length (cfg_switch_name c) \<le> 15 \<Longrightarrow> length (cfg_switch_name c') \<le> 15"
  by (induction opts c rule: get_options.induct) (auto split: if_splits option.splits)

lemma router_config_ok:
  assumes "router_config opts extra = Returns (c, names)"
  shows "\<exists>start. names = map (\<lambda>i. intf_name (cfg_switch_name c) (start + i)) [0..<nat (cfg_n_intfs c)] \<and>
     start \<le> 1 \<and> 0 < cfg_n_intfs c \<and> cfg_n_intfs c \<le> N_MAX_TAPS \<and> length (cfg_switch_name c) \<le> 15"
proof (cases "get_options opts \<lparr>cfg_switch_name = [], cfg_n_intfs = 0, cfg_routing_file = None\<rparr>")
  case (Returns c')
  with assms have "c' = c" by (auto simp: router_config_def Let_def split: if_splits)
  with Returns get_options_bounds [OF Returns] assms show ?thesis
    by (intro exI [of _ "if hd (cfg_switch_name c) = CHR ''h'' then 0 else 1"])
      (auto simp: router_config_def Let_def split: if_splits)
qed (use assms in \<open>simp_all add: router_config_def\<close>)

lemma router_names:
  assumes "router_config opts extra = Returns (c, names)"
  shows "distinct names" "length names = nat (cfg_n_intfs c)" "\<forall>x \<in> set names. length x < IF_NAME_SIZE"
proof -
  from router_config_ok [OF assms] obtain start where
    n: "names = map (\<lambda>i. intf_name (cfg_switch_name c) (start + i)) [0..<nat (cfg_n_intfs c)]"
    and b: "start \<le> 1" "cfg_n_intfs c \<le> N_MAX_TAPS" "length (cfg_switch_name c) \<le> 15" by blast
  show "distinct names" unfolding n by (auto simp: distinct_map inj_on_def intf_name_inj)
  show "length names = nat (cfg_n_intfs c)" unfolding n by simp
  have "length (intf_name (cfg_switch_name c) (start + i)) < 100" if "i < nat (cfg_n_intfs c)" for i
  proof -
    have "fits_int (int (start + i))" using that b by auto
    then have "length (show_int (int (start + i))) \<le> 11" by (rule show_int_length)
    with b(3) show ?thesis by (simp add: intf_name_def)
  qed
  then show "\<forall>x \<in> set names. length x < IF_NAME_SIZE" unfolding n by simp
qed

subsection \<open>Properties\<close>

text \<open>A routes file of two lines as they stand in the repository, and memory for them.\<close>

definition tab :: string where "tab = [CHR 0x09]"

definition demo_file :: "(nat \<times> string) list" where
  "demo_file = [(120, ''10.0.0.1'' @ tab @ ''=>'' @ tab @ ''s1-eth1'' @ [CHR 0x0A]),
                (120, ''10.0.0.2'' @ tab @ ''=>'' @ tab @ ''s1-eth2'')]"

definition demo_rs :: "(string \<times> string) list" where
  "demo_rs = [(''10.0.0.1'', ''s1-eth1''), (''10.0.0.2'', ''s1-eth2'')]"

definition demo_mallocs :: "(addr \<times> addr \<times> llist_elem) list" where
  "demo_mallocs = [(11, 1, raw_cell), (12, 2, raw_cell)]"

definition demo_pkt :: string where
  "demo_pkt = replicate 30 NUL @ [CHR 0x0A, NUL, NUL, CHR 0x02]"

definition demo_opts :: "(char \<times> string) list" where
  "demo_opts = [(CHR ''i'', ''s1''), (CHR ''n'', ''3''), (CHR ''f'', ''s1_routes.txt'')]"

lemma demo_plain: "plain ''10.0.0.1''" "plain ''10.0.0.2''" "plain ''s1-eth1''" "plain ''s1-eth2''"
  by (simp_all add: plain_def blank_def)

lemma demo_file_ok: "route_file demo_file demo_rs"
proof -
  have "route_line (''10.0.0.1'' @ tab @ ''=>'' @ tab @ ''s1-eth1'' @ [CHR 0x0A]) ''10.0.0.1'' (tab @ ''=>'' @ tab) ''s1-eth1''"
    unfolding route_line_def using demo_plain by (simp add: tab_def blank_def separates_def)
  moreover have "route_line (''10.0.0.2'' @ tab @ ''=>'' @ tab @ ''s1-eth2'') ''10.0.0.2'' (tab @ ''=>'' @ tab) ''s1-eth2''"
    unfolding route_line_def using demo_plain by (simp add: tab_def blank_def separates_def)
  ultimately show ?thesis
    by (auto simp: route_file_def demo_file_def demo_rs_def tab_def)
qed

lemma demo_mallocs_ok: "fresh_allocs demo_mallocs no_mem" "length demo_mallocs = length demo_file"
  by (simp_all add: fresh_allocs_def demo_mallocs_def no_mem_def demo_file_def)

lemma demo_dst: "dst_ip demo_pkt = Some ''10.0.0.2''"
  by code_simp

lemma demo_config: "router_config demo_opts 0 = Returns (\<lparr>cfg_switch_name = ''s1'', cfg_n_intfs = 3,
    cfg_routing_file = Some ''s1_routes.txt''\<rparr>, [''s1-eth1'', ''s1-eth2'', ''s1-eth3''])"
  by code_simp

text \<open>
  C9: A routes file in the format of the repository is read into the list of routes, and the
  lookup of a packet (34 bytes or more) is the lookup of its destination address in the file, the
  last line for an address counting: -1 without a line, the index of the line's interface if the
  router has it, and interface 0 otherwise.
\<close>

theorem routing_lookup_spec:
  assumes "route_file lines rs" and "length xs = length lines" and "fresh_allocs xs m" and "34 \<le> length pkt"
  shows "\<exists>l m'. populate_routing_list (route_allocs xs) (Some lines) m = Returns (l, m') \<and>
     get_dst_sock_idx l m' pkt names = Some
       (case map_of (rev rs) (inet_ntoa (pkt ! 30) (pkt ! 31) (pkt ! 32) (pkt ! 33)) of
          None \<Rightarrow> -1
        | Some intf \<Rightarrow> (case find_index (\<lambda>name. intf = name) names of Some i \<Rightarrow> int i | None \<Rightarrow> 0))"
  using populate_routing_list_ok [OF assms(1-3)] get_dst_sock_idx_ok [OF _ dst_ip_defined [OF assms(4)]] by metis

theorem routing_lookup_spec_witness:
  "\<exists>l m'. populate_routing_list (route_allocs demo_mallocs) (Some demo_file) no_mem = Returns (l, m') \<and>
     get_dst_sock_idx l m' demo_pkt [''s1-eth1'', ''s1-eth2''] = Some 1 \<and>
     get_dst_sock_idx l m' demo_pkt [''s1-eth1'', ''s1-eth3''] = Some 0"
proof -
  have p: "34 \<le> length demo_pkt" by (simp add: demo_pkt_def)
  then have "inet_ntoa (demo_pkt ! 30) (demo_pkt ! 31) (demo_pkt ! 32) (demo_pkt ! 33) = ''10.0.0.2''"
    using dst_ip_defined demo_dst by simp
  with routing_lookup_spec [OF demo_file_ok demo_mallocs_ok(2,1) p, of "[''s1-eth1'', ''s1-eth2'']"]
    routing_lookup_spec [OF demo_file_ok demo_mallocs_ok(2,1) p, of "[''s1-eth1'', ''s1-eth3'']"]
  show ?thesis by (auto simp: demo_rs_def)
qed

text \<open>
  C10: The names of a router's interfaces are distinct and fit their buffers, and a packet whose
  last route names the router's interface number i is sent to the socket with that number.
\<close>

theorem router_forwards:
  assumes "router_config opts extra = Returns (c, names)"
    and "route_file lines rs" and "length xs = length lines" and "fresh_allocs xs m" and "34 \<le> length pkt"
    and "map_of (rev rs) (inet_ntoa (pkt ! 30) (pkt ! 31) (pkt ! 32) (pkt ! 33)) = Some (names ! i)"
    and "i < length names"
  shows "distinct names \<and> (\<forall>x \<in> set names. length x < IF_NAME_SIZE) \<and>
     (\<exists>l m'. populate_routing_list (route_allocs xs) (Some lines) m = Returns (l, m') \<and>
        get_dst_sock_idx l m' pkt names = Some (int i))"
proof -
  note n = router_names [OF assms(1)]
  from populate_routing_list_ok [OF assms(2-4)] obtain l m' where
    p: "populate_routing_list (route_allocs xs) (Some lines) m = Returns (l, m')" "routes_ok l m'"
      "route_table l m' = rs" by blast
  have "get_dst_sock_idx l m' pkt names = Some (int i)"
    using get_dst_sock_idx_ok [OF p(2) dst_ip_defined [OF assms(5)], of names] assms(6)
      find_index_nth [OF n(1) assms(7)] by (simp add: p(3))
  with p(1) n show ?thesis by blast
qed

theorem router_forwards_witness:
  "\<exists>l m' c names. router_config demo_opts 0 = Returns (c, names) \<and>
     populate_routing_list (route_allocs demo_mallocs) (Some demo_file) no_mem = Returns (l, m') \<and>
     get_dst_sock_idx l m' demo_pkt names = Some 1"
proof -
  have p: "34 \<le> length demo_pkt" by (simp add: demo_pkt_def)
  then have "inet_ntoa (demo_pkt ! 30) (demo_pkt ! 31) (demo_pkt ! 32) (demo_pkt ! 33) = ''10.0.0.2''"
    using dst_ip_defined demo_dst by simp
  with router_forwards [OF demo_config demo_file_ok demo_mallocs_ok(2,1) p, of 1]
  show ?thesis using demo_config by (simp add: demo_rs_def)
qed

text \<open>
  The text of a destination address fits the 20-byte buffer and is different for different
  addresses, so two packets are looked up alike only if their address bytes are equal.
\<close>

theorem dst_ip_unique:
  assumes "34 \<le> length p" and "34 \<le> length q"
  shows "(dst_ip p = dst_ip q \<longleftrightarrow> (\<forall>k \<in> {30, 31, 32, 33}. p ! k = q ! k)) \<and>
     length (the (dst_ip p)) < IP_ADDR_SIZE"
  using dst_ip_defined [OF assms(1)] dst_ip_defined [OF assms(2)]
  by (simp add: inet_ntoa_inj inet_ntoa_length)

theorem dst_ip_unique_witness:
  "dst_ip demo_pkt \<noteq> dst_ip (replicate 34 NUL) \<and> length (the (dst_ip demo_pkt)) < IP_ADDR_SIZE"
  using dst_ip_unique [of demo_pkt "replicate 34 NUL"] by (simp add: demo_pkt_def nth_append)

text \<open>
  \<open>cleanup\<close> never fails on a list of routes and frees every list cell and nothing else: all the
  routing entries, the stream and the line buffer stay allocated.
\<close>

lemma cleanup_ok:
  assumes "routes_ok l m"
  shows "\<exists>l' m'. cleanup l m = Some (l', m') \<and> llist_items l' m' = [] \<and> objs m' = objs m \<and> blocks m' = blocks m \<and>
     nodes m' = (\<lambda>b. if b \<in> set (llist_cells l m) then None else nodes m b)"
proof -
  let ?as = "llist_cells l m"
  have ok: "list_ok (nodes m) l ?as" using assms by (simp add: routes_ok_def llist_invD)
  from llist_pop_ok [OF ok] obtain l1 m1 where
    p: "llist_pop (Some l) m = Some ((case items (nodes m) ?as of [] \<Rightarrow> None | x # _ \<Rightarrow> x), Some l1, m1)"
      "list_ok (nodes m1) l1 (tl ?as)" "objs m1 = objs m" "?as \<noteq> [] \<longrightarrow> nodes m1 (hd ?as) = None"
      "agree_off (set ?as) (nodes m) (nodes m1)" "blocks m1 = blocks m" by blast
  show ?thesis
  proof (cases ?as)
    case Nil
    with p llist_inv_items [OF p(2)] show ?thesis by (auto simp: cleanup_def agree_off_def fun_eq_iff)
  next
    case (Cons a as)
    then have "items (nodes m) ?as = llist_items l m" "llist_items l m \<noteq> []"
      by (simp_all add: llist_items_def)
    then obtain x xs where x: "items (nodes m) ?as = x # xs" "x \<noteq> None"
      using assms by (cases "llist_items l m") (auto simp: routes_ok_def)
    have p2: "list_ok (nodes m1) l1 as" using p(2) Cons by simp
    from llist_destroy_ok [OF p2] obtain l2 m2 where
      d: "llist_destroy l1 m1 = Some (l2, m2)" "list_ok (nodes m2) l2 []" "objs m2 = objs m1"
        "\<forall>a \<in> set as. nodes m2 a = None" "agree_off (set as) (nodes m1) (nodes m2)" "blocks m2 = blocks m1" by blast
    have "a \<notin> set as" using ok Cons by (simp add: list_ok_def)
    then have "nodes m2 a = None" using agree_offD [OF d(5), of a] p(4) Cons by simp
    moreover have "nodes m2 b = nodes m b" if "b \<notin> set ?as" for b
      using agree_offD [OF d(5), of b] agree_offD [OF p(5) that] that Cons by simp
    ultimately have "nodes m2 = (\<lambda>b. if b \<in> set ?as then None else nodes m b)"
      using d(4) Cons by (auto simp: fun_eq_iff)
    then show ?thesis using p(1,3,6) d x llist_inv_items [OF d(2)] by (auto simp: cleanup_def)
  qed
qed

end
