(* ===== verification/Router_Thread.thy ===== *)
theory Router_Thread
  imports Round_Protocol Routing_Table
begin

text \<open>
  The worker of a router under virtual time, \<open>process_thread\<close> in \<open>utils.c\<close>: poll the raw sockets,
  receive, look up the route, send, and charge every call to the time stub; with nothing to do,
  give up the round and wait in \<open>poll\<close>.

  \<open>thread_step\<close> is one action between two shared accesses, for one answer \<open>env\<close> of the operating
  system. \<open>thread_phase\<close> maps its points to the phases of \<open>Round_Protocol\<close>; the interpretations of
  \<open>vt_worker\<close> and \<open>vt_worker_reliable\<close> show that the thread keeps the contract, so that the
  protocol theorems hold of the router. Two further fields record what was received and sent.
\<close>

subsection \<open>State\<close>

text \<open>
  What the thread reads and never changes: the routes and the interface names, which every
  router has, and the cost table of the one under virtual time.
\<close>

record forwarder =
  rt_routes :: "routing_entry llist"
  rt_mem :: "routing_entry mem"
  rt_names :: "string list"

record router = forwarder +
  rt_tbl :: func_times

text \<open>The five calls that are charged, by what follows them.\<close>

datatype stub_call = K_Polled | K_Flushed | K_Received | K_Routed | K_Sent

fun call_name :: "stub_call \<Rightarrow> string" where
  "call_name K_Polled = ''poll''"
| "call_name K_Flushed = ''flush_buffer''"
| "call_name K_Received = ''recvfrom''"
| "call_name K_Routed = ''get_dst_sock_idx''"
| "call_name K_Sent = ''send_packet''"

text \<open>
  The points of the function. \<open>T_Stub k\<close> is the call of \<open>update_stub\<close> for \<open>k\<close>, \<open>T_Read k\<close> its
  \<open>pipe_read\<close>, \<open>T_Ret r k\<close> the test of the value it returned.
\<close>

datatype thread_pc =
    T_Start | T_FirstRead | T_Repeat | T_Poll
  | T_Stub stub_call | T_Read stub_call | T_Ret int stub_call
  | T_PollRet | T_Skip | T_Scan | T_Recv | T_Got | T_Route
  | T_Block | T_SendBlocked | T_BlockPoll | T_Unblock | T_ResumeRead | T_Exited

record thread =
  t_pc :: thread_pc
  t_time :: int
  t_ret :: int
  t_eintr :: bool
  t_revents :: "bool list"
  t_i :: nat
  t_runnable :: bool
  t_buf :: string
  t_size :: int
  t_dst :: int
  t_recvd :: "(string \<times> int) list"
  t_sent :: "(nat \<times> string \<times> int) list"

definition thread_init :: thread where
  "thread_init = \<lparr>t_pc = T_Start, t_time = 0, t_ret = 0, t_eintr = False, t_revents = [], t_i = 0,
     t_runnable = False, t_buf = replicate BUFSIZE NUL, t_size = 0, t_dst = 0, t_recvd = [], t_sent = []\<rparr>"

text \<open>
  The answers of the system: whether \<open>poll_set\<close> is allocated and all sockets open (\<open>thread_start\<close> in \<open>Sockets\<close>), the value of a stub call that runs off its
  end, the number of bytes a message's \<open>write\<close> took (with any other number than its length the
  process ends, and there is no step), the result of \<open>poll\<close> with errno and the readable sockets, what \<open>recvfrom\<close> delivers
  (\<open>None\<close> for an error).
\<close>

record env =
  e_open :: bool
  e_fall :: int
  e_written :: int
  e_ret :: int
  e_eintr :: bool
  e_revents :: "bool list"
  e_recv :: "string option"

subsection \<open>Steps\<close>

text \<open>Where the thread goes on when the stub call for \<open>k\<close> lets it.\<close>

definition after_call :: "stub_call \<Rightarrow> thread \<Rightarrow> thread" where
  "after_call k w =
     (case k of
        K_Polled \<Rightarrow> w\<lparr>t_pc := T_PollRet\<rparr>
      | K_Flushed \<Rightarrow> w\<lparr>t_pc := T_Recv\<rparr>
      | K_Received \<Rightarrow> w\<lparr>t_pc := T_Got\<rparr>
      | K_Routed \<Rightarrow> w\<lparr>t_pc := T_Route\<rparr>
      | K_Sent \<Rightarrow> w\<lparr>t_pc := T_Scan, t_i := t_i w + 1\<rparr>)"

definition recv_buf :: "string option \<Rightarrow> string" where
  "recv_buf r = (case r of None \<Rightarrow> replicate BUFSIZE NUL | Some bytes \<Rightarrow> take BUFSIZE (bytes @ replicate BUFSIZE NUL))"

definition recv_size :: "string option \<Rightarrow> int" where
  "recv_size r = (case r of None \<Rightarrow> -1 | Some bytes \<Rightarrow> int (min BUFSIZE (length bytes)))"

text \<open>
  The \<open>pipe_read\<close> of a stub call, or of the resume after blocking, with the test of the result by
  the caller: the thread ends or goes on with the new time. (A read that fails ends the process; then
  too there is no step.)
\<close>

definition resume_with :: "shared \<Rightarrow> thread \<Rightarrow> (int \<Rightarrow> bool) \<Rightarrow> (thread \<Rightarrow> thread) \<Rightarrow> (shared \<times> thread) option" where
  "resume_with s w quits go =
     (case pipe_read False (m2t s) of
        Returns (v, rest) \<Rightarrow>
          Some (s\<lparr>m2t := rest\<rparr>, if quits v then w\<lparr>t_time := v, t_pc := T_Exited\<rparr> else go (w\<lparr>t_time := v\<rparr>))
      | _ \<Rightarrow> None)"

text \<open>Nothing to do: give up the round, wait in \<open>poll\<close>, and come back when a packet is there.\<close>

definition block_step :: "router \<Rightarrow> env \<Rightarrow> shared \<Rightarrow> thread \<Rightarrow> (shared \<times> thread) option" where
  [simp]: "block_step R e s w =
     (case t_pc w of
        T_Block \<Rightarrow> Some (s\<lparr>is_blocked := True\<rparr>, w\<lparr>t_pc := T_SendBlocked, t_time := 0\<rparr>)
      | T_SendBlocked \<Rightarrow> 
          (case pipe_send (e_written e) (t2m s) THREAD_BLOCKED of
             Returns fd \<Rightarrow> Some (s\<lparr>t2m := fd\<rparr>, w\<lparr>t_pc := T_BlockPoll\<rparr>)
           | _ \<Rightarrow> None)
      | T_BlockPoll \<Rightarrow>
          if e_ret e < 0 \<and> e_eintr e then Some (s, w)
          else if e_ret e < 0 then Some (s, w\<lparr>t_pc := T_Exited\<rparr>)
          else Some (s, w\<lparr>t_pc := if \<exists>i \<in> {0..<length (rt_names R)}. at (e_revents e) i = Some True then T_Unblock else T_BlockPoll,
                         t_revents := e_revents e\<rparr>)
      | T_Unblock \<Rightarrow> Some (s\<lparr>is_blocked := False\<rparr>, w\<lparr>t_pc := T_ResumeRead\<rparr>)
      | T_ResumeRead \<Rightarrow> resume_with s w (\<lambda>v. v \<le> 0 \<or> stop s) (\<lambda>w. w\<lparr>t_pc := T_Skip\<rparr>)
      | _ \<Rightarrow> None)"

text \<open>One action of the thread.\<close>

definition thread_step :: "router \<Rightarrow> env \<Rightarrow> shared \<Rightarrow> thread \<Rightarrow> (shared \<times> thread) option" where
  "thread_step R e s w =
     (let n_intfs = length (rt_names R)
      in case t_pc w of
        T_Start \<Rightarrow> Some (s, w\<lparr>t_pc := if e_open e then T_FirstRead else T_Exited, t_time := 0\<rparr>)
      | T_FirstRead \<Rightarrow>
          resume_with s w (\<lambda>v. fst (update_stub_end None v) < 0) (\<lambda>w. w\<lparr>t_pc := T_Repeat\<rparr>)
      | T_Repeat \<Rightarrow> Some (s, w\<lparr>t_pc := if stop s then T_Exited else T_Poll\<rparr>)
      | T_Poll \<Rightarrow>
          Some (s, w\<lparr>t_pc := T_Stub K_Polled, t_ret := e_ret e, t_eintr := e_eintr e, t_revents := e_revents e\<rparr>)
      | T_Stub k \<Rightarrow>
          (case update_stub_begin (rt_tbl R) (e_fall e) (e_written e) (t_time w) (t2m s) (Some (call_name k)) of
             Returns (Stub_Done r left) \<Rightarrow> Some (s, w\<lparr>t_pc := T_Ret r k, t_time := left\<rparr>)
           | Returns (Stub_Waits left fd) \<Rightarrow> Some (s\<lparr>t2m := fd\<rparr>, w\<lparr>t_pc := T_Read k, t_time := left\<rparr>)
           | _ \<Rightarrow> None)
      | T_Read k \<Rightarrow>
          resume_with s w (\<lambda>v. fst (update_stub_end (Some (call_name k)) v) < 0 \<or> stop s) (after_call k)
      | T_Ret r k \<Rightarrow> Some (s, if r < 0 \<or> stop s then w\<lparr>t_pc := T_Exited\<rparr> else after_call k w)
      | T_PollRet \<Rightarrow>
          Some (s, w\<lparr>t_pc := if t_ret w < 0 \<and> t_eintr w then T_Repeat
                            else if t_ret w < 0 then T_Exited else T_Skip\<rparr>)
      | T_Skip \<Rightarrow> Some (s, w\<lparr>t_pc := T_Scan, t_runnable := False, t_i := 0\<rparr>)
      | T_Scan \<Rightarrow>
          if t_i w < n_intfs
          then if at (t_revents w) (t_i w) = Some True
               then Some (s, w\<lparr>t_pc := T_Stub K_Flushed, t_runnable := True, t_buf := replicate BUFSIZE NUL\<rparr>)
               else Some (s, w\<lparr>t_i := t_i w + 1\<rparr>)
          else Some (s, w\<lparr>t_pc := if t_runnable w then T_Repeat else T_Block\<rparr>)
      | T_Recv \<Rightarrow>
          (let buf = recv_buf (e_recv e); size = recv_size (e_recv e)
           in Some (s, w\<lparr>t_pc := T_Stub K_Received, t_buf := buf, t_size := size,
                        t_recvd := t_recvd w @ (if size > 0 then [(buf, size)] else [])\<rparr>))
      | T_Got \<Rightarrow>
          if t_size w > 0
          then (case get_dst_sock_idx (rt_routes R) (rt_mem R) (t_buf w) (rt_names R) of
                  None \<Rightarrow> None
                | Some d \<Rightarrow> Some (s, w\<lparr>t_pc := T_Stub K_Routed, t_dst := d\<rparr>))
          else Some (s, w\<lparr>t_pc := T_Scan, t_i := t_i w + 1\<rparr>)
      | T_Route \<Rightarrow>
          if t_dst w \<noteq> -1
          then if 0 \<le> t_dst w \<and> t_dst w < int n_intfs
               then Some (s, w\<lparr>t_pc := T_Stub K_Sent, t_sent := t_sent w @ [(nat (t_dst w), t_buf w, t_size w)]\<rparr>)
               else None
          else Some (s, w\<lparr>t_pc := T_Repeat\<rparr>)
      | T_Block \<Rightarrow> block_step R e s w
      | T_SendBlocked \<Rightarrow> block_step R e s w
      | T_BlockPoll \<Rightarrow> block_step R e s w
      | T_Unblock \<Rightarrow> block_step R e s w
      | T_ResumeRead \<Rightarrow> block_step R e s w
      | T_Exited \<Rightarrow> None)"

subsection \<open>As a worker of the protocol\<close>

definition thread_phase :: "thread \<Rightarrow> phase" where
  "thread_phase w =
     (case t_pc w of
        T_Start \<Rightarrow> W_Await | T_FirstRead \<Rightarrow> W_Await | T_Read k \<Rightarrow> W_Await | T_ResumeRead \<Rightarrow> W_Await
      | T_SendBlocked \<Rightarrow> W_Parking
      | T_BlockPoll \<Rightarrow> W_Parked | T_Unblock \<Rightarrow> W_Parked
      | T_Exited \<Rightarrow> W_Exited
      | _ \<Rightarrow> W_Run (t_time w))"

text \<open>What a step does to the time; an end that neither a message nor the stop flag caused is a fault.\<close>

definition thread_event :: "router \<Rightarrow> env \<Rightarrow> shared \<Rightarrow> thread \<Rightarrow> wevent" where
  "thread_event R e s w =
     (case t_pc w of
        T_Start \<Rightarrow> if e_open e then Silent else Fault
      | T_Stub k \<Rightarrow>
          (case func_time (rt_tbl R) (call_name k) of
             Some (Some c) \<Rightarrow> Charge c
           | _ \<Rightarrow> Silent)
      | T_Ret r k \<Rightarrow> if r < 0 then Fault else Silent
      | T_PollRet \<Rightarrow> if t_ret w < 0 \<and> \<not> t_eintr w then Fault else Silent
      | T_Block \<Rightarrow> Forfeit (t_time w)
      | T_BlockPoll \<Rightarrow> if e_ret e < 0 \<and> \<not> e_eintr e then Fault else Silent
      | _ \<Rightarrow> Silent)"

definition router_worker :: "router \<Rightarrow> shared \<Rightarrow> thread \<Rightarrow> wevent \<Rightarrow> shared \<Rightarrow> thread \<Rightarrow> bool" where
  "router_worker R s w ev s' w' \<longleftrightarrow>
     (\<exists>e. thread_step R e s w = Some (s', w') \<and> ev = thread_event R e s w)"

text \<open>The router whose system calls do not fail and whose stub returns no negative garbage.\<close>

definition env_good :: "env \<Rightarrow> bool" where
  "env_good e \<longleftrightarrow> e_open e \<and> 0 \<le> e_fall e \<and> (0 \<le> e_ret e \<or> e_eintr e)"

definition reliable_worker :: "router \<Rightarrow> shared \<Rightarrow> thread \<Rightarrow> wevent \<Rightarrow> shared \<Rightarrow> thread \<Rightarrow> bool" where
  "reliable_worker R s w ev s' w' \<longleftrightarrow>
     (\<exists>e. env_good e \<and> thread_step R e s w = Some (s', w') \<and> ev = thread_event R e s w)"

text \<open>A router set up by \<open>init_func_times\<close> and \<open>populate_routing_list\<close>.\<close>

definition router_ok :: "router \<Rightarrow> bool" where
  "router_ok R \<longleftrightarrow> table_ok (rt_tbl R) \<and> routes_ok (rt_routes R) (rt_mem R) \<and> rt_names R \<noteq> []"

lemma call_time: "router_ok R \<Longrightarrow> func_time (rt_tbl R) (call_name k) = Some (Some 50)"
  by (cases k) (simp_all add: router_ok_def func_costs_def func_time_named)

definition running :: "thread_pc \<Rightarrow> bool" where
  "running pc \<longleftrightarrow> pc \<notin> {T_Start, T_FirstRead, T_ResumeRead, T_SendBlocked, T_BlockPoll, T_Unblock, T_Exited} \<and>
     (\<forall>k. pc \<noteq> T_Read k)"

lemma phase_running: "running (t_pc w) \<Longrightarrow> thread_phase w = W_Run (t_time w)"
  by (auto simp: running_def thread_phase_def split: thread_pc.split)

definition thread_ok :: "router \<Rightarrow> thread \<Rightarrow> bool" where
  "thread_ok R w \<longleftrightarrow>
     (running (t_pc w) \<longrightarrow> 0 \<le> t_time w) \<and> length (t_buf w) = BUFSIZE \<and>
     -1 \<le> t_dst w \<and> t_dst w < int (length (rt_names R))"

lemma stub_step:
  assumes R: "router_ok R" and pc: "t_pc w = T_Stub k" and t: "0 \<le> t_time w"
  shows "thread_step R e s w =
     (if 50 < t_time w then Some (s, w\<lparr>t_pc := T_Ret (e_fall e) k, t_time := t_time w - 50\<rparr>)
      else if e_written e = int (length (show_int (50 - t_time w)))
      then Some (s\<lparr>t2m := sent (t2m s) (50 - t_time w)\<rparr>, w\<lparr>t_pc := T_Read k, t_time := t_time w - 50\<rparr>)
      else None)"
  using call_time [OF R, of k] pc
  by (simp add: thread_step_def update_stub_begin_def pipe_send_def)

lemma after_call_fields [simp]:
  "t_time (after_call k w) = t_time w" "t_buf (after_call k w) = t_buf w" "t_dst (after_call k w) = t_dst w"
  "running (t_pc (after_call k w))"
  by (auto simp: after_call_def running_def split: stub_call.split)

lemma get_dst_range:
  assumes "router_ok R" and "length buf = BUFSIZE"
  shows "\<exists>d. get_dst_sock_idx (rt_routes R) (rt_mem R) buf (rt_names R) = Some d \<and>
     -1 \<le> d \<and> d < int (length (rt_names R))"
proof -
  have "dst_ip buf = Some (inet_ntoa (buf ! 30) (buf ! 31) (buf ! 32) (buf ! 33))"
    using assms(2) by (intro dst_ip_defined) simp
  from get_dst_sock_idx_ok [OF _ this] assms(1) find_index_Some [of _ "rt_names R"] show ?thesis
    by (auto simp: router_ok_def split: option.splits)
qed

lemma recv_buf_length [simp]: "length (recv_buf r) = BUFSIZE"
  by (auto simp: recv_buf_def min_def split: option.split)

lemma resume_with_cases:
  assumes "resume_with s w quits go = Some (s', w')"
  obtains v rest where "pipe_read False (m2t s) = Returns (v, rest)" "s' = s\<lparr>m2t := rest\<rparr>"
    "w' = (if quits v then w\<lparr>t_time := v, t_pc := T_Exited\<rparr> else go (w\<lparr>t_time := v\<rparr>))"
  using assms by (auto simp: resume_with_def split: outcome.splits)

lemma resume_simulates:
  assumes st: "resume_with s w quits go = Some (s', w')" and w: "thread_phase w = W_Await" "thread_ok R w"
    and q: "\<And>v. quits v \<Longrightarrow> v \<le> 0 \<or> stop s" and g: "\<And>v. \<not> quits v \<Longrightarrow> 0 \<le> v"
    and go: "\<And>v. t_time (go (w\<lparr>t_time := v\<rparr>)) = v \<and> running (t_pc (go (w\<lparr>t_time := v\<rparr>))) \<and>
       t_buf (go (w\<lparr>t_time := v\<rparr>)) = t_buf w \<and> t_dst (go (w\<lparr>t_time := v\<rparr>)) = t_dst w"
  shows "thread_ok R w' \<and> worker_step s (thread_phase w) Silent s' (thread_phase w')"
proof -
  from st obtain v rest where r: "pipe_read False (m2t s) = Returns (v, rest)" "s' = s\<lparr>m2t := rest\<rparr>"
    "w' = (if quits v then w\<lparr>t_time := v, t_pc := T_Exited\<rparr> else go (w\<lparr>t_time := v\<rparr>))"
    by (rule resume_with_cases)
  show ?thesis
  proof (cases "quits v")
    case True
    then have "thread_phase w' = W_Exited" "thread_ok R w'"
      using r(3) w(2) by (simp_all add: thread_phase_def thread_ok_def running_def)
    with r(1,2) w(1) q [OF True] show ?thesis by (simp add: w_quit)
  next
    case False
    then have "w' = go (w\<lparr>t_time := v\<rparr>)" using r(3) by simp
    with go [of v] g [OF False] w(2) have "thread_phase w' = W_Run v" "thread_ok R w'"
      by (simp_all add: phase_running thread_ok_def)
    with r(1,2) w(1) g [OF False] show ?thesis by (simp add: w_go)
  qed
qed

text \<open>A silent step inside a phase, and the end of a running thread.\<close>

lemma stays:
  "thread_phase w = p \<Longrightarrow> thread_phase w' = p \<Longrightarrow> p \<noteq> W_Exited \<Longrightarrow> worker_step s (thread_phase w) Silent s (thread_phase w')"
  by (simp add: w_internal)

lemma stub_simulates:
  assumes R: "router_ok R" and ok: "thread_ok R w" and st: "thread_step R e s w = Some (s', w')" and T_Stub: "t_pc w = T_Stub k"
  shows "thread_ok R w' \<and> worker_step s (thread_phase w) (thread_event R e s w) s' (thread_phase w')"
proof -
  have t: "0 \<le> t_time w" using ok T_Stub by (simp add: thread_ok_def running_def)
  have ph: "thread_phase w = W_Run (t_time w)" using T_Stub by (simp add: thread_phase_def)
  have ev: "thread_event R e s w = Charge 50" using T_Stub call_time [OF R] by (simp add: thread_event_def)
  show ?thesis
  proof (cases "50 < t_time w")
    case True
    with st stub_step [OF R T_Stub t] have "s' = s" "w' = w\<lparr>t_pc := T_Ret (e_fall e) k, t_time := t_time w - 50\<rparr>"
      by simp_all
    with ok True show ?thesis unfolding ph ev
      by (simp add: thread_ok_def thread_phase_def w_charge)
  next
    case False
    with st stub_step [OF R T_Stub t] have "s' = s\<lparr>t2m := sent (t2m s) (50 - t_time w)\<rparr>"
      "w' = w\<lparr>t_pc := T_Read k, t_time := t_time w - 50\<rparr>" by (auto split: if_splits)
    with ok False t show ?thesis unfolding ph ev
      by (simp add: thread_ok_def thread_phase_def running_def w_report)
  qed
qed

lemma ret_simulates:
  assumes R: "router_ok R" and ok: "thread_ok R w" and st: "thread_step R e s w = Some (s', w')" and T_Ret: "t_pc w = T_Ret r k"
  shows "thread_ok R w' \<and> worker_step s (thread_phase w) (thread_event R e s w) s' (thread_phase w')"
proof -
  have t: "0 \<le> t_time w" "thread_phase w = W_Run (t_time w)"
    using ok T_Ret by (simp_all add: thread_ok_def running_def thread_phase_def)
  show ?thesis
  proof (cases "r < 0 \<or> stop s")
    case True
    with st T_Ret have "s' = s" "w' = w\<lparr>t_pc := T_Exited\<rparr>" by (simp_all add: thread_step_def)
    with True T_Ret ok show ?thesis unfolding t
      by (auto simp: thread_event_def thread_phase_def thread_ok_def running_def intro: w_fault w_stop)
  next
    case False
    with st T_Ret have "s' = s" "w' = after_call k w" by (simp_all add: thread_step_def)
    with False T_Ret ok t show ?thesis
      by (simp add: thread_event_def thread_ok_def phase_running w_internal)
  qed
qed

lemma thread_simulates:
  assumes R: "router_ok R" and ok: "thread_ok R w" and st: "thread_step R e s w = Some (s', w')"
  shows "thread_ok R w' \<and> worker_step s (thread_phase w) (thread_event R e s w) s' (thread_phase w')"
proof (cases "t_pc w")
  case (T_Stub k)
  then show ?thesis by (rule stub_simulates [OF R ok st])
next
  case T_FirstRead
  then have pe: "thread_phase w = W_Await" "thread_event R e s w = Silent"
    by (simp_all add: thread_phase_def thread_event_def)
  have "resume_with s w (\<lambda>v. fst (update_stub_end None v) < 0) (\<lambda>w. w\<lparr>t_pc := T_Repeat\<rparr>) = Some (s', w')"
    using st T_FirstRead by (simp add: thread_step_def)
  then show ?thesis unfolding pe(2)
    by (rule resume_simulates [OF _ pe(1) ok]) (auto simp: update_stub_end_def running_def split: if_splits)
next
  case (T_Read k)
  then have pe: "thread_phase w = W_Await" "thread_event R e s w = Silent"
    by (simp_all add: thread_phase_def thread_event_def)
  have "resume_with s w (\<lambda>v. fst (update_stub_end (Some (call_name k)) v) < 0 \<or> stop s) (after_call k) = Some (s', w')"
    using st T_Read by (simp add: thread_step_def)
  then show ?thesis unfolding pe(2)
    by (rule resume_simulates [OF _ pe(1) ok]) (auto simp: update_stub_end_def split: if_splits)
next
  case T_ResumeRead
  then have pe: "thread_phase w = W_Await" "thread_event R e s w = Silent"
    by (simp_all add: thread_phase_def thread_event_def)
  have "resume_with s w (\<lambda>v. v \<le> 0 \<or> stop s) (\<lambda>w. w\<lparr>t_pc := T_Skip\<rparr>) = Some (s', w')"
    using st T_ResumeRead by (simp add: thread_step_def)
  then show ?thesis unfolding pe(2)
    by (rule resume_simulates [OF _ pe(1) ok]) (auto simp: running_def split: if_splits)
next
  case T_Got
  then show ?thesis using st ok get_dst_range [OF R, of "t_buf w"]
    by (auto simp: thread_step_def thread_event_def thread_phase_def thread_ok_def running_def w_internal
        split: if_splits option.splits)
next
  case (T_Ret r k)
  then show ?thesis by (rule ret_simulates [OF R ok st])
next
  case T_Recv
  with st ok show ?thesis
    by (auto simp: thread_step_def thread_event_def thread_phase_def thread_ok_def running_def Let_def intro: w_internal)
next
  case T_BlockPoll
  with st ok show ?thesis
    by (auto simp: thread_step_def thread_event_def thread_phase_def thread_ok_def running_def
        intro: w_internal w_fault split: if_splits)
next
  case T_SendBlocked
  with st ok show ?thesis
    by (auto simp: thread_step_def thread_event_def thread_phase_def thread_ok_def running_def pipe_send_def Let_def
        intro: w_park split: if_splits)
qed (use st ok in \<open>auto simp: thread_step_def thread_event_def thread_phase_def thread_ok_def running_def
      intro: worker_step.intros split: if_splits\<close>)

interpretation rt: vt_worker "router_worker R" thread_phase "\<lambda>w. router_ok R \<and> thread_ok R w"
  "\<lambda>w. router_ok R \<and> w = thread_init" for R
proof unfold_locales
  fix w assume "router_ok R \<and> w = thread_init"
  then show "(router_ok R \<and> thread_ok R w) \<and> thread_phase w = W_Await"
    by (auto simp: thread_init_def thread_ok_def running_def thread_phase_def router_ok_def)
next
  fix w s e s' w'
  assume "router_ok R \<and> thread_ok R w" "router_worker R s w e s' w'"
  then show "(router_ok R \<and> thread_ok R w') \<and> worker_step s (thread_phase w) e s' (thread_phase w')"
    using thread_simulates unfolding router_worker_def by blast
qed

text \<open>Without failing calls the points where the thread would give up are not reached.\<close>

definition no_failure :: "thread \<Rightarrow> bool" where
  "no_failure w \<longleftrightarrow> (\<forall>r k. t_pc w = T_Ret r k \<longrightarrow> 0 \<le> r) \<and> (t_pc w = T_PollRet \<longrightarrow> 0 \<le> t_ret w \<or> t_eintr w) \<and>
     (\<forall>k. t_pc w = T_Stub k \<or> t_pc w = T_Read k \<or> (\<exists>r. t_pc w = T_Ret r k) \<longrightarrow> k = K_Polled \<longrightarrow> 0 \<le> t_ret w \<or> t_eintr w)"

lemma no_failure_call: "0 \<le> t_ret w \<or> t_eintr w \<or> k \<noteq> K_Polled \<Longrightarrow> no_failure (after_call k w)"
  by (auto simp: no_failure_def after_call_def split: stub_call.split)

lemma no_failure_exited [simp]: "no_failure (w\<lparr>t_pc := T_Exited\<rparr>)"
  by (simp add: no_failure_def)

lemma no_failure_step:
  assumes R: "router_ok R" and ok: "thread_ok R w" and nf: "no_failure w" and e: "env_good e"
    and st: "thread_step R e s w = Some (s', w')"
  shows "no_failure w' \<and> thread_event R e s w \<noteq> Fault"
proof (cases "t_pc w")
  case (T_Stub k)
  then have t: "0 \<le> t_time w" using ok by (simp add: thread_ok_def running_def)
  have "thread_event R e s w = Charge 50" using T_Stub call_time [OF R] by (simp add: thread_event_def)
  moreover have "no_failure w'"
    using st stub_step [OF R T_Stub t] T_Stub nf e by (auto simp: no_failure_def env_good_def split: if_splits)
  ultimately show ?thesis by simp
next
  case (T_Read k)
  then have k: "0 \<le> t_ret w \<or> t_eintr w \<or> k \<noteq> K_Polled" using nf by (auto simp: no_failure_def)
  from T_Read st have "resume_with s w (\<lambda>v. fst (update_stub_end (Some (call_name k)) v) < 0 \<or> stop s) (after_call k) = Some (s', w')"
    by (simp add: thread_step_def)
  then obtain v where "w' = w\<lparr>t_time := v, t_pc := T_Exited\<rparr> \<or> w' = after_call k (w\<lparr>t_time := v\<rparr>)"
    by (rule resume_with_cases) (metis (no_types, lifting))
  then have "no_failure w'" using no_failure_call [of "w\<lparr>t_time := v\<rparr>" k] k
    by (auto simp: no_failure_def [of "w\<lparr>t_time := v, t_pc := T_Exited\<rparr>"])
  then show ?thesis using T_Read by (simp add: thread_event_def)
next
  case (T_Ret r k)
  then have "0 \<le> t_ret w \<or> t_eintr w \<or> k \<noteq> K_Polled" "0 \<le> r" using nf by (auto simp: no_failure_def)
  then show ?thesis using st T_Ret no_failure_call [of w k]
    by (auto simp: thread_step_def thread_event_def split: if_splits)
qed (use st nf e in \<open>auto simp: thread_step_def thread_event_def no_failure_def env_good_def Let_def
      elim!: resume_with_cases split: if_splits option.splits outcome.splits\<close>)

text \<open>An answer of the system with which any thread that is not waiting goes on.\<close>

definition calm :: "thread \<Rightarrow> env" where
  "calm w = \<lparr>e_open = True, e_fall = 1,
     e_written = int (length (show_int (if t_pc w = T_SendBlocked then THREAD_BLOCKED else 50 - t_time w))),
     e_ret = 0, e_eintr = False, e_revents = [], e_recv = None\<rparr>"

lemma resume_goes:
  "pipe_read False (m2t s) = Returns (v, rest) \<Longrightarrow> t_pc (go (w\<lparr>t_time := v\<rparr>)) \<noteq> t_pc w \<Longrightarrow> t_pc w \<noteq> T_Exited \<Longrightarrow>
   \<exists>s' w'. resume_with s w quits go = Some (s', w') \<and> w' \<noteq> w"
proof -
  assume r: "pipe_read False (m2t s) = Returns (v, rest)" and g: "t_pc (go (w\<lparr>t_time := v\<rparr>)) \<noteq> t_pc w"
    and x: "t_pc w \<noteq> T_Exited"
  let ?w = "if quits v then w\<lparr>t_time := v, t_pc := T_Exited\<rparr> else go (w\<lparr>t_time := v\<rparr>)"
  have "t_pc ?w \<noteq> t_pc w" using g x by simp
  then have "?w \<noteq> w" by metis
  with r show ?thesis by (simp add: resume_with_def)
qed

lemma after_call_moves: "t_pc (after_call k w) \<noteq> T_Read k'" "t_pc (after_call k w) \<noteq> T_Ret r k'"
  by (auto simp: after_call_def split: stub_call.split)

lemma thread_progress:
  assumes R: "router_ok R" and ok: "thread_ok R w" and run: "runnable_phase s (thread_phase w)"
  shows "\<exists>s' w'. thread_step R (calm w) s w = Some (s', w') \<and> w' \<noteq> w"
proof -
  have moves: "t_pc w' \<noteq> t_pc w \<or> t_i w' \<noteq> t_i w \<Longrightarrow> w' \<noteq> w" for w' by auto
  show ?thesis
  proof (cases "t_pc w")
    case (T_Stub k)
    then have "0 \<le> t_time w" using ok by (simp add: thread_ok_def running_def)
    from stub_step [OF R T_Stub this] T_Stub show ?thesis
      by (auto simp: calm_def intro!: moves)
  next
    case (T_Read k)
    with run obtain v rest where "pipe_read False (m2t s) = Returns (v, rest)"
      by (auto simp: runnable_phase_def thread_phase_def)
    from resume_goes [OF this] T_Read show ?thesis by (simp add: thread_step_def after_call_moves)
  next
    case T_FirstRead
    with run obtain v rest where "pipe_read False (m2t s) = Returns (v, rest)"
      by (auto simp: runnable_phase_def thread_phase_def)
    from resume_goes [OF this] T_FirstRead show ?thesis by (simp add: thread_step_def)
  next
    case T_ResumeRead
    with run obtain v rest where "pipe_read False (m2t s) = Returns (v, rest)"
      by (auto simp: runnable_phase_def thread_phase_def)
    from resume_goes [OF this] T_ResumeRead show ?thesis by (simp add: thread_step_def)
  next
    case T_Got
    from get_dst_range [OF R, of "t_buf w"] ok obtain d where
      "get_dst_sock_idx (rt_routes R) (rt_mem R) (t_buf w) (rt_names R) = Some d" by (auto simp: thread_ok_def)
    with T_Got show ?thesis by (auto simp: thread_step_def intro!: moves)
  next
    case (T_Ret r k)
    then show ?thesis by (auto simp: thread_step_def after_call_moves intro!: moves)
  next
    case T_SendBlocked
    then show ?thesis by (auto simp: thread_step_def pipe_send_def calm_def intro!: moves)
  qed (use ok run in \<open>auto simp: thread_step_def thread_ok_def runnable_phase_def thread_phase_def Let_def intro!: moves\<close>)
qed

interpretation rr: vt_worker_reliable "reliable_worker R" thread_phase
  "\<lambda>w. router_ok R \<and> thread_ok R w \<and> no_failure w" "\<lambda>w. router_ok R \<and> w = thread_init" for R
proof unfold_locales
  fix w assume w: "router_ok R \<and> w = thread_init"
  with rt.init_law have "thread_ok R w" "thread_phase w = W_Await" by blast+
  with w show "(router_ok R \<and> thread_ok R w \<and> no_failure w) \<and> thread_phase w = W_Await"
    by (simp add: no_failure_def thread_init_def)
next
  fix w s e s' w'
  assume "router_ok R \<and> thread_ok R w \<and> no_failure w" "reliable_worker R s w e s' w'"
  then show "(router_ok R \<and> thread_ok R w' \<and> no_failure w') \<and> worker_step s (thread_phase w) e s' (thread_phase w')"
    using thread_simulates no_failure_step unfolding reliable_worker_def by blast
next
  fix w s e s' w'
  assume "router_ok R \<and> thread_ok R w \<and> no_failure w" "reliable_worker R s w e s' w'"
  then obtain en where "router_ok R" "thread_ok R w" "no_failure w" "env_good en"
    "thread_step R en s w = Some (s', w')" and e: "e = thread_event R en s w"
    unfolding reliable_worker_def by blast
  with no_failure_step show "e \<noteq> Fault" unfolding e by blast
next
  fix w s
  assume "router_ok R \<and> thread_ok R w \<and> no_failure w" "runnable_phase s (thread_phase w)"
  moreover have "env_good (calm w)" by (simp add: env_good_def calm_def)
  ultimately show "\<exists>e s' w'. reliable_worker R s w e s' w' \<and> w' \<noteq> w"
    using thread_progress unfolding reliable_worker_def by blast
qed

subsection \<open>What is forwarded\<close>

text \<open>The packets of a list of received ones that have a route, each with its socket.\<close>

definition forwarded :: "'z forwarder_scheme \<Rightarrow> (string \<times> int) list \<Rightarrow> (nat \<times> string \<times> int) list" where
  "forwarded R rs = concat (map (\<lambda>(buf, size).
     (case get_dst_sock_idx (rt_routes R) (rt_mem R) buf (rt_names R) of
        Some d \<Rightarrow> if d = -1 then [] else [(nat d, buf, size)]
      | None \<Rightarrow> [])) rs)"

text \<open>Whether the packet in the buffer is received but its fate still open, and its route known.\<close>

definition pending :: "thread \<Rightarrow> bool" where
  "pending w \<longleftrightarrow>
     (case t_pc w of
        T_Stub k \<Rightarrow> k = K_Routed \<or> k = K_Received \<and> 0 < t_size w
      | T_Read k \<Rightarrow> k = K_Routed \<or> k = K_Received \<and> 0 < t_size w
      | T_Ret r k \<Rightarrow> k = K_Routed \<or> k = K_Received \<and> 0 < t_size w
      | T_Got \<Rightarrow> 0 < t_size w
      | T_Route \<Rightarrow> True
      | _ \<Rightarrow> False)"

definition routed :: "thread \<Rightarrow> bool" where
  "routed w \<longleftrightarrow>
     t_pc w = T_Route \<or> (\<exists>r. t_pc w \<in> {T_Stub K_Routed, T_Read K_Routed, T_Ret r K_Routed})"

definition forward_ok :: "router \<Rightarrow> thread \<Rightarrow> bool" where
  "forward_ok R w \<longleftrightarrow>
     (routed w \<longrightarrow> get_dst_sock_idx (rt_routes R) (rt_mem R) (t_buf w) (rt_names R) = Some (t_dst w)) \<and>
     (if pending w
      then (\<exists>rs. t_recvd w = rs @ [(t_buf w, t_size w)] \<and> t_sent w = forwarded R rs)
      else t_sent w = forwarded R (t_recvd w) \<or>
        t_pc w = T_Exited \<and> (\<exists>rs p. t_recvd w = rs @ [p] \<and> t_sent w = forwarded R rs))"

lemma forwarded_snoc:
  "get_dst_sock_idx (rt_routes R) (rt_mem R) buf (rt_names R) = Some d \<Longrightarrow>
   forwarded R (rs @ [(buf, sz)]) = forwarded R rs @ (if d = -1 then [] else [(nat d, buf, sz)])"
  by (simp add: forwarded_def)

lemma forward_ok_exit: "forward_ok R w \<Longrightarrow> forward_ok R (w\<lparr>t_pc := T_Exited\<rparr>)"
  by (auto simp: forward_ok_def pending_def routed_def split: if_splits)

lemma pending_time [simp]: "pending (w\<lparr>t_time := v\<rparr>) \<longleftrightarrow> pending w" "routed (w\<lparr>t_time := v\<rparr>) \<longleftrightarrow> routed w"
  by (simp_all add: pending_def routed_def split: thread_pc.split)

lemma forward_ok_time [simp]: "forward_ok R (w\<lparr>t_time := v\<rparr>) \<longleftrightarrow> forward_ok R w"
  by (simp add: forward_ok_def)

lemma forward_ok_stub:
  assumes "forward_ok R w" and "t_pc w \<in> {T_Stub k, T_Read k, T_Ret r k}"
    and "pc \<in> {T_Stub k, T_Read k, T_Ret r' k}"
  shows "forward_ok R (w\<lparr>t_pc := pc\<rparr>)"
  using assms by (auto simp: forward_ok_def pending_def routed_def)

lemma forward_ok_after:
  assumes "forward_ok R w" and "t_pc w \<in> {T_Read k, T_Ret r k}"
  shows "forward_ok R (after_call k w)"
  using assms by (cases k) (auto simp: forward_ok_def pending_def routed_def after_call_def)

lemma forward_ok_step:
  assumes R: "router_ok R" and tok: "thread_ok R w" and ok: "forward_ok R w"
    and st: "thread_step R e s w = Some (s', w')"
  shows "forward_ok R w'"
proof (cases "t_pc w")
  case (T_Stub k)
  then have t: "0 \<le> t_time w" using tok by (simp add: thread_ok_def running_def)
  from stub_step [OF R T_Stub t] st have "w' \<in> {(w\<lparr>t_time := t_time w - 50\<rparr>)\<lparr>t_pc := T_Ret (e_fall e) k\<rparr>,
      (w\<lparr>t_time := t_time w - 50\<rparr>)\<lparr>t_pc := T_Read k\<rparr>}" by (auto split: if_splits)
  with ok T_Stub show ?thesis
    using forward_ok_stub [of R "w\<lparr>t_time := t_time w - 50\<rparr>" k 0 "T_Ret (e_fall e) k" "e_fall e"]
      forward_ok_stub [of R "w\<lparr>t_time := t_time w - 50\<rparr>" k 0 "T_Read k" 0] by auto
next
  case (T_Read k)
  from T_Read st have "resume_with s w (\<lambda>v. fst (update_stub_end (Some (call_name k)) v) < 0 \<or> stop s) (after_call k) = Some (s', w')"
    by (simp add: thread_step_def)
  then obtain v where "w' = w\<lparr>t_time := v, t_pc := T_Exited\<rparr> \<or> w' = after_call k (w\<lparr>t_time := v\<rparr>)"
    by (rule resume_with_cases) (metis (no_types, lifting))
  moreover have "forward_ok R (w\<lparr>t_time := v\<rparr>)" using ok by simp
  ultimately show ?thesis using forward_ok_exit [of R "w\<lparr>t_time := v\<rparr>"] forward_ok_after [of R "w\<lparr>t_time := v\<rparr>" k] T_Read
    by auto
next
  case (T_Ret r k)
  with st have "w' = w\<lparr>t_pc := T_Exited\<rparr> \<or> w' = after_call k w" by (auto simp: thread_step_def split: if_splits)
  with ok T_Ret forward_ok_exit forward_ok_after [of R w k r] show ?thesis by auto
next
  case T_Recv
  with st ok show ?thesis
    by (auto simp: thread_step_def forward_ok_def pending_def routed_def Let_def)
next
  case T_Route
  with st ok show ?thesis
    by (auto simp: thread_step_def forward_ok_def pending_def routed_def forwarded_snoc split: if_splits)
next
  case T_Got
  with st ok show ?thesis
    by (auto simp: thread_step_def forward_ok_def pending_def routed_def split: if_splits option.splits)
qed (use st ok in \<open>auto simp: thread_step_def forward_ok_def pending_def routed_def Let_def pipe_send_def
      elim!: resume_with_cases split: if_splits outcome.splits\<close>)

end
