(* ===== verification/Router_System.thy ===== *)
theory Router_System
  imports Router_Thread
begin

text \<open>
  The router as a whole: \<open>main\<close> of \<open>router_app_vt.c\<close> up to the start of its thread, and the
  two threads running together. Concrete runs are written as lists of moves and evaluated, to show
  that the states the theorems speak of exist; the theorems hold of every interleaving, for every
  answer of the operating system.
\<close>

subsection \<open>Start of the router\<close>

text \<open>
  \<open>main\<close> up to the start of the thread: options, names, routes, cost table. \<open>files\<close> is what can be
  read under a path. A path that is not set, or fills its array without a terminator, is undefined
  behaviour in \<open>fopen\<close>.
\<close>

definition router_setup ::
  "(char \<times> string) list \<Rightarrow> nat \<Rightarrow> (string \<Rightarrow> (nat \<times> string) list option) \<Rightarrow>
   route_alloc list \<Rightarrow> routing_entry mem \<Rightarrow> alloc list \<Rightarrow> int hashmap_elem mem \<Rightarrow> router outcome" where
  "router_setup opts extra files rallocs rm fallocs fm =
     (case router_config opts extra of
        Returns (c, names) \<Rightarrow>
          (case cfg_routing_file c of
             None \<Rightarrow> Faults
           | Some path \<Rightarrow>
               if length path < 100
               then (case populate_routing_list rallocs (files path) rm of
                       Returns (l, rm) \<Rightarrow>
                         (case init_func_times fallocs fm of
                            None \<Rightarrow> Faults
                          | Some tbl \<Rightarrow> Returns \<lparr>rt_routes = l, rt_mem = rm, rt_names = names, rt_tbl = tbl\<rparr>)
                     | Exits code \<Rightarrow> Exits code
                     | Blocks \<Rightarrow> Blocks
                     | Faults \<Rightarrow> Faults)
               else Faults)
      | Exits code \<Rightarrow> Exits code
      | Blocks \<Rightarrow> Blocks
      | Faults \<Rightarrow> Faults)"

text \<open>
  \<open>create_spinner_task\<close>, given what \<open>fork\<close> returned: the child only returns from \<open>execvp\<close> when that
  fails. Then \<open>main\<close> opens the file of the kernel module, whose descriptor is \<open>fp\<close>; registering the
  experiment with the kernel module in between is not modelled.
\<close>

definition create_spinner_task :: "int \<Rightarrow> int outcome" where
  "create_spinner_task child =
     (if child = -1 then Exits (-1) else if child = 0 then Exits 2 else Returns child)"

definition main_launch :: "int \<Rightarrow> int \<Rightarrow> (int \<times> int) outcome" where
  "main_launch child fp =
     (case create_spinner_task child of
        Returns spinned_pid \<Rightarrow> if fp = -1 then Exits (-1) else Returns (spinned_pid, fp)
      | Exits code \<Rightarrow> Exits code
      | Blocks \<Rightarrow> Blocks
      | Faults \<Rightarrow> Faults)"

text \<open>
  The end of \<open>main\<close>: \<open>cleanup\<close>, the loop that frees the names (each a block of its own, obtained when the
  name was made), \<open>hmap_destroy\<close>.
\<close>

definition router_exit :: "router \<Rightarrow> router option" where
  "router_exit R = do {
     (l, rm) \<leftarrow> cleanup (rt_routes R) (rt_mem R);
     (h, fm) \<leftarrow> hmap_destroy (fst (rt_tbl R)) (snd (rt_tbl R));
     Some (R\<lparr>rt_routes := l, rt_mem := rm, rt_names := [], rt_tbl := (h, fm)\<rparr>)
   }"

lemma router_setup_ok:
  assumes c: "router_config opts extra = Returns (c, names)" and p: "cfg_routing_file c = Some path" "length path < 100"
    and f: "files path = Some lines" "route_file lines rs" "length xs = length lines" "fresh_allocs xs rm"
    and t: "allocs_ok fallocs fm"
  shows "\<exists>R. router_setup opts extra files (route_allocs xs) rm fallocs fm = Returns R \<and> router_ok R \<and>
     rt_names R = names \<and> route_table (rt_routes R) (rt_mem R) = rs"
proof -
  from populate_routing_list_ok [OF f(2-4)] obtain l m' where
    l: "populate_routing_list (route_allocs xs) (Some lines) rm = Returns (l, m')" "routes_ok l m'"
      "route_table l m' = rs" by blast
  from init_func_times_ok [OF t] obtain tbl where
    tbl: "init_func_times fallocs fm = Some tbl" "table_ok tbl" unfolding table_ok_def by blast
  from router_config_ok [OF c] have "0 < length names" by auto
  with l tbl show ?thesis using c p f(1) by (simp add: router_setup_def router_ok_def)
qed

lemma router_setup_exit:
  assumes c: "router_config opts extra = Returns (c, names)" and p: "cfg_routing_file c = Some path" "length path < 100"
    and f: "files path = Some lines" "route_file lines rs" "length xs = length lines" "fresh_allocs xs (no_mem :: routing_entry mem)"
    and t: "allocs_ok fallocs no_mem"
  shows "\<exists>R R'. router_setup opts extra files (route_allocs xs) no_mem fallocs no_mem = Returns R \<and>
     router_exit R = Some R' \<and> nodes (rt_mem R') = Map.empty \<and> dom (objs (rt_mem R')) = set (map fst xs) \<and>
     blocks (rt_mem R') = [Line_Buffer, Stream_Block] \<and> rt_names R' = [] \<and> snd (rt_tbl R') = no_mem \<and>
     \<not> head_alloc (fst (rt_tbl R')) \<and> True \<notin> set (header_alloc (fst (rt_tbl R'))) \<and>
     length (header_alloc (fst (rt_tbl R'))) = 1000"
proof -
  from populate_routing_list_full [OF f(2-4)] obtain l m' where
    l: "populate_routing_list (route_allocs xs) (Some lines) no_mem = Returns (l, m')" "routes_ok l m'"
      "llist_cells l m' = map (fst o snd) xs" "dom (nodes m') = set (map (fst o snd) xs)"
      "dom (objs m') = set (map fst xs)" "blocks m' = [Line_Buffer, Stream_Block]" by (auto simp: no_mem_def)
  from cleanup_ok [OF l(2)] obtain l2 m2 where
    m2: "cleanup l m' = Some (l2, m2)" "objs m2 = objs m'" "blocks m2 = blocks m'"
      "nodes m2 = (\<lambda>b. if b \<in> dom (nodes m') then None else nodes m' b)" unfolding l(3,4) by blast
  have e: "nodes m2 = Map.empty" unfolding m2(4) by (auto simp: fun_eq_iff domIff)
  from init_func_times_ok [OF t] obtain tbl where tbl: "init_func_times fallocs no_mem = Some tbl" by blast
  then have "put_func_times fallocs func_costs (hmap_init 1000, no_mem) = Some tbl" by (simp add: init_func_times_def)
  moreover have "allocs_for func_costs fallocs no_mem" using t by (simp add: allocs_ok_def allocs_for_def func_costs_def)
  moreover have "\<forall>c \<in> set func_costs. func_key (fst c) \<noteq> None"
    using func_key_names by (auto simp: map_eq_conv func_costs_def)
  ultimately have h: "hmap_inv (fst tbl) (snd tbl) \<and> hmap_tight (fst tbl) (snd tbl)" using put_func_times_tight by blast
  have "h_size (fst tbl) = 1000"
    using put_func_times_size [of fallocs func_costs _ tbl] tbl by (simp add: init_func_times_def hmap_init_inv(3))
  with h have n: "length (heads (fst tbl)) = 1000" by (simp add: hmap_inv_def hmap_ok_def)
  define t' where "t' = (fst tbl)\<lparr>header_alloc := replicate (length (heads (fst tbl))) False, head_alloc := False\<rparr>"
  have t': "hmap_destroy (fst tbl) (snd tbl) = Some (t', no_mem)" unfolding t'_def using hmap_destroy_tight h by blast
  have "\<not> head_alloc t'" "True \<notin> set (header_alloc t')" "length (header_alloc t') = 1000" by (simp_all add: t'_def n)
  with m2(1-3) e l(5,6) t' have "\<exists>R'. router_exit \<lparr>rt_routes = l, rt_mem = m', rt_names = names, rt_tbl = tbl\<rparr> = Some R' \<and>
      nodes (rt_mem R') = Map.empty \<and> dom (objs (rt_mem R')) = set (map fst xs) \<and>
      blocks (rt_mem R') = [Line_Buffer, Stream_Block] \<and> rt_names R' = [] \<and> snd (rt_tbl R') = no_mem \<and>
      \<not> head_alloc (fst (rt_tbl R')) \<and> True \<notin> set (header_alloc (fst (rt_tbl R'))) \<and>
      length (header_alloc (fst (rt_tbl R'))) = 1000"
    by (simp add: router_exit_def)
  with l(1) tbl show ?thesis using c p f(1) by (simp add: router_setup_def)
qed

subsection \<open>Runs\<close>

text \<open>
  A run written down: who moves, with which command or which answer of the system; the pipe calls of the
  main thread succeed.
\<close>

datatype move = Main int | Worker env

definition thread_ended :: "thread \<Rightarrow> bool" where
  "thread_ended w \<longleftrightarrow> t_pc w = T_Exited"

fun take_move :: "router \<Rightarrow> move \<Rightarrow> thread sys \<Rightarrow> thread sys option" where
  "take_move R (Main adv) y =
     map_option (\<lambda>(s, m). y\<lparr>sh := s, mn := m, waited := waited y + slept y\<rparr>)
       (main_step (calls_ok adv) (thread_ended (wk y)) (sh y) (mn y))"
| "take_move R (Worker e) y =
     (if main_over (mn y) then None
      else map_option (\<lambda>(s, w). count (thread_event R e (sh y) (wk y)) (y\<lparr>sh := s, wk := w\<rparr>))
        (thread_step R e (sh y) (wk y)))"

fun play :: "router \<Rightarrow> move list \<Rightarrow> thread sys \<Rightarrow> thread sys option" where
  "play R [] y = Some y"
| "play R (mv # mvs) y = Option.bind (take_move R mv y) (play R mvs)"

lemma exited_phase: "thread_ended = (\<lambda>w. thread_phase w = W_Exited)"
  by (auto simp: thread_ended_def thread_phase_def fun_eq_iff split: thread_pc.split)

definition allowed :: "int set \<Rightarrow> move \<Rightarrow> bool" where
  "allowed advs mv \<longleftrightarrow> (case mv of Main adv \<Rightarrow> adv \<in> advs | Worker e \<Rightarrow> env_good e)"

lemma take_move_step:
  assumes "take_move R mv y = Some y'" and "allowed advs mv"
  shows "sys_step advs (reliable_worker R) thread_ended y y'"
proof (cases mv)
  case (Main adv)
  with assms show ?thesis by (auto simp: allowed_def intro!: sys_step.main_moves [of "calls_ok adv"])
    (simp add: calls_ok_def)
next
  case (Worker e)
  with assms obtain s' w' where "thread_step R e (sh y) (wk y) = Some (s', w')" "env_good e" "\<not> main_over (mn y)"
    "y' = count (thread_event R e (sh y) (wk y)) (y\<lparr>sh := s', wk := w'\<rparr>)" by (auto simp: allowed_def split: if_splits)
  moreover from this have "reliable_worker R (sh y) (wk y) (thread_event R e (sh y) (wk y)) s' w'"
    unfolding reliable_worker_def by blast
  ultimately show ?thesis by (auto intro: sys_step.worker_moves)
qed

lemma play_reachable:
  assumes "play R mvs y = Some y'" and "\<forall>mv \<in> set mvs. allowed advs mv"
    and "reachable advs (reliable_worker R) thread_ended w0 y"
  shows "reachable advs (reliable_worker R) thread_ended w0 y'"
  using assms
proof (induction mvs arbitrary: y)
  case (Cons mv mvs)
  from Cons.prems(1) obtain y1 where y1: "take_move R mv y = Some y1" "play R mvs y1 = Some y'"
    by (auto split: bind_splits)
  with Cons.prems take_move_step [OF y1(1)] have "reachable advs (reliable_worker R) thread_ended w0 y1"
    by (auto intro: reachable.more)
  with Cons.IH [OF y1(2)] Cons.prems(2) show ?case by simp
qed simp

text \<open>With failing calls too a run leads to a reachable state.\<close>

lemma play_worker:
  assumes "play R mvs y = Some y'" and "\<forall>adv. Main adv \<in> set mvs \<longrightarrow> adv \<in> advs"
    and "reachable advs (router_worker R) thread_ended w0 y"
  shows "reachable advs (router_worker R) thread_ended w0 y'"
  using assms
proof (induction mvs arbitrary: y)
  case (Cons mv mvs)
  from Cons.prems(1) obtain y1 where y1: "take_move R mv y = Some y1" "play R mvs y1 = Some y'"
    by (auto split: bind_splits)
  have "sys_step advs (router_worker R) thread_ended y y1"
  proof (cases mv)
    case (Main adv)
    with y1(1) Cons.prems(2) show ?thesis by (auto intro!: sys_step.main_moves [of "calls_ok adv"])
      (simp add: calls_ok_def)
  next
    case (Worker e)
    with y1(1) show ?thesis unfolding router_worker_def by (auto intro!: sys_step.worker_moves split: if_splits)
  qed
  with Cons.prems(3) have "reachable advs (router_worker R) thread_ended w0 y1" by (rule reachable.more)
  with Cons.IH [OF y1(2)] Cons.prems(2) show ?case by simp
qed simp

text \<open>Every run of the reliable thread is one of the thread.\<close>

lemma reliable_reachable:
  "reachable advs (reliable_worker R) ended w0 y \<Longrightarrow> reachable advs (router_worker R) ended w0 y"
proof (induction rule: reachable.induct)
  case (more y y')
  from more(2) have "sys_step advs (router_worker R) ended y y'"
  proof (rule sys_stepE)
    fix e s' w'
    assume "y' = count e (y\<lparr>sh := s', wk := w'\<rparr>)" "\<not> main_over (mn y)" "reliable_worker R (sh y) (wk y) e s' w'"
    moreover from this(3) have "router_worker R (sh y) (wk y) e s' w'"
      unfolding reliable_worker_def router_worker_def by blast
    ultimately show ?thesis by (auto intro: sys_step.worker_moves)
  qed (auto intro: sys_step.main_moves)
  with more(3) show ?case by (rule reachable.more)
qed (rule reachable.start)

text \<open>A run of the router with the routes and options of the example.\<close>

definition demo_setup :: "router outcome" where
  "demo_setup = router_setup demo_opts 0 (\<lambda>path. if path = ''s1_routes.txt'' then Some demo_file else None)
     (route_allocs demo_mallocs) no_mem demo_allocs no_mem"

lemma demo_setup_ok:
  "\<exists>R. demo_setup = Returns R \<and> router_ok R \<and> rt_names R = [''s1-eth1'', ''s1-eth2'', ''s1-eth3''] \<and>
     route_table (rt_routes R) (rt_mem R) = demo_rs"
  unfolding demo_setup_def
  by (intro router_setup_ok [OF demo_config _ _ _ demo_file_ok demo_mallocs_ok(2,1) demo_allocs_ok]) simp_all

definition demo_router :: router where
  "demo_router = (case demo_setup of Returns R \<Rightarrow> R | _ \<Rightarrow> undefined)"

lemma demo_router_ok: "demo_setup = Returns demo_router" "router_ok demo_router"
  "rt_names demo_router = [''s1-eth1'', ''s1-eth2'', ''s1-eth3'']"
  "route_table (rt_routes demo_router) (rt_mem demo_router) = demo_rs"
proof -
  from demo_setup_ok obtain R where R: "demo_setup = Returns R" "router_ok R"
    "rt_names R = [''s1-eth1'', ''s1-eth2'', ''s1-eth3'']" "route_table (rt_routes R) (rt_mem R) = demo_rs" by blast
  moreover have "demo_router = R" unfolding demo_router_def R(1) by simp
  ultimately show "demo_setup = Returns demo_router" "router_ok demo_router"
    "rt_names demo_router = [''s1-eth1'', ''s1-eth2'', ''s1-eth3'']"
    "route_table (rt_routes demo_router) (rt_mem demo_router) = demo_rs" by simp_all
qed

definition answer :: "int \<Rightarrow> bool list \<Rightarrow> string option \<Rightarrow> env" where
  "answer n revents bytes = \<lparr>e_open = True, e_fall = 0, e_written = n, e_ret = 0, e_eintr = False,
     e_revents = revents, e_recv = bytes\<rparr>"

lemma answer_good: "allowed advs (Worker (answer n r b))"
  by (simp add: allowed_def env_good_def answer_def)

lemma stub_begin:
  "router_ok R \<Longrightarrow> update_stub_begin (rt_tbl R) fall ret left fd (Some (call_name k)) =
     (if 50 < left then Returns (Stub_Done fall (left - 50))
      else case pipe_send ret fd (50 - left) of Returns fd \<Rightarrow> Returns (Stub_Waits (left - 50) fd)
             | Exits code \<Rightarrow> Exits code | Blocks \<Rightarrow> Blocks | Faults \<Rightarrow> Faults)"
  using call_time [of R k] by (simp add: update_stub_begin_def)

lemma show_int_length_simps: "length (show_int 10) = 2" "length (show_int 49) = 2"  "length (show_int (-1)) = 2"
  by (simp_all add: show_int_def show_nat.simps)

lemmas play_simps = thread_step_def stub_begin [OF demo_router_ok(2)] demo_router_ok(3) answer_def
  main_step_ok main_over_def sys_init_def shared_init_def main_init_def thread_init_def after_call_def resume_with_def
  update_stub_end_def pipe_send_def Let_def main_reply_def slept_def count_def thread_event_def
  call_time [OF demo_router_ok(2)] show_int_length_simps

abbreviation (input) router_reachable :: "int set \<Rightarrow> router \<Rightarrow> thread sys \<Rightarrow> bool" where
  "router_reachable advs R \<equiv> reachable advs (router_worker R) thread_ended thread_init"

lemma play_router_reachable:
  "play R mvs (sys_init thread_init) = Some y \<Longrightarrow> \<forall>mv \<in> set mvs. allowed advs mv \<Longrightarrow>
   router_reachable advs R y \<and> reachable advs (reliable_worker R) thread_ended thread_init y"
  using play_reachable reachable.start reliable_reachable by metis

subsection \<open>Invariants of the router in the protocol\<close>

text \<open>What is forwarded, in every reachable state.\<close>

lemma router_inv:
  assumes R: "router_ok R" and r: "router_reachable advs R y"
  shows "thread_ok R (wk y)"
  using rt.sim [of advs R thread_init y] r R unfolding exited_phase by blast

lemma forward_ok_reachable:
  assumes R: "router_ok R" and r: "router_reachable advs R y"
  shows "forward_ok R (wk y)"
  using r
proof (induction rule: reachable.induct)
  case start
  then show ?case by (simp add: sys_init_def thread_init_def forward_ok_def pending_def routed_def forwarded_def)
next
  case (more y y')
  from more(2) show ?case
  proof (rule sys_stepE)
    fix e s' w'
    assume y: "y' = count e (y\<lparr>sh := s', wk := w'\<rparr>)" and "router_worker R (sh y) (wk y) e s' w'"
    then obtain en where "thread_step R en (sh y) (wk y) = Some (s', w')" unfolding router_worker_def by blast
    from forward_ok_step [OF R router_inv [OF R more(1)] more.IH this] show ?thesis by (simp add: y)
  qed (use more.IH in simp)
qed

text \<open>The reports of the router: never more than one call over the round.\<close>

definition report_ok :: "thread sys \<Rightarrow> bool" where
  "report_ok y \<longleftrightarrow> (t2m (sh y) = [] \<or> (\<exists>v. -1 \<le> v \<and> v \<le> 50 \<and> t2m (sh y) = show_int v)) \<and>
     0 \<le> m_ret (mn y) \<and> m_ret (mn y) \<le> 50"

lemma report_ok_main_ok:
  assumes "report_ok y" and "main_step (calls_ok adv) j (sh y) (mn y) = Some (s', m')"
  shows "report_ok (y\<lparr>sh := s', mn := m', waited := d\<rparr>)"
proof (cases "m_pc (mn y)")
  case (M_Read a)
  with assms(2) have "t2m (sh y) \<noteq> []" by (auto simp: main_step_ok)
  with assms(1) obtain v where v: "-1 \<le> v" "v \<le> 50" "t2m (sh y) = show_int v" by (auto simp: report_ok_def)
  then have "pipe_read False (t2m (sh y)) = Returns (v, [])" by auto
  with assms M_Read v show ?thesis by (auto simp: main_step_ok report_ok_def main_reply_def)
qed (use assms in \<open>auto simp: main_step_ok report_ok_def split: if_splits\<close>)

lemma report_ok_main:
  assumes "report_ok y" and "main_step e j (sh y) (mn y) = Some (s', m')"
  shows "report_ok (y\<lparr>sh := s', mn := m', waited := d\<rparr>)"
  using assms(2)
proof (cases rule: main_step_cases)
  case ok
  with assms(1) show ?thesis by (rule report_ok_main_ok)
qed (use assms(1) in \<open>simp add: report_ok_def\<close>)

lemma report_ok_worker:
  assumes R: "router_ok R" and ok: "thread_ok R w" and st: "thread_step R e s w = Some (s', w')"
    and mt: "running (t_pc w) \<or> t_pc w = T_SendBlocked \<Longrightarrow> t2m s = []"
  shows "t2m s' = t2m s \<or> (\<exists>v. -1 \<le> v \<and> v \<le> 50 \<and> t2m s' = show_int v)"
proof (cases "t_pc w")
  case (T_Stub k)
  then have "0 \<le> t_time w" "t2m s = []" using ok mt by (simp_all add: thread_ok_def running_def)
  with stub_step [OF R T_Stub] st show ?thesis
    by (auto split: if_splits intro!: exI [of _ "50 - t_time w"])
next
  case T_SendBlocked
  with st mt show ?thesis by (auto simp: thread_step_def pipe_send_def Let_def split: if_splits)
qed (use st in \<open>auto simp: thread_step_def Let_def elim!: resume_with_cases split: if_splits option.splits\<close>)

lemma report_ok_reachable:
  assumes R: "router_ok R" and r: "router_reachable advs R y" and advs: "advs \<subseteq> valid_advances"
  shows "report_ok y"
  using r
proof (induction rule: reachable.induct)
  case start
  then show ?case by (simp add: report_ok_def sys_init_def shared_init_def main_init_def)
next
  case (more y y')
  from more(2) show ?case
  proof (rule sys_stepE)
    fix e s' w'
    assume y: "y' = count e (y\<lparr>sh := s', wk := w'\<rparr>)" and over: "\<not> main_over (mn y)"
      and "router_worker R (sh y) (wk y) e s' w'"
    then obtain en where st: "thread_step R en (sh y) (wk y) = Some (s', w')" unfolding router_worker_def by blast
    have inv: "proto_inv (sys_map thread_phase y)"
      using rt.lockstep [of R thread_init advs y] R more(1) advs unfolding exited_phase by blast
    have "t2m (sh y) = []" if "running (t_pc (wk y)) \<or> t_pc (wk y) = T_SendBlocked"
    proof -
      from that have "thread_phase (wk y) = W_Run (t_time (wk y)) \<or> thread_phase (wk y) = W_Parking"
        by (auto simp: phase_running) (simp add: thread_phase_def)
      with inv over show ?thesis by (cases "m_pc (mn y)") (auto simp: proto_defs round_ok_def main_over_def)
    qed
    from report_ok_worker [OF R router_inv [OF R more(1)] st this] more.IH show ?thesis
      by (auto simp: y report_ok_def)
  qed (use more.IH report_ok_main in blast)
qed


lemma forward_ok_prefix:
  assumes "forward_ok R w"
  shows "\<exists>rs rest. t_recvd w = rs @ rest \<and> length rest \<le> 1 \<and> t_sent w = forwarded R rs \<and>
     (rest \<noteq> [] \<longrightarrow> pending w \<or> thread_ended w)"
  using assms unfolding forward_ok_def thread_ended_def
  by (cases "pending w") (metis append_Nil2 le_refl list.size(3) One_nat_def length_Cons zero_le_one)+

lemma forwarded_range:
  fixes R :: "'z forwarder_scheme"
  assumes "rt_names R \<noteq> []" and "(d, p) \<in> set (forwarded R rs)"
  shows "d < length (rt_names R)"
proof -
  from assms(2) obtain buf i where "Some i = get_dst_sock_idx (rt_routes R) (rt_mem R) buf (rt_names R)"
    "i \<noteq> -1" "d = nat i" by (fastforce simp: forwarded_def split: option.splits if_splits)
  then have "get_dst_sock_idx (rt_routes R) (rt_mem R) buf (rt_names R) = Some i" "i \<noteq> -1" "d = nat i" by simp_all
  then obtain r where r: "i = (case r of None \<Rightarrow> -1
      | Some intf \<Rightarrow> (case find_index (\<lambda>name. intf = name) (rt_names R) of Some i \<Rightarrow> int i | None \<Rightarrow> 0))" "i \<noteq> -1" "d = nat i"
    by (auto simp: get_dst_sock_idx_def bind_eq_Some_conv)
  then obtain intf where "r = Some intf" by (cases r) auto
  with r assms(1) show ?thesis
    by (cases "find_index (\<lambda>name. intf = name) (rt_names R)") (auto dest: find_index_Some)
qed

lemma demo_lookup:
  "get_dst_sock_idx (rt_routes demo_router) (rt_mem demo_router) (recv_buf (Some demo_pkt)) (rt_names demo_router) = Some 1"
  "recv_size (Some demo_pkt) = 34"
proof -
  have "34 \<le> length (recv_buf (Some demo_pkt))" by simp
  from dst_ip_defined [OF this] have "dst_ip (recv_buf (Some demo_pkt)) = dst_ip demo_pkt"
    using dst_ip_defined [of demo_pkt] by (simp add: recv_buf_def demo_pkt_def nth_append)
  with get_dst_sock_idx_ok [OF _ , of "rt_routes demo_router" "rt_mem demo_router" "recv_buf (Some demo_pkt)" "''10.0.0.2''" "rt_names demo_router"]
    demo_router_ok show "get_dst_sock_idx (rt_routes demo_router) (rt_mem demo_router) (recv_buf (Some demo_pkt)) (rt_names demo_router) = Some 1"
    by (simp add: demo_dst router_ok_def demo_rs_def)
  show "recv_size (Some demo_pkt) = 34" by (simp add: recv_size_def demo_pkt_def)
qed

text \<open>The run: a round of 100 us that ends blocked, a round of 200 us slept through, a packet routed.\<close>

definition quiet_answer :: env where "quiet_answer = answer 0 [] None"

definition idle :: "nat \<Rightarrow> move list" where
  "idle n = map (\<lambda>_. Worker quiet_answer) [0..<n]"

definition blocked_run :: "move list" where
  "blocked_run = [Main 100, Main 100, Main 100] @ idle 13 @
     [Worker (answer 2 [] None), Main 100, Main 200]"

definition packet_run :: "string \<Rightarrow> move list" where
  "packet_run pkt = blocked_run @ [Main 200, Worker (answer 0 [True] None), Worker quiet_answer,
     Main 200, Main 200, Main 200] @ idle 5 @
     [Worker (answer 0 [] (Some pkt))] @ idle 6"

lemma blocked_run_ends:
  "\<exists>y. play demo_router blocked_run (sys_init thread_init) = Some y \<and> m_pc (mn y) = M_Check 200 \<and>
     is_blocked (sh y) \<and> t_pc (wk y) = T_BlockPoll \<and> m_elapsed (mn y) = 100 \<and> charged y = 50 \<and> forfeited y = 50"
  by (simp add: play_simps blocked_run_def idle_def upt_rec quiet_answer_def thread_ended_def at_def del: call_name.simps)

lemma packet_run_routes:
  assumes "get_dst_sock_idx (rt_routes demo_router) (rt_mem demo_router) (recv_buf (Some pkt)) (rt_names demo_router) = Some 1"
    and "pkt \<noteq> []"
  shows "\<exists>y. play demo_router (packet_run pkt) (sys_init thread_init) = Some y \<and> t_pc (wk y) = T_Stub K_Sent \<and>
     t_recvd (wk y) = [(recv_buf (Some pkt), recv_size (Some pkt))] \<and>
     t_sent (wk y) = [(1, recv_buf (Some pkt), recv_size (Some pkt))] \<and>
     m_elapsed (mn y) = 300 \<and> charged y = 200 \<and> forfeited y = 50 \<and> waited y = 200"
proof -
  have "\<not> recv_size (Some pkt) < 0" "recv_size (Some pkt) \<noteq> 0" using assms(2) by (simp_all add: recv_size_def)
  with assms show ?thesis
    by (simp add: play_simps packet_run_def blocked_run_def idle_def upt_rec quiet_answer_def thread_ended_def at_def
        assms(1) [unfolded demo_router_ok(3)] del: call_name.simps)
qed

lemma packet_run_ends:
  "\<exists>y. play demo_router (packet_run demo_pkt) (sys_init thread_init) = Some y \<and> t_pc (wk y) = T_Stub K_Sent \<and>
     t_recvd (wk y) = [(recv_buf (Some demo_pkt), 34)] \<and> t_sent (wk y) = [(1, recv_buf (Some demo_pkt), 34)] \<and>
     m_elapsed (mn y) = 300 \<and> charged y = 200 \<and> forfeited y = 50 \<and> waited y = 200"
  using packet_run_routes [OF demo_lookup(1)] unfolding demo_lookup(2) by (simp add: demo_pkt_def)

text \<open>The run before the deadlock: the second command is 0 and has been sent.\<close>

definition zero_run :: "move list" where
  "zero_run = [Main 1, Main 1, Main 1] @ idle 4 @ [Worker (answer 2 [] None), Main 0, Main 0, Main 0, Main 0]"

lemma zero_run_sent:
  "router_ok R \<Longrightarrow> \<exists>y. play R zero_run (sys_init thread_init) = Some y \<and> m_pc (mn y) = M_Read 0 \<and>
     m2t (sh y) = show_int 0 \<and> t_pc (wk y) = T_Read K_Polled"
  by (simp add: play_simps zero_run_def idle_def upt_rec quiet_answer_def thread_ended_def at_def stub_begin call_time
      del: call_name.simps)

definition stop_run :: "move list" where
  "stop_run = [Main (-1), Main 0, Worker (answer 0 [] None)]"

lemma stop_run_ends:
  "\<exists>y. play demo_router stop_run (sys_init thread_init) = Some y \<and> stop (sh y) \<and>
     m2t (sh y) = show_int THREAD_EXITING \<and> t_pc (wk y) = T_FirstRead"
  by (simp add: play_simps stop_run_def thread_ended_def)

lemma run_allowed:
  "\<forall>mv \<in> set zero_run. allowed {0, 1} mv" "\<forall>mv \<in> set blocked_run. allowed {100, 200} mv"
  "\<forall>mv \<in> set (packet_run pkt). allowed {100, 200} mv" "\<forall>mv \<in> set stop_run. allowed {-1, 0} mv"
  by (auto simp: stop_run_def zero_run_def blocked_run_def packet_run_def idle_def quiet_answer_def answer_good)
    (simp_all add: allowed_def)

lemmas run_reachable = play_router_reachable [OF _ run_allowed(1)] play_router_reachable [OF _ run_allowed(2)]
  play_router_reachable [OF _ run_allowed(3)]  play_router_reachable [OF _ run_allowed(4)]

text \<open>
  A thread that cannot open its sockets ends without a word, and the main thread, which gives it the
  first round all the same, waits for its report for ever, or until its read fails and ends the process.
\<close>

lemma router_start_failure:
  assumes "router_ok R" and "adv \<in> advs" and "adv \<in> valid_advances" and "adv \<noteq> -1"
  shows "\<exists>y. router_reachable advs R y \<and> m_pc (mn y) = M_Read adv \<and> \<not> stop (sh y) \<and>
     (\<forall>y'. sys_step advs (router_worker R) thread_ended y y' \<longrightarrow> m_pc (mn y') = M_Exit (-1))"
proof -
  let ?e = "quiet_answer\<lparr>e_open := False\<rparr>"
  let ?mvs = "[Worker ?e, Main adv, Main adv, Main adv]"
  obtain y where y: "play R ?mvs (sys_init thread_init) = Some y" "m_pc (mn y) = M_Read adv" "t2m (sh y) = []"
    "thread_ended (wk y)" "\<not> stop (sh y)"
    using assms(3,4) by (simp add: play_simps quiet_answer_def thread_ended_def at_def)
  from play_worker [OF y(1) _ reachable.start] assms(2) have r: "router_reachable advs R y" by simp
  have ok: "router_ok R \<and> thread_ok R (wk y)" using assms(1) router_inv [OF assms(1) r] by blast
  have "thread_phase (wk y) = W_Exited" using y(4) by (simp add: exited_phase)
  from rt.dead_end [OF ok y(2,3) this] have "m_pc (mn y') = M_Exit (-1)"
    if "sys_step advs (router_worker R) thread_ended y y'" for y' using that unfolding exited_phase by blast
  with r y show ?thesis by blast
qed

text \<open>A command of length 0 that waits in the pipe, and what reading it does.\<close>

lemma zero_command_waits:
  assumes R: "router_ok R" and r: "router_reachable advs R y" and advs: "advs \<subseteq> valid_advances"
    and pc: "m_pc (mn y) = M_Read 0" "m2t (sh y) \<noteq> []" and w: "t_pc (wk y) \<noteq> T_Start" "t_pc (wk y) \<noteq> T_FirstRead"
    "\<not> thread_ended (wk y)"
  shows "m2t (sh y) = show_int 0 \<and> t2m (sh y) = [] \<and> \<not> stop (sh y) \<and>
     (t_pc (wk y) = T_ResumeRead \<or> (\<exists>k. t_pc (wk y) = T_Read k))"
proof -
  have "proto_inv (sys_map thread_phase y)"
    using rt.lockstep [of R thread_init advs y] R r advs unfolding exited_phase by blast
  with pc w(3) have "m2t (sh y) = show_int 0" "t2m (sh y) = []" "\<not> stop (sh y)" "thread_phase (wk y) = W_Await"
    by (auto simp: proto_defs round_ok_def exited_phase)
  with w show ?thesis by (auto simp: thread_phase_def split: thread_pc.splits)
qed

lemma zero_command_read:
  assumes "m2t s = show_int 0" and "t_pc w = T_ResumeRead \<or> (\<exists>k. t_pc w = T_Read k)"
  shows "thread_step R e s w = Some (s\<lparr>m2t := []\<rparr>, w\<lparr>t_time := 0, t_pc := T_Exited\<rparr>) \<and> thread_event R e s w = Silent"
  using assms(2)
  by (elim disjE exE) (simp_all add: thread_step_def thread_event_def resume_with_def update_stub_end_def assms(1))

subsection \<open>Properties\<close>

text \<open>
  C20: With usable options, a routes file in the format of the repository and working allocations
  \<open>main\<close> sets up the router: its table charges 50 microseconds for each of the five functions the
  thread charges, its routes are those of the file, its interfaces those of the options.
\<close>

theorem router_setup_spec:
  assumes "router_config opts extra = Returns (c, names)"
    and "cfg_routing_file c = Some path" and "length path < 100" and "files path = Some lines"
    and "route_file lines rs" and "length xs = length lines" and "fresh_allocs xs rm" and "allocs_ok fallocs fm"
  shows "\<exists>R. router_setup opts extra files (route_allocs xs) rm fallocs fm = Returns R \<and> router_ok R \<and>
     rt_names R = names \<and> route_table (rt_routes R) (rt_mem R) = rs \<and>
     (\<forall>k. func_time (rt_tbl R) (call_name k) = Some (Some 50))"
  using router_setup_ok [of opts extra c names path files lines rs xs rm fallocs fm] call_time assms by blast

theorem router_setup_spec_witness:
  "\<exists>R. demo_setup = Returns R \<and> router_ok R \<and> rt_names R = [''s1-eth1'', ''s1-eth2'', ''s1-eth3''] \<and>
     route_table (rt_routes R) (rt_mem R) = demo_rs"
  using router_setup_spec [OF demo_config _ _ _ demo_file_ok demo_mallocs_ok(2,1) demo_allocs_ok,
      of "''s1_routes.txt''" "\<lambda>path. if path = ''s1_routes.txt'' then Some demo_file else None"]
  by (auto simp: demo_setup_def)

text \<open>
  C21: A router that was started in empty memory and ends has freed every list cell of its routes, the
  names of its interfaces, and its whole cost table: every cell, every entry, all the headers of the
  lists and their array, each once. Of what the set-up of \<open>main\<close> allocated there stay the routing
  entries, one for each line of the routes file, and the stream and the line buffer with which the file
  was read, and nothing else.
\<close>

theorem router_exit_spec:
  assumes "router_config opts extra = Returns (c, names)"
    and "cfg_routing_file c = Some path" and "length path < 100" and "files path = Some lines"
    and "route_file lines rs" and "length xs = length lines" and "fresh_allocs xs (no_mem :: routing_entry mem)"
    and "allocs_ok fallocs no_mem"
  shows "\<exists>R R'. router_setup opts extra files (route_allocs xs) no_mem fallocs no_mem = Returns R \<and>
     router_exit R = Some R' \<and> nodes (rt_mem R') = Map.empty \<and> rt_names R' = [] \<and>
     snd (rt_tbl R') = no_mem \<and> \<not> head_alloc (fst (rt_tbl R')) \<and> True \<notin> set (header_alloc (fst (rt_tbl R'))) \<and>
     length (header_alloc (fst (rt_tbl R'))) = 1000 \<and>
     dom (objs (rt_mem R')) = set (map fst xs) \<and> card (dom (objs (rt_mem R'))) = length lines \<and>
     blocks (rt_mem R') = [Line_Buffer, Stream_Block]"
proof -
  have "card (set (map fst xs)) = length lines"
    using assms(6,7) distinct_card [of "map fst xs"] by (simp add: fresh_allocs_def)
  with router_setup_exit [of opts extra c names path files lines rs xs fallocs, OF assms] show ?thesis by metis
qed

theorem router_exit_spec_witness:
  "\<exists>R'. router_exit demo_router = Some R' \<and> snd (rt_tbl R') = no_mem \<and> card (dom (objs (rt_mem R'))) = length demo_file \<and>
     blocks (rt_mem R') = [Line_Buffer, Stream_Block]"
proof -
  let ?files = "\<lambda>path. if path = ''s1_routes.txt'' then Some demo_file else None"
  from router_exit_spec [OF demo_config _ _ _ demo_file_ok demo_mallocs_ok(2,1) demo_allocs_ok,
      of "''s1_routes.txt''" ?files] obtain R R' where
    "demo_setup = Returns R" "router_exit R = Some R'" "snd (rt_tbl R') = no_mem"
    "card (dom (objs (rt_mem R'))) = length demo_file" "blocks (rt_mem R') = [Line_Buffer, Stream_Block]"
    by (auto simp: demo_setup_def)
  moreover from this(1) demo_router_ok(1) have "R = demo_router" by (metis outcome.inject(1))
  ultimately show ?thesis by blast
qed

text \<open>
  C2: In every interleaving of the main thread and the router's thread each pipe holds at most
  one number and never both hold one, so no message is ever read together with another.
\<close>

theorem router_one_message:
  assumes "router_ok R" and "router_reachable advs R y" and "advs \<subseteq> valid_advances"
  shows "holds_one (m2t (sh y)) \<and> holds_one (t2m (sh y)) \<and> (m2t (sh y) = [] \<or> t2m (sh y) = [])"
  using rt.one_message [of R thread_init advs y] assms unfolding exited_phase by blast

theorem router_one_message_witness:
  "\<exists>y. router_reachable {100, 200} demo_router y \<and> is_blocked (sh y) \<and>
     (m2t (sh y) = [] \<or> t2m (sh y) = [])"
proof -
  from blocked_run_ends obtain y where y: "play demo_router blocked_run (sys_init thread_init) = Some y"
    "is_blocked (sh y)" by blast
  with run_reachable(2) have "router_reachable {100, 200} demo_router y" by blast
  with router_one_message [OF demo_router_ok(2) this] y(2) show ?thesis by (auto simp: valid_advances_def)
qed



text \<open>
  C1: Between rounds and at the end, the time the main thread has counted (\<open>time_elapsed\<close>, an
  \<open>int\<close> that wraps around) is the time charged to the router's thread for its calls, plus the rests
  of rounds it gave up to block, plus the rounds the main thread slept through.
\<close>

theorem router_time_accounted:
  assumes "router_ok R" and "router_reachable advs R y" and "advs \<subseteq> valid_advances"
    and "m_pc (mn y) = M_Ack \<or> m_pc (mn y) = M_Done"
  shows "m_elapsed (mn y) = word_of_int (charged y + forfeited y + waited y)"
  using rt.time_accounted [of R thread_init advs y] assms unfolding exited_phase by blast

theorem router_time_accounted_witness:
  "\<exists>y. router_reachable {100, 200} demo_router y \<and> m_pc (mn y) = M_Ack \<and>
     m_elapsed (mn y) = word_of_int (charged y + forfeited y + waited y) \<and> 0 < waited y"
proof -
  have "\<exists>y. play demo_router (blocked_run @ [Main 200]) (sys_init thread_init) = Some y \<and> m_pc (mn y) = M_Ack \<and> waited y = 200"
    by (simp add: play_simps blocked_run_def idle_def upt_rec quiet_answer_def thread_ended_def at_def del: call_name.simps)
  then obtain y where y: "play demo_router (blocked_run @ [Main 200]) (sys_init thread_init) = Some y"
    "m_pc (mn y) = M_Ack" "waited y = 200" by blast
  have "\<forall>mv \<in> set (blocked_run @ [Main 200]). allowed {100, 200} mv"
    using run_allowed(2) by (simp add: allowed_def)
  with play_router_reachable [OF y(1)] have "router_reachable {100, 200} demo_router y" by blast
  with router_time_accounted [OF demo_router_ok(2) this] y show ?thesis by (auto simp: valid_advances_def)
qed

text \<open>
  C3: With system calls of the thread that do not fail and no command of length 0, the two threads never
  deadlock: until the experiment is over, or a failed pipe call of the main thread has ended the
  process, some thread can take a step that changes the state. The
  one exception is in the code: the stop message is not seen by a thread parked in its blocking
  poll until a packet arrives.
\<close>

theorem router_no_deadlock:
  assumes "router_ok R" and "reachable advs (reliable_worker R) thread_ended thread_init y"
    and "advs \<subseteq> valid_advances" and "0 \<notin> advs" and "adv \<in> advs"
    and "\<not> main_over (mn y)" and "\<not> (m_pc (mn y) = M_Join \<and> thread_phase (wk y) = W_Parked)"
  shows "\<exists>y'. sys_step advs (reliable_worker R) thread_ended y y' \<and> y' \<noteq> y"
  using rr.no_deadlock [of R thread_init advs y adv] assms unfolding exited_phase by blast

theorem router_no_deadlock_witness:
  "\<exists>y'. sys_step {100} (reliable_worker demo_router) thread_ended (sys_init thread_init) y' \<and>
     y' \<noteq> sys_init thread_init"
  using router_no_deadlock [OF demo_router_ok(2) reachable.start, of "{100}" 100]
  by (simp add: valid_advances_def sys_init_def main_init_def main_over_def)

text \<open>
  C6: In every reachable state in which the main thread has sent a command of length 0 to a thread that
  has begun its rounds and has not read the command yet, the thread can read it, and every step there
  either ends the thread while the main thread goes on waiting for its report, or is a failing read of
  the main thread, which ends the process. After the thread has ended neither can ever move again, but
  for that failing read: a deadlock, although no stop was asked for. (A thread that takes 0 for its first
  command runs on, and to a parked thread the command is not sent.)
\<close>

theorem router_zero_advance_deadlock:
  assumes "router_ok R" and "router_reachable advs R y" and "advs \<subseteq> valid_advances"
    and "m_pc (mn y) = M_Read 0" and "m2t (sh y) \<noteq> []" and "t_pc (wk y) \<noteq> T_Start" and "t_pc (wk y) \<noteq> T_FirstRead"
    and "\<not> thread_ended (wk y)"
  shows "(\<exists>y'. sys_step advs (reliable_worker R) thread_ended y y' \<and> thread_ended (wk y')) \<and>
     (\<forall>y'. sys_step advs (router_worker R) thread_ended y y' \<longrightarrow>
        m_pc (mn y') = M_Exit (-1) \<or>
        thread_ended (wk y') \<and> m_pc (mn y') = M_Read 0 \<and> \<not> stop (sh y') \<and>
        (\<forall>y''. sys_step advs (router_worker R) thread_ended y' y'' \<longrightarrow> m_pc (mn y'') = M_Exit (-1)))"
proof -
  from zero_command_waits [OF assms] have w: "m2t (sh y) = show_int 0" "t2m (sh y) = []" "\<not> stop (sh y)"
    "t_pc (wk y) = T_ResumeRead \<or> (\<exists>k. t_pc (wk y) = T_Read k)" by blast+
  let ?w = "(wk y)\<lparr>t_time := 0, t_pc := T_Exited\<rparr>" and ?s = "(sh y)\<lparr>m2t := []\<rparr>"
  have "env_good quiet_answer" by (simp add: env_good_def quiet_answer_def answer_def)
  then have "reliable_worker R (sh y) (wk y) Silent ?s ?w"
    using zero_command_read [OF w(1,4), of R quiet_answer] unfolding reliable_worker_def by (intro exI [of _ quiet_answer]) simp
  moreover have "\<not> main_over (mn y)" using assms(4) by (simp add: main_over_def)
  ultimately have "sys_step advs (reliable_worker R) thread_ended y (count Silent (y\<lparr>sh := ?s, wk := ?w\<rparr>))"
    by (intro sys_step.worker_moves)
  moreover have "thread_ended (wk (count Silent (y\<lparr>sh := ?s, wk := ?w\<rparr>)))" by (simp add: thread_ended_def)
  moreover have "m_pc (mn y') = M_Exit (-1) \<or> thread_ended (wk y') \<and> m_pc (mn y') = M_Read 0 \<and> \<not> stop (sh y') \<and>
      t2m (sh y') = []" if "sys_step advs (router_worker R) thread_ended y y'" for y'
    using that
  proof (rule sys_stepE)
    fix e s' m'
    assume "main_step e (thread_ended (wk y)) (sh y) (mn y) = Some (s', m')"
      "y' = y\<lparr>sh := s', mn := m', waited := waited y + slept y\<rparr>"
    then show ?thesis using assms(4) w(2) by (cases "a_read_fails e") (auto simp: main_step_def pipe_read_fails)
  next
    fix e s' w'
    assume "router_worker R (sh y) (wk y) e s' w'" "y' = count e (y\<lparr>sh := s', wk := w'\<rparr>)"
    then show ?thesis using zero_command_read [OF w(1,4), of R] assms(4) w(2,3)
      by (auto simp: router_worker_def thread_ended_def)
  qed
  moreover have "m_pc (mn y'') = M_Exit (-1)"
    if "sys_step advs (router_worker R) thread_ended y y'" "sys_step advs (router_worker R) thread_ended y' y''"
      "thread_ended (wk y')" "m_pc (mn y') = M_Read 0" "t2m (sh y') = []" for y' y''
  proof -
    have "router_reachable advs R y'" using assms(2) that(1) by (rule reachable.more)
    then have "router_ok R \<and> thread_ok R (wk y')" using assms(1) router_inv by blast
    moreover have "thread_phase (wk y') = W_Exited" using that(3) by (simp add: exited_phase)
    ultimately show ?thesis using rt.dead_end [of R y' 0 advs y''] that(2,4,5) unfolding exited_phase by blast
  qed
  ultimately show ?thesis by blast
qed

theorem router_zero_advance_deadlock_witness:
  "\<exists>y y'. router_reachable {0, 1} demo_router y \<and> m2t (sh y) = show_int 0 \<and>
     sys_step {0, 1} (reliable_worker demo_router) thread_ended y y' \<and> thread_ended (wk y')"
proof -
  from zero_run_sent [OF demo_router_ok(2)] obtain y where y: "play demo_router zero_run (sys_init thread_init) = Some y"
    "m_pc (mn y) = M_Read 0" "m2t (sh y) = show_int 0" "t_pc (wk y) = T_Read K_Polled" by blast
  from run_reachable(1) [OF y(1)] have r: "router_reachable {0, 1} demo_router y" by blast
  have "m2t (sh y) \<noteq> []" unfolding y(3) by (simp add: show_int_def)
  with router_zero_advance_deadlock [OF demo_router_ok(2) r _ y(2)] r y(3,4) show ?thesis
    by (auto simp: valid_advances_def thread_ended_def)
qed

text \<open>
  C4: In every interleaving the packets sent are the received packets that have a route, in the
  order in which they were received, each unchanged and on the socket of its route; at most the last
  one received is still in the thread's hands, or lost because the thread ended. The socket is one of the router's.
\<close>

theorem router_forwarding:
  assumes "router_ok R" and "router_reachable advs R y"
  shows "(\<exists>rs rest. t_recvd (wk y) = rs @ rest \<and> length rest \<le> 1 \<and> t_sent (wk y) = forwarded R rs \<and>
       (rest \<noteq> [] \<longrightarrow> pending (wk y) \<or> thread_ended (wk y))) \<and>
     (\<forall>(d, p) \<in> set (t_sent (wk y)). d < length (rt_names R))"
proof -
  from forward_ok_prefix [OF forward_ok_reachable [OF assms]]
  have "\<exists>rs rest. t_recvd (wk y) = rs @ rest \<and> length rest \<le> 1 \<and> t_sent (wk y) = forwarded R rs \<and>
       (rest \<noteq> [] \<longrightarrow> pending (wk y) \<or> thread_ended (wk y))" .
  moreover from this have "\<exists>rs. t_sent (wk y) = forwarded R rs" by blast
  ultimately show ?thesis using forwarded_range [of R] assms(1) by (auto simp: router_ok_def)
qed

theorem router_forwarding_witness:
  "\<exists>y rs. router_reachable {100, 200} demo_router y \<and> t_sent (wk y) = [(1, recv_buf (Some demo_pkt), 34)] \<and>
     t_sent (wk y) = forwarded demo_router rs"
proof -
  from packet_run_ends obtain y where y: "play demo_router (packet_run demo_pkt) (sys_init thread_init) = Some y"
    "t_sent (wk y) = [(1, recv_buf (Some demo_pkt), 34)]" by blast
  with run_reachable(3) have "router_reachable {100, 200} demo_router y" by blast
  with router_forwarding [OF demo_router_ok(2) this] y(2) show ?thesis by blast
qed

text \<open>
  C7: The router overruns a round by one call at most: what it reports, and what the main thread
  hands on to the kernel with the next acknowledgement, is between 0 and 50 microseconds.
\<close>

theorem router_overrun_bound:
  assumes "router_ok R" and "router_reachable advs R y" and "advs \<subseteq> valid_advances"
  shows "0 \<le> m_ret (mn y) \<and> m_ret (mn y) \<le> 50 \<and>
     (t2m (sh y) \<noteq> [] \<longrightarrow> (\<exists>v. t2m (sh y) = show_int v \<and> (v = THREAD_BLOCKED \<or> 0 \<le> v \<and> v \<le> 50)))"
proof -
  from report_ok_reachable [OF assms] have r: "report_ok y" .
  have "v = THREAD_BLOCKED \<or> 0 \<le> v" if "-1 \<le> v" for v :: int using that by auto
  with r show ?thesis unfolding report_ok_def by blast
qed

theorem router_overrun_bound_witness:
  "\<exists>y. router_reachable {0, 1} demo_router y \<and> m_pc (mn y) = M_Read 0 \<and> m_ret (mn y) \<le> 50"
proof -
  from zero_run_sent [OF demo_router_ok(2)] obtain y where y: "play demo_router zero_run (sys_init thread_init) = Some y"
    "m_pc (mn y) = M_Read 0" by blast
  with run_reachable(1) have "router_reachable {0, 1} demo_router y" by blast
  with router_overrun_bound [OF demo_router_ok(2) this] y(2) show ?thesis by (auto simp: valid_advances_def)
qed

text \<open>
  C8: Once the main thread has set \<open>stop\<close>, the router's thread receives nothing, sends nothing
  and is charged nothing any more: it goes on at most to the end of its blocking poll, and the
  first message it reads ends it.
\<close>

theorem router_stop_quiesces:
  assumes "router_ok R" and "router_reachable advs R y" and "advs \<subseteq> valid_advances" and "stop (sh y)"
    and "router_worker R (sh y) (wk y) e s' w'"
  shows "t_recvd w' = t_recvd (wk y) \<and> t_sent w' = t_sent (wk y) \<and> e \<in> {Silent, Fault} \<and>
     (m2t s' \<noteq> m2t (sh y) \<longrightarrow> thread_ended w')"
proof -
  from assms(5) obtain en where st: "thread_step R en (sh y) (wk y) = Some (s', w')"
    "e = thread_event R en (sh y) (wk y)" unfolding router_worker_def by blast
  have r: "reachable advs (router_worker R) (\<lambda>w. thread_phase w = W_Exited) thread_init y"
    using assms(2) unfolding exited_phase .
  have inv: "proto_inv (sys_map thread_phase y)"
    using rt.lockstep [OF _ r assms(3)] assms(1) by blast
  then have ph: "thread_phase (wk y) \<in> {W_Await, W_Parked, W_Exited}"
    using assms(4) by (cases "m_pc (mn y)") (auto simp: proto_defs stopped_ok_def)
  show ?thesis
  proof (cases "t_pc (wk y) = T_FirstRead")
    case True
    then have p: "thread_phase (wk y) = W_Await" by (simp add: thread_phase_def)
    have "m2t (sh y) = show_int THREAD_EXITING \<or> m2t (sh y) = []"
      using inv assms(4) p by (cases "m_pc (mn y)") (auto simp: proto_defs stopped_ok_def)
    with st True show ?thesis
      by (auto simp: thread_step_def resume_with_def update_stub_end_def thread_event_def thread_ended_def)
  next
    case False
    with st ph assms(4) show ?thesis
      by (cases "t_pc (wk y)") (auto simp: thread_step_def thread_phase_def thread_event_def thread_ended_def
        elim!: resume_with_cases split: if_splits)
  qed
qed

theorem router_stop_quiesces_witness:
  "\<exists>y s' w' e. router_reachable {-1, 0} demo_router y \<and> stop (sh y) \<and>
     router_worker demo_router (sh y) (wk y) e s' w' \<and> m2t s' \<noteq> m2t (sh y) \<and> thread_ended w'"
proof -
  from stop_run_ends obtain y where y: "play demo_router stop_run (sys_init thread_init) = Some y"
    "stop (sh y)" "m2t (sh y) = show_int THREAD_EXITING" "t_pc (wk y) = T_FirstRead" by blast
  from run_reachable(4) [OF y(1)] have r: "router_reachable {-1, 0} demo_router y" by blast
  obtain s' w' where st: "thread_step demo_router quiet_answer (sh y) (wk y) = Some (s', w')" "m2t s' = []"
    using y by (simp add: thread_step_def resume_with_def)
  then have w: "router_worker demo_router (sh y) (wk y) (thread_event demo_router quiet_answer (sh y) (wk y)) s' w'"
    unfolding router_worker_def by blast
  have "m2t s' \<noteq> m2t (sh y)" using st(2) y(3) by (simp add: show_int_def)
  with router_stop_quiesces [OF demo_router_ok(2) r _ y(2) w] r w y(2) show ?thesis
    by (auto simp: valid_advances_def)
qed
end
