(* ===== verification/Plain_Router.thy ===== *)
theory Plain_Router
  imports Router_System
begin

text \<open>
  The router without virtual time, \<open>main\<close> of \<open>router_n.c\<close>: the same options, routes and lookup, and
  a loop that polls, receives, routes and sends in the main thread itself, with no stub calls.

  \<open>plain_step\<close> is one action of the loop. It serves as the specification of the router under
  virtual time: \<open>matches\<close> relates a state of \<open>process_thread\<close> to the state of the plain loop in
  which the stub calls have left no trace, and every action of the thread is a run (often empty) of
  the plain loop. Virtual time changes when packets are handled, not what happens to them.
\<close>

subsection \<open>Start\<close>

text \<open>The set-up up to the loop; \<open>poll_set\<close> is the result of its allocation, whose failure ends the thread.\<close>

definition plain_setup ::
  "(char \<times> string) list \<Rightarrow> nat \<Rightarrow> (string \<Rightarrow> (nat \<times> string) list option) \<Rightarrow>
   route_alloc list \<Rightarrow> routing_entry mem \<Rightarrow> forwarder outcome" where
  "plain_setup opts extra files rallocs rm =
     (case router_config opts extra of
        Returns (c, names) \<Rightarrow>
          (case cfg_routing_file c of
             None \<Rightarrow> Faults
           | Some path \<Rightarrow>
               if length path < 100
               then (case populate_routing_list rallocs (files path) rm of
                       Returns (l, rm) \<Rightarrow> Returns \<lparr>rt_routes = l, rt_mem = rm, rt_names = names\<rparr>
                     | Exits code \<Rightarrow> Exits code
                     | Blocks \<Rightarrow> Blocks
                     | Faults \<Rightarrow> Faults)
               else Faults)
      | Exits code \<Rightarrow> Exits code
      | Blocks \<Rightarrow> Blocks
      | Faults \<Rightarrow> Faults)"

subsection \<open>The loop\<close>

text \<open>\<open>P_PollRet\<close> carries the result of \<open>poll\<close> and whether errno was EINTR.\<close>

datatype plain_pc =
  P_Open | P_Poll | P_PollRet int bool | P_Scan | P_Recv | P_Got | P_Send | P_Block | P_Exited

record plain_state =
  p_pc :: plain_pc
  p_revents :: "bool list"
  p_i :: nat
  p_runnable :: bool
  p_buf :: string
  p_size :: int
  p_dst :: int
  p_recvd :: "(string \<times> int) list"
  p_sent :: "(nat \<times> string \<times> int) list"

definition plain_init :: plain_state where
  "plain_init = \<lparr>p_pc = P_Open, p_revents = [], p_i = 0, p_runnable = False, p_buf = replicate BUFSIZE NUL,
     p_size = 0, p_dst = 0, p_recvd = [], p_sent = []\<rparr>"

definition plain_step :: "'z forwarder_scheme \<Rightarrow> env \<Rightarrow> plain_state \<Rightarrow> plain_state option" where
  "plain_step R e p =
     (let n_intfs = length (rt_names R)
      in case p_pc p of
        P_Open \<Rightarrow> Some (p\<lparr>p_pc := if e_open e then P_Poll else P_Exited\<rparr>)
      | P_Poll \<Rightarrow> Some (p\<lparr>p_pc := P_PollRet (e_ret e) (e_eintr e), p_revents := e_revents e\<rparr>)
      | P_PollRet r eintr \<Rightarrow>
          Some (if r < 0 \<and> eintr then p\<lparr>p_pc := P_Poll\<rparr>
                else if r < 0 then p\<lparr>p_pc := P_Exited\<rparr>
                else p\<lparr>p_pc := P_Scan, p_runnable := False, p_i := 0\<rparr>)
      | P_Scan \<Rightarrow>
          if p_i p < n_intfs
          then if at (p_revents p) (p_i p) = Some True
               then Some (p\<lparr>p_pc := P_Recv, p_runnable := True, p_buf := replicate BUFSIZE NUL\<rparr>)
               else Some (p\<lparr>p_i := p_i p + 1\<rparr>)
          else Some (p\<lparr>p_pc := if p_runnable p then P_Poll else P_Block\<rparr>)
      | P_Recv \<Rightarrow>
          (let buf = recv_buf (e_recv e); size = recv_size (e_recv e)
           in Some (p\<lparr>p_pc := P_Got, p_buf := buf, p_size := size,
                     p_recvd := p_recvd p @ (if size > 0 then [(buf, size)] else [])\<rparr>))
      | P_Got \<Rightarrow>
          if p_size p > 0
          then (case get_dst_sock_idx (rt_routes R) (rt_mem R) (p_buf p) (rt_names R) of
                  None \<Rightarrow> None
                | Some d \<Rightarrow> Some (p\<lparr>p_pc := P_Send, p_dst := d\<rparr>))
          else Some (p\<lparr>p_pc := P_Scan, p_i := p_i p + 1\<rparr>)
      | P_Send \<Rightarrow>
          if p_dst p \<noteq> -1
          then if 0 \<le> p_dst p \<and> p_dst p < int n_intfs
               then Some (p\<lparr>p_pc := P_Scan, p_i := p_i p + 1,
                           p_sent := p_sent p @ [(nat (p_dst p), p_buf p, p_size p)]\<rparr>)
               else None
          else Some (p\<lparr>p_pc := P_Poll\<rparr>)
      | P_Block \<Rightarrow>
          Some (p\<lparr>p_pc := if e_ret e < 0 \<and> e_eintr e then P_Block else if e_ret e < 0 then P_Exited else P_Poll\<rparr>)
      | P_Exited \<Rightarrow> None)"

inductive plain_reachable :: "'z forwarder_scheme \<Rightarrow> plain_state \<Rightarrow> bool" for R :: "'z forwarder_scheme" where
  plain_start: "plain_reachable R plain_init"
| plain_more: "plain_reachable R p \<Longrightarrow> plain_step R e p = Some p' \<Longrightarrow> plain_reachable R p'"

subsection \<open>What is forwarded\<close>

definition plain_ok :: "'z forwarder_scheme \<Rightarrow> plain_state \<Rightarrow> bool" where
  "plain_ok R p \<longleftrightarrow>
     (p_pc p = P_Send \<longrightarrow>
        get_dst_sock_idx (rt_routes R) (rt_mem R) (p_buf p) (rt_names R) = Some (p_dst p)) \<and>
     (if p_pc p = P_Send \<or> p_pc p = P_Got \<and> 0 < p_size p
      then \<exists>rs. p_recvd p = rs @ [(p_buf p, p_size p)] \<and> p_sent p = forwarded R rs
      else p_sent p = forwarded R (p_recvd p))"

lemma forwarded_none [simp]: "forwarded R [] = []"
  by (simp add: forwarded_def)

lemma plain_ok_step: "plain_ok R p \<Longrightarrow> plain_step R e p = Some p' \<Longrightarrow> plain_ok R p'"
  by (cases "p_pc p")
    (auto simp: plain_ok_def plain_step_def Let_def forwarded_snoc split: if_splits option.splits)

lemma plain_ok_init: "plain_ok R plain_init"
  by (simp add: plain_ok_def plain_init_def)

lemma plain_ok_reachable: "plain_reachable R p \<Longrightarrow> plain_ok R p"
  by (induction rule: plain_reachable.induct) (auto intro: plain_ok_init plain_ok_step)

subsection \<open>The thread as a run of the plain loop\<close>

text \<open>Where the plain loop is when the thread is at a given point, with the scan's index and flag.\<close>

definition called :: "stub_call \<Rightarrow> thread \<Rightarrow> plain_pc" where
  "called k w =
     (case k of
        K_Polled \<Rightarrow> P_PollRet (t_ret w) (t_eintr w)
      | K_Flushed \<Rightarrow> P_Recv
      | K_Received \<Rightarrow> P_Got
      | K_Routed \<Rightarrow> P_Send
      | K_Sent \<Rightarrow> P_Scan)"

definition plain_at :: "thread \<Rightarrow> plain_pc \<times> nat \<times> bool" where
  "plain_at w =
     (case t_pc w of
        T_Start \<Rightarrow> (P_Open, t_i w, t_runnable w)
      | T_FirstRead \<Rightarrow> (P_Poll, t_i w, t_runnable w)
      | T_Repeat \<Rightarrow> (P_Poll, t_i w, t_runnable w)
      | T_Poll \<Rightarrow> (P_Poll, t_i w, t_runnable w)
      | T_Stub k \<Rightarrow> (called k w, if k = K_Sent then t_i w + 1 else t_i w, t_runnable w)
      | T_Read k \<Rightarrow> (called k w, if k = K_Sent then t_i w + 1 else t_i w, t_runnable w)
      | T_Ret r k \<Rightarrow> (called k w, if k = K_Sent then t_i w + 1 else t_i w, t_runnable w)
      | T_PollRet \<Rightarrow> (P_PollRet (t_ret w) (t_eintr w), t_i w, t_runnable w)
      | T_Skip \<Rightarrow> (P_Scan, 0, False)
      | T_Scan \<Rightarrow> (P_Scan, t_i w, t_runnable w)
      | T_Recv \<Rightarrow> (P_Recv, t_i w, t_runnable w)
      | T_Got \<Rightarrow> (P_Got, t_i w, t_runnable w)
      | T_Route \<Rightarrow> (P_Send, t_i w, t_runnable w)
      | T_Block \<Rightarrow> (P_Block, t_i w, t_runnable w)
      | T_SendBlocked \<Rightarrow> (P_Block, t_i w, t_runnable w)
      | T_BlockPoll \<Rightarrow> (P_Block, t_i w, t_runnable w)
      | T_Unblock \<Rightarrow> (P_Scan, 0, False)
      | T_ResumeRead \<Rightarrow> (P_Scan, 0, False)
      | T_Exited \<Rightarrow> (P_Exited, t_i w, t_runnable w))"

definition erase :: "thread \<Rightarrow> plain_state" where
  "erase w =
     (case plain_at w of (pc, i, r) \<Rightarrow>
        \<lparr>p_pc = pc, p_revents = t_revents w, p_i = i, p_runnable = r, p_buf = t_buf w, p_size = t_size w,
          p_dst = t_dst w, p_recvd = t_recvd w, p_sent = t_sent w\<rparr>)"

definition matches :: "thread \<Rightarrow> plain_state \<Rightarrow> bool" where
  "matches w p \<longleftrightarrow> p_recvd p = t_recvd w \<and> p_sent p = t_sent w \<and>
     (t_pc w \<noteq> T_Exited \<longrightarrow> p\<lparr>p_revents := t_revents w\<rparr> = erase w \<and> (p_pc p \<noteq> P_Block \<longrightarrow> p_revents p = t_revents w))"

text \<open>No move of the plain loop, or one.\<close>

lemma matches_stay: "plain_reachable R p \<Longrightarrow> matches w' p \<Longrightarrow> \<exists>p'. plain_reachable R p' \<and> matches w' p'"
  by blast

lemma matches_move:
  "plain_reachable R p \<Longrightarrow> plain_step R e p = Some p' \<Longrightarrow> matches w' p' \<Longrightarrow>
   \<exists>p'. plain_reachable R p' \<and> matches w' p'"
  by (blast intro: plain_more)

lemmas erase_defs = matches_def erase_def plain_at_def called_def

lemma matches_exit: "matches w p \<Longrightarrow> matches (w\<lparr>t_pc := T_Exited\<rparr>) p"
  by (simp add: matches_def)

lemma matches_time [simp]: "matches (w\<lparr>t_time := v\<rparr>) p \<longleftrightarrow> matches w p"
proof -
  have "called k (w\<lparr>t_time := v\<rparr>) = called k w" for k by (cases k) (simp_all add: called_def)
  then have "plain_at (w\<lparr>t_time := v\<rparr>) = plain_at w" by (simp add: plain_at_def split: thread_pc.split)
  then show ?thesis by (simp add: matches_def erase_def)
qed

lemma matches_call:
  "matches w p \<Longrightarrow> t_pc w \<in> {T_Stub k, T_Read k, T_Ret r k} \<Longrightarrow> matches (after_call k w) p"
  by (cases k) (auto simp: erase_defs after_call_def)

lemma matches_stub:
  "matches w p \<Longrightarrow> t_pc w \<in> {T_Stub k, T_Read k, T_Ret r k} \<Longrightarrow> pc \<in> {T_Stub k, T_Read k, T_Ret r' k} \<Longrightarrow>
   matches (w\<lparr>t_pc := pc\<rparr>) p"
  by (cases k) (auto simp: erase_defs)

lemma matches_read:
  assumes "resume_with s w quits go = Some (s', w')" and "matches w p"
    and "\<And>v. matches (go (w\<lparr>t_time := v\<rparr>)) p"
  shows "matches w' p"
  using assms(1)
proof (rule resume_with_cases)
  fix v rest
  assume "w' = (if quits v then w\<lparr>t_time := v, t_pc := T_Exited\<rparr> else go (w\<lparr>t_time := v\<rparr>))"
  with assms(2,3) matches_exit [of "w\<lparr>t_time := v\<rparr>" p] show ?thesis by simp
qed

text \<open>Points at which the plain loop does not move.\<close>

lemma matches_silent:
  assumes R: "router_ok R" and ok: "thread_ok R w" and st: "thread_step R e s w = Some (s', w')" and m: "matches w p"
    and pc: "t_pc w \<notin> {T_Start, T_Poll, T_PollRet, T_Scan, T_Recv, T_Got, T_Route, T_BlockPoll}"
  shows "matches w' p"
proof (cases "t_pc w")
  case (T_Stub k)
  then have t: "0 \<le> t_time w" using ok by (simp add: thread_ok_def running_def)
  from stub_step [OF R T_Stub t] st have "w' \<in> {(w\<lparr>t_time := t_time w - 50\<rparr>)\<lparr>t_pc := T_Ret (e_fall e) k\<rparr>,
      (w\<lparr>t_time := t_time w - 50\<rparr>)\<lparr>t_pc := T_Read k\<rparr>}" by (auto split: if_splits)
  with m T_Stub matches_stub [of "w\<lparr>t_time := t_time w - 50\<rparr>" p k 0 _ "e_fall e"] show ?thesis by auto
next
  case (T_Read k)
  then have "resume_with s w (\<lambda>v. fst (update_stub_end (Some (call_name k)) v) < 0 \<or> stop s) (after_call k) = Some (s', w')"
    using st by (simp add: thread_step_def)
  then show ?thesis
    by (rule matches_read) (use m T_Read in \<open>auto intro!: matches_call [of _ _ _ 0]\<close>)
next
  case (T_Ret r k)
  with st have "w' = w\<lparr>t_pc := T_Exited\<rparr> \<or> w' = after_call k w" by (auto simp: thread_step_def split: if_splits)
  with m T_Ret matches_exit matches_call [of w p k r] show ?thesis by auto
next
  case T_FirstRead
  then have "resume_with s w (\<lambda>v. fst (update_stub_end None v) < 0) (\<lambda>w. w\<lparr>t_pc := T_Repeat\<rparr>) = Some (s', w')"
    using st by (simp add: thread_step_def)
  then show ?thesis by (rule matches_read) (use m T_FirstRead in \<open>auto simp: erase_defs\<close>)
next
  case T_ResumeRead
  then have "resume_with s w (\<lambda>v. v \<le> 0 \<or> stop s) (\<lambda>w. w\<lparr>t_pc := T_Skip\<rparr>) = Some (s', w')"
    using st by (simp add: thread_step_def)
  then show ?thesis by (rule matches_read) (use m T_ResumeRead in \<open>auto simp: erase_defs\<close>)
next
  case T_SendBlocked
  with st m show ?thesis by (auto simp: thread_step_def pipe_send_def Let_def erase_defs split: if_splits)
qed (use st m pc in \<open>auto simp: thread_step_def erase_defs split: if_splits\<close>)

text \<open>The other points: the plain loop makes the same move, and comes out of its blocking poll by a poll.\<close>

lemma matches_unblock:
  fixes e :: env
  assumes m: "matches w p" and pc: "t_pc w = T_BlockPoll" and r: "plain_reachable R p" and "0 \<le> e_ret e"
  shows "\<exists>p'. plain_reachable R p' \<and> matches (w\<lparr>t_pc := T_Unblock, t_revents := e_revents e\<rparr>) p'"
proof -
  have p: "p_pc p = P_Block" using m pc by (cases p) (simp add: erase_defs)
  let ?p1 = "p\<lparr>p_pc := P_Poll\<rparr>"
  let ?p2 = "p\<lparr>p_pc := P_PollRet (e_ret e) (e_eintr e), p_revents := e_revents e\<rparr>"
  let ?p3 = "?p2\<lparr>p_pc := P_Scan, p_runnable := False, p_i := 0\<rparr>"
  have "plain_step R e p = Some ?p1" "plain_step R e ?p1 = Some ?p2" "plain_step R e ?p2 = Some ?p3"
    using p assms(4) by (simp_all add: plain_step_def)
  with r have "plain_reachable R ?p3" by (blast intro: plain_more)
  moreover have "matches (w\<lparr>t_pc := T_Unblock, t_revents := e_revents e\<rparr>) ?p3"
    using m pc by (cases p) (simp add: erase_defs)
  ultimately show ?thesis by blast
qed

lemma matches_step:
  assumes R: "router_ok R" and ok: "thread_ok R w" and st: "thread_step R e s w = Some (s', w')"
    and m: "matches w p" and r: "plain_reachable R p"
  shows "\<exists>p'. plain_reachable R p' \<and> matches w' p'"
proof (cases "t_pc w = T_BlockPoll")
  case True
  then have "matches (w\<lparr>t_pc := T_BlockPoll, t_revents := rv\<rparr>) p" for rv
    using m by (cases p) (simp add: erase_defs)
  with st True matches_unblock [OF m True r, of e] m r matches_exit [OF m] show ?thesis
    by (auto simp: thread_step_def split: if_splits)
next
  case False
  show ?thesis
  proof (cases "t_pc w \<in> {T_Start, T_Poll, T_PollRet, T_Scan, T_Recv, T_Got, T_Route}")
    case True
    then have p: "p = erase w" using m by (cases p) (auto simp: erase_defs)
    have "t_pc w' = T_Exited \<and> matches w' p \<or> plain_step R e p = Some (erase w')"
      using st True m unfolding p
      by (elim insertE) (auto simp: thread_step_def plain_step_def erase_defs Let_def split: if_splits option.splits)
    moreover have "matches w' (erase w')" by (auto simp: erase_defs split: thread_pc.split stub_call.split)
    ultimately show ?thesis using r by (blast intro: plain_more)
  next
    case pc: False
    with False matches_silent [OF R ok st m] r show ?thesis by blast
  qed
qed

lemma matches_reachable:
  assumes R: "router_ok R" and r: "router_reachable advs R y"
  shows "\<exists>p. plain_reachable R p \<and> matches (wk y) p"
  using r
proof (induction rule: reachable.induct)
  case start
  have "matches thread_init plain_init" by (simp add: erase_defs thread_init_def plain_init_def)
  then show ?case using plain_start by (auto simp: sys_init_def)
next
  case (more y y')
  from more(2) show ?case
  proof (rule sys_stepE)
    fix e s' w'
    assume y: "y' = count e (y\<lparr>sh := s', wk := w'\<rparr>)" and "router_worker R (sh y) (wk y) e s' w'"
    then obtain en where "thread_step R en (sh y) (wk y) = Some (s', w')" unfolding router_worker_def by blast
    from matches_step [OF R router_inv [OF R more(1)] this] more.IH show ?thesis by (auto simp: y)
  qed (use more.IH in simp)
qed

subsection \<open>Properties\<close>

text \<open>A run of the plain loop written down as the answers of the system.\<close>

fun plain_run :: "'z forwarder_scheme \<Rightarrow> env list \<Rightarrow> plain_state \<Rightarrow> plain_state option" where
  "plain_run R [] p = Some p"
| "plain_run R (e # es) p = Option.bind (plain_step R e p) (plain_run R es)"

lemma plain_run_reachable: "plain_run R es p = Some p' \<Longrightarrow> plain_reachable R p \<Longrightarrow> plain_reachable R p'"
  by (induction es arbitrary: p) (auto split: bind_splits intro: plain_more)

lemma plain_demo:
  "\<exists>p. plain_run demo_router [quiet_answer, answer 0 [True] None, quiet_answer, quiet_answer,
       answer 0 [] (Some demo_pkt), quiet_answer, quiet_answer] plain_init = Some p \<and>
     p_recvd p = [(recv_buf (Some demo_pkt), 34)] \<and> p_sent p = [(1, recv_buf (Some demo_pkt), 34)]"
  by (simp add: plain_step_def plain_init_def quiet_answer_def answer_def at_def Let_def demo_router_ok(3)
      demo_lookup demo_lookup(1) [unfolded demo_router_ok(3)])

text \<open>
  C32: The router without virtual time sends the received packets that have a route, in the order
  in which they were received, each unchanged and on the socket of its route, and every received packet
  whose turn is over has been decided so: only one still in the loop's hands is open.
\<close>

theorem plain_forwarding:
  assumes "plain_reachable R p"
  shows "\<exists>rs rest. p_recvd p = rs @ rest \<and> length rest \<le> 1 \<and> p_sent p = forwarded R rs \<and>
     (rest \<noteq> [] \<longrightarrow> p_pc p = P_Send \<or> p_pc p = P_Got)"
proof (cases "p_pc p = P_Send \<or> p_pc p = P_Got \<and> 0 < p_size p")
  case True
  then show ?thesis using plain_ok_reachable [OF assms] unfolding plain_ok_def
    by (metis One_nat_def le_refl length_Cons list.size(3))
next
  case False
  then show ?thesis using plain_ok_reachable [OF assms] unfolding plain_ok_def
    by (metis append_Nil2 list.size(3) zero_le)
qed

theorem plain_forwarding_witness:
  "\<exists>p rs. plain_reachable demo_router p \<and> p_sent p = [(1, recv_buf (Some demo_pkt), 34)] \<and>
     p_sent p = forwarded demo_router rs"
proof -
  from plain_demo plain_run_reachable [OF _ plain_start] obtain p where p: "plain_reachable demo_router p"
    "p_sent p = [(1, recv_buf (Some demo_pkt), 34)]" by blast
  with plain_forwarding [OF p(1)] show ?thesis by blast
qed

text \<open>
  C31: Virtual time does not change what a router does: whatever the router under virtual time has
  received and sent, in whichever interleaving with its main thread, the router without virtual time
  can have received and sent too, being at the corresponding point of its loop.
\<close>

theorem router_refines_plain:
  assumes "router_ok R" and "router_reachable advs R y"
  shows "\<exists>p. plain_reachable R p \<and> p_recvd p = t_recvd (wk y) \<and> p_sent p = t_sent (wk y) \<and>
     (\<not> thread_ended (wk y) \<longrightarrow> p_pc p = fst (plain_at (wk y)))"
proof -
  from matches_reachable [OF assms] obtain p where p: "plain_reachable R p" "matches (wk y) p" by blast
  then show ?thesis by (cases p) (auto simp: matches_def thread_ended_def erase_def split: prod.splits)
qed

theorem router_refines_plain_witness:
  "\<exists>p. plain_reachable demo_router p \<and> p_sent p = [(1, recv_buf (Some demo_pkt), 34)]"
proof -
  from packet_run_ends obtain y where y: "play demo_router (packet_run demo_pkt) (sys_init thread_init) = Some y"
    "t_sent (wk y) = [(1, recv_buf (Some demo_pkt), 34)]" by blast
  with run_reachable(3) have "router_reachable {100, 200} demo_router y" by blast
  with router_refines_plain [OF demo_router_ok(2) this] y(2) show ?thesis by metis
qed

end
