(* ===== verification/Stream_IO.thy ===== *)
theory Stream_IO
  imports C_Strings
begin

text \<open>
  Reading and writing of byte streams: \<open>cread\<close>, \<open>cwrite\<close> and \<open>read_n\<close> of \<open>utils.c\<close>, which
  \<open>simpletun.c\<close> repeats word for word.

  A stream is the list of pieces in which its bytes will arrive, which \<open>read\<close> never joins; so a
  statement about every such list covers every way in which \<open>read\<close> can fall short. \<open>None\<close> in the
  list is a \<open>read\<close> that fails. The destination buffer has a size, writing past it is a fault.
\<close>

record stream =
  pieces :: "string option list"
  closed :: bool

text \<open>\<open>read\<close> of up to \<open>n\<close> bytes: nothing at the end of a closed stream.\<close>

definition cread :: "nat \<Rightarrow> stream \<Rightarrow> (string \<times> stream) outcome" where
  "cread n fd =
     (case pieces fd of
        [] \<Rightarrow> if closed fd then Returns ([], fd) else Blocks
      | None # ps \<Rightarrow> Exits 1
      | Some p # ps \<Rightarrow>
          Returns (take n p, fd\<lparr>pieces := if n < length p then Some (drop n p) # ps else ps\<rparr>))"

text \<open>\<open>write\<close> of a buffer; \<open>ret\<close> is what the system call returns, \<open>out\<close> what was written before.\<close>

definition cwrite :: "int \<Rightarrow> string \<Rightarrow> string \<Rightarrow> (int \<times> string) outcome" where
  "cwrite ret buf out = (if ret < 0 then Exits 1 else Returns (ret, out @ take (nat ret) buf))"

text \<open>
  The loop of \<open>read_n\<close>: \<open>left\<close> bytes to go, \<open>buf\<close> filled so far, \<open>cap\<close> the size of the buffer.
  The value is what the function returns (0 at the end of the stream), the buffer, the stream.
\<close>

function read_n_loop :: "nat \<Rightarrow> int \<Rightarrow> nat \<Rightarrow> string \<Rightarrow> stream \<Rightarrow> (int \<times> string \<times> stream) outcome" where
  "read_n_loop cap n left buf fd =
     (if left > 0
      then (case cread left fd of
              Returns (got, fd') \<Rightarrow>
                if length buf + length got > cap then Faults
                else if got = [] then Returns (0, buf, fd')
                else read_n_loop cap n (left - length got) (buf @ got) fd'
            | Exits code \<Rightarrow> Exits code
            | Blocks \<Rightarrow> Blocks
            | Faults \<Rightarrow> Faults)
      else Returns (n, buf, fd))"
  by pat_completeness auto
termination
  by (relation "measure (\<lambda>(_, _, left, _, _). left)") auto

declare read_n_loop.simps [simp del]

definition read_n :: "nat \<Rightarrow> int \<Rightarrow> stream \<Rightarrow> (int \<times> string \<times> stream) outcome" where
  "read_n cap n fd = read_n_loop cap n (nat n) [] fd"

subsection \<open>Streams that arrive in pieces\<close>

text \<open>The bytes a stream will deliver, when no read fails and no piece is empty.\<close>

definition arrives :: "stream \<Rightarrow> string \<Rightarrow> bool" where
  "arrives fd bytes \<longleftrightarrow>
     (\<forall>p \<in> set (pieces fd). p \<noteq> None \<and> p \<noteq> Some []) \<and> bytes = concat (map the (pieces fd))"

lemma arrives_Nil: "arrives fd [] \<longleftrightarrow> pieces fd = []"
  by (cases "pieces fd") (auto simp: arrives_def)

lemma cread_arrives:
  assumes "arrives fd bytes" and "bytes \<noteq> []" and "0 < n"
  shows "\<exists>got rest fd'. cread n fd = Returns (got, fd') \<and> got \<noteq> [] \<and> length got \<le> n \<and> bytes = got @ rest \<and>
     arrives fd' rest \<and> closed fd' = closed fd"
proof -
  from assms(1,2) obtain p ps where p: "pieces fd = Some p # ps" "p \<noteq> []"
    by (cases "pieces fd") (auto simp: arrives_def)
  show ?thesis
  proof (cases "n < length p")
    case True
    then show ?thesis using p assms
      by (intro exI [of _ "take n p"] exI [of _ "drop n p @ concat (map the ps)"])
        (auto simp: cread_def arrives_def simp flip: append_assoc)
  next
    case False
    then show ?thesis using p assms
      by (intro exI [of _ p] exI [of _ "concat (map the ps)"]) (auto simp: cread_def arrives_def)
  qed
qed

text \<open>All the bytes are there: the loop returns them, exactly, and leaves the rest.\<close>

lemma read_n_loop_ok:
  "arrives fd (bytes @ rest) \<Longrightarrow> length buf + length bytes \<le> cap \<Longrightarrow>
   \<exists>fd'. read_n_loop cap n (length bytes) buf fd = Returns (n, buf @ bytes, fd') \<and> arrives fd' rest \<and>
     closed fd' = closed fd"
proof (induction "length bytes" arbitrary: bytes buf fd rule: less_induct)
  case less
  show ?case
  proof (cases "bytes = []")
    case True
    with less.prems show ?thesis by (subst read_n_loop.simps) simp
  next
    case False
    with cread_arrives [OF less.prems(1), of "length bytes"] obtain got more fd1 where
      c: "cread (length bytes) fd = Returns (got, fd1)" "got \<noteq> []" "length got \<le> length bytes"
        "bytes @ rest = got @ more" "arrives fd1 more" "closed fd1 = closed fd" by auto
    from c(3,4) obtain us where us: "bytes = got @ us"
      by (metis append_eq_append_conv2 append_Nil2 le_antisym length_append le_add1 append_eq_conv_conj)
    with c(4) have more: "more = drop (length got) bytes @ rest" "bytes = got @ drop (length got) bytes"
      by simp_all
    have "\<exists>fd'. read_n_loop cap n (length (drop (length got) bytes)) (buf @ got) fd1 =
        Returns (n, (buf @ got) @ drop (length got) bytes, fd') \<and> arrives fd' rest \<and> closed fd' = closed fd1"
    proof (rule less.hyps)
      show "length (drop (length got) bytes) < length bytes" using c(2) False by simp
      show "arrives fd1 (drop (length got) bytes @ rest)" using c(5) more(1) by simp
      show "length (buf @ got) + length (drop (length got) bytes) \<le> cap" using less.prems(2) c(3) by simp
    qed
    with c more False less.prems(2) show ?thesis
      by (subst read_n_loop.simps) (auto simp: not_less)
  qed
qed

text \<open>Not enough bytes: 0 at the end of a closed stream, waiting for more on an open one.\<close>

lemma read_n_loop_short:
  "arrives fd bytes \<Longrightarrow> length bytes < left \<Longrightarrow> length buf + length bytes \<le> cap \<Longrightarrow>
   (if closed fd then \<exists>fd'. read_n_loop cap n left buf fd = Returns (0, buf @ bytes, fd') \<and> pieces fd' = []
    else read_n_loop cap n left buf fd = Blocks)"
proof (induction "length bytes" arbitrary: bytes buf fd left rule: less_induct)
  case less
  show ?case
  proof (cases "bytes = []")
    case True
    with less.prems arrives_Nil have "pieces fd = []" by simp
    with less.prems True show ?thesis by (subst (1 2) read_n_loop.simps) (simp add: cread_def)
  next
    case False
    with cread_arrives [OF less.prems(1), of left] less.prems(2) obtain got more fd1 where
      c: "cread left fd = Returns (got, fd1)" "got \<noteq> []" "length got \<le> left"
        "bytes = got @ more" "arrives fd1 more" "closed fd1 = closed fd" by auto
    have "if closed fd1
      then \<exists>fd'. read_n_loop cap n (left - length got) (buf @ got) fd1 = Returns (0, (buf @ got) @ more, fd') \<and> pieces fd' = []
      else read_n_loop cap n (left - length got) (buf @ got) fd1 = Blocks"
      by (rule less.hyps) (use c less.prems in auto)
    with c less.prems show ?thesis by (subst (1 2) read_n_loop.simps) (auto split: if_splits)
  qed
qed

subsection \<open>Properties\<close>

text \<open>
  C34: However its bytes arrive, \<open>read_n\<close> returns \<open>n\<close> with exactly the next \<open>n\<close> bytes in the buffer
  and the rest unread when they are there; when they are not it returns 0 at the end of a closed
  stream and waits on an open one.
\<close>

theorem read_n_spec:
  assumes "arrives fd bytes" and "0 \<le> n" and "n \<le> int cap"
  shows "if n \<le> int (length bytes)
     then \<exists>fd'. read_n cap n fd = Returns (n, take (nat n) bytes, fd') \<and> arrives fd' (drop (nat n) bytes)
     else if closed fd then \<exists>fd'. read_n cap n fd = Returns (0, bytes, fd') \<and> pieces fd' = []
     else read_n cap n fd = Blocks"
proof (cases "n \<le> int (length bytes)")
  case True
  then have l: "length (take (nat n) bytes) = nat n" using assms(2) by simp
  from read_n_loop_ok [of fd "take (nat n) bytes" "drop (nat n) bytes" "[]" cap n] assms l True
  show ?thesis by (auto simp: read_n_def nat_le_iff)
next
  case False
  then have "length bytes < nat n" "length ([] :: string) + length bytes \<le> cap" using assms by simp_all
  from read_n_loop_short [OF assms(1) this, of n] False show ?thesis by (auto simp: read_n_def split: if_splits)
qed

theorem read_n_spec_witness:
  "\<exists>fd'. read_n 4 3 \<lparr>pieces = [Some ''a'', Some ''bcd''], closed = False\<rparr> = Returns (3, ''abc'', fd') \<and> arrives fd' ''d''"
  using read_n_spec [of "\<lparr>pieces = [Some ''a'', Some ''bcd''], closed = False\<rparr>" "''abcd''" 3 4]
  by (simp add: arrives_def)

end
