(* ===== verification/Tunnel.thy ===== *)
theory Tunnel
  imports Stream_IO
begin

text \<open>
  The tunnel program \<open>simpletun.c\<close>: options, connection, and the loop that carries the frames of
  a tap device over a TCP connection, each with its length in front as 16 bits in network order.

  One turn of the loop is \<open>tunnel_turn\<close>, for one answer of \<open>select\<close>, \<open>read\<close> and \<open>write\<close>. The
  lemmas show that frames come out at the other end as they went in, however TCP cuts the bytes up,
  as long as \<open>write\<close> takes everything; and what a length above the size of the buffer does.
\<close>

subsection \<open>Options and connection\<close>

record tunnel_options =
  if_name :: string
  cliserv :: int
  remote_ip :: string
  port :: "16 word"
  use_tap :: bool
  debugging :: bool

abbreviation (input) CLIENT :: int where "CLIENT \<equiv> 0"
abbreviation (input) SERVER :: int where "SERVER \<equiv> 1"
abbreviation (input) IFNAMSIZ :: nat where "IFNAMSIZ \<equiv> 16"

definition default_options :: tunnel_options where
  "default_options = \<lparr>if_name = [], cliserv = -1, remote_ip = [], port = 55555, use_tap = False, debugging = False\<rparr>"

text \<open>The options as \<open>getopt\<close> returns them. \<open>-c\<close> keeps 15 bytes, the longest dotted quad.\<close>

fun tunnel_getopt :: "(char \<times> string) list \<Rightarrow> tunnel_options \<Rightarrow> tunnel_options outcome" where
  "tunnel_getopt [] c = Returns c"
| "tunnel_getopt ((opt, optarg) # opts) c =
     (if opt = CHR ''d'' then tunnel_getopt opts (c\<lparr>debugging := True\<rparr>)
      else if opt = CHR ''h'' then Exits 1
      else if opt = CHR ''i'' then tunnel_getopt opts (c\<lparr>if_name := take (IFNAMSIZ - 1) optarg\<rparr>)
      else if opt = CHR ''s'' then tunnel_getopt opts (c\<lparr>cliserv := SERVER\<rparr>)
      else if opt = CHR ''c''
      then tunnel_getopt opts (c\<lparr>cliserv := CLIENT, remote_ip := take 15 optarg\<rparr>)
      else if opt = CHR ''p''
      then (case atoi (optarg @ [NUL]) of
              None \<Rightarrow> Faults
            | Some n \<Rightarrow> tunnel_getopt opts (c\<lparr>port := word_of_int n\<rparr>))
      else if opt = CHR ''u'' then tunnel_getopt opts (c\<lparr>use_tap := False\<rparr>)
      else if opt = CHR ''a'' then tunnel_getopt opts (c\<lparr>use_tap := True\<rparr>)
      else Exits 1)"

text \<open>The checks behind the loop; \<open>extra\<close> is the number of arguments left over.\<close>

definition tunnel_config :: "(char \<times> string) list \<Rightarrow> nat \<Rightarrow> tunnel_options outcome" where
  "tunnel_config opts extra =
     (case tunnel_getopt opts default_options of
        Returns c \<Rightarrow>
          if extra > 0 then Exits 1
          else if if_name c = [] then Exits 1
          else if cliserv c < 0 then Exits 1
          else if cliserv c = CLIENT \<and> remote_ip c = [] then Exits 1
          else Returns c
      | Exits code \<Rightarrow> Exits code
      | Blocks \<Rightarrow> Blocks
      | Faults \<Rightarrow> Faults)"

text \<open>
  \<open>tun_alloc\<close>: \<open>fd\<close> is what \<open>open\<close> returns, \<open>tunsetiff\<close> the kernel's answer to the request for a
  name: an error below 0, and the name it gave. A name without terminator in the request, or one
  that comes back so, is read past its end. The result is the descriptor or error, and the name.
\<close>

definition tun_alloc :: "string \<Rightarrow> int \<Rightarrow> (string \<Rightarrow> int \<times> string) \<Rightarrow> (int \<times> string) option" where
  "tun_alloc dev fd tunsetiff =
     (if fd < 0 then Some (fd, dev)
      else (let ifr_name = take IFNAMSIZ dev
            in if length ifr_name < IFNAMSIZ
               then (let (err, name) = tunsetiff ifr_name
                     in if err < 0 then Some (err, dev)
                        else if length name < IFNAMSIZ then Some (fd, name) else None)
               else None))"

text \<open>The answers of the system calls that open the connection.\<close>

record connection =
  c_tun :: int
  c_tunsetiff :: "string \<Rightarrow> int \<times> string"
  c_socket :: int
  c_connect :: int
  c_setsockopt :: int
  c_bind :: int
  c_listen :: int
  c_accept :: int

text \<open>The two descriptors the loop serves: the device and the connection.\<close>

definition tunnel_connect :: "tunnel_options \<Rightarrow> connection \<Rightarrow> (int \<times> int) outcome" where
  "tunnel_connect c a =
     (case tun_alloc (if_name c) (c_tun a) (c_tunsetiff a) of
        None \<Rightarrow> Faults
      | Some (tap_fd, _) \<Rightarrow>
          if tap_fd < 0 then Exits 1
          else if c_socket a < 0 then Exits 1
          else if cliserv c = CLIENT
          then (if c_connect a < 0 then Exits 1 else Returns (tap_fd, c_socket a))
          else if c_setsockopt a < 0 then Exits 1
          else if c_bind a < 0 then Exits 1
          else if c_listen a < 0 then Exits 1
          else if c_accept a < 0 then Exits 1
          else Returns (tap_fd, c_accept a))"

subsection \<open>The loop\<close>

text \<open>\<open>htons\<close> and \<open>ntohs\<close> on the two bytes in front of a frame.\<close>

definition htons :: "nat \<Rightarrow> string" where
  "htons n = [char_of (n div 256), char_of n]"

definition ntohs :: "string \<Rightarrow> nat" where
  "ntohs b = 256 * of_char (b ! 0) + of_char (b ! 1)"

record tunnel =
  net_in :: stream
  net_out :: string
  tap_out :: "string list"
  tap2net :: "64 word"
  net2tap :: "64 word"

text \<open>
  The answers in one turn: \<open>select\<close> with errno and the two descriptors, the frame read from the
  device (\<open>None\<close> for an error), and what the three writes return.
\<close>

record turn =
  s_ret :: int
  s_eintr :: bool
  s_tap :: bool
  s_net :: bool
  s_frame :: "string option"
  s_wrote_length :: int
  s_wrote_data :: int
  s_wrote_frame :: int

definition tap_to_net :: "turn \<Rightarrow> tunnel \<Rightarrow> tunnel outcome" where
  "tap_to_net e t =
     (case cread BUFSIZE \<lparr>pieces = [s_frame e], closed = False\<rparr> of
        Returns (buffer, _) \<Rightarrow>
          (case cwrite (s_wrote_length e) (htons (length buffer)) (net_out t) of
             Returns (_, out) \<Rightarrow>
               (case cwrite (s_wrote_data e) buffer out of
                  Returns (_, out) \<Rightarrow> Returns (t\<lparr>net_out := out, tap2net := tap2net t + 1\<rparr>)
                | Exits code \<Rightarrow> Exits code
                | Blocks \<Rightarrow> Blocks
                | Faults \<Rightarrow> Faults)
           | Exits code \<Rightarrow> Exits code
           | Blocks \<Rightarrow> Blocks
           | Faults \<Rightarrow> Faults)
      | Exits code \<Rightarrow> Exits code
      | Blocks \<Rightarrow> Blocks
      | Faults \<Rightarrow> Faults)"

text \<open>The value says whether the loop goes on: not after the end of the stream.\<close>

definition net_to_tap :: "turn \<Rightarrow> tunnel \<Rightarrow> (bool \<times> tunnel) outcome" where
  "net_to_tap e t =
     (case read_n 2 2 (net_in t) of
        Returns (nread, plength, fd) \<Rightarrow>
          if nread = 0 then Returns (False, t\<lparr>net_in := fd\<rparr>)
          else (case read_n BUFSIZE (int (ntohs plength)) fd of
                  Returns (nread, buffer, fd) \<Rightarrow>
                    (case cwrite (s_wrote_frame e) (take (nat nread) buffer) [] of
                       Returns (_, frame) \<Rightarrow>
                         Returns (True, t\<lparr>net_in := fd, tap_out := tap_out t @ [frame], net2tap := net2tap t + 1\<rparr>)
                     | Exits code \<Rightarrow> Exits code
                     | Blocks \<Rightarrow> Blocks
                     | Faults \<Rightarrow> Faults)
                | Exits code \<Rightarrow> Exits code
                | Blocks \<Rightarrow> Blocks
                | Faults \<Rightarrow> Faults)
      | Exits code \<Rightarrow> Exits code
      | Blocks \<Rightarrow> Blocks
      | Faults \<Rightarrow> Faults)"

definition tunnel_turn :: "turn \<Rightarrow> tunnel \<Rightarrow> (bool \<times> tunnel) outcome" where
  "tunnel_turn e t =
     (if s_ret e < 0 \<and> s_eintr e then Returns (True, t)
      else if s_ret e < 0 then Exits 1
      else (case (if s_tap e then tap_to_net e t else Returns t) of
              Returns t \<Rightarrow> if s_net e then net_to_tap e t else Returns (True, t)
            | Exits code \<Rightarrow> Exits code
            | Blocks \<Rightarrow> Blocks
            | Faults \<Rightarrow> Faults))"

fun tunnel_run :: "turn list \<Rightarrow> tunnel \<Rightarrow> (bool \<times> tunnel) outcome" where
  "tunnel_run [] t = Returns (True, t)"
| "tunnel_run (e # es) t =
     (case tunnel_turn e t of
        Returns (goes_on, t) \<Rightarrow> if goes_on then tunnel_run es t else Returns (False, t)
      | Exits code \<Rightarrow> Exits code
      | Blocks \<Rightarrow> Blocks
      | Faults \<Rightarrow> Faults)"

subsection \<open>Frames on the wire\<close>

definition on_wire :: "string \<Rightarrow> string" where
  "on_wire f = htons (length f) @ f"

lemma ntohs_htons: "n < 65536 \<Longrightarrow> ntohs (htons n) = n"
  by (simp add: ntohs_def htons_def of_char_of)

lemma htons_length [simp]: "length (htons n) = 2"
  by (simp add: htons_def)

text \<open>
  A turn in which only the device is ready and the two writes take the length and the frame \<open>f\<close> whole;
  one in which only the connection is ready, and if a frame of length \<open>n\<close> comes in the write takes it
  whole. \<open>sends\<close> and \<open>receives\<close> are such turns.
\<close>

definition sends_whole :: "turn \<Rightarrow> string \<Rightarrow> bool" where
  "sends_whole e f \<longleftrightarrow> 0 \<le> s_ret e \<and> s_tap e \<and> \<not> s_net e \<and> s_frame e = Some f \<and>
     s_wrote_length e = 2 \<and> s_wrote_data e = int (length f)"

definition net_ready :: "turn \<Rightarrow> bool" where
  "net_ready e \<longleftrightarrow> 0 \<le> s_ret e \<and> \<not> s_tap e \<and> s_net e"

definition receives_whole :: "turn \<Rightarrow> string \<Rightarrow> bool" where
  "receives_whole e f \<longleftrightarrow> net_ready e \<and> s_wrote_frame e = int (length f)"

definition sends :: "string \<Rightarrow> turn" where
  "sends f = \<lparr>s_ret = 1, s_eintr = False, s_tap = True, s_net = False, s_frame = Some f,
     s_wrote_length = 2, s_wrote_data = int (length f), s_wrote_frame = 0\<rparr>"

definition receives :: "nat \<Rightarrow> turn" where
  "receives n = \<lparr>s_ret = 1, s_eintr = False, s_tap = False, s_net = True, s_frame = None,
     s_wrote_length = 0, s_wrote_data = 0, s_wrote_frame = int n\<rparr>"

lemma sends_receives: "sends_whole (sends f) f" "receives_whole (receives (length f)) f" "net_ready (receives n)"
  by (simp_all add: sends_whole_def receives_whole_def net_ready_def sends_def receives_def)

lemma tunnel_sends:
  "sends_whole e f \<Longrightarrow> length f \<le> BUFSIZE \<Longrightarrow> \<exists>t'. tunnel_turn e t = Returns (True, t') \<and>
     net_out t' = net_out t @ on_wire f \<and> tap2net t' = tap2net t + 1"
  by (simp add: tunnel_turn_def tap_to_net_def sends_whole_def cread_def cwrite_def on_wire_def)

lemma tunnel_run_sends:
  "list_all2 sends_whole es fs \<Longrightarrow> \<forall>f \<in> set fs. length f \<le> BUFSIZE \<Longrightarrow>
   \<exists>t'. tunnel_run es t = Returns (True, t') \<and> net_out t' = net_out t @ concat (map on_wire fs)"
proof (induction es fs arbitrary: t rule: list_all2_induct)
  case (Cons e es f fs)
  from Cons.hyps(1) Cons.prems tunnel_sends [of e f t] obtain t1 where t1: "tunnel_turn e t = Returns (True, t1)"
    "net_out t1 = net_out t @ on_wire f" by auto
  with Cons.IH [of t1] Cons.prems show ?case by auto
qed simp

lemma read_n_arrives:
  assumes "arrives fd (bytes @ rest)" and "length bytes \<le> cap"
  shows "\<exists>fd'. read_n cap (int (length bytes)) fd = Returns (int (length bytes), bytes, fd') \<and> arrives fd' rest \<and>
     closed fd' = closed fd"
  using read_n_loop_ok [OF assms(1), of "[]" cap "int (length bytes)"] assms(2) by (simp add: read_n_def)

lemma tunnel_receives:
  assumes "arrives (net_in t) (on_wire f @ rest)" and "length f \<le> BUFSIZE" and "receives_whole e f"
  shows "\<exists>t'. tunnel_turn e t = Returns (True, t') \<and> tap_out t' = tap_out t @ [f] \<and>
     arrives (net_in t') rest \<and> closed (net_in t') = closed (net_in t)"
proof -
  from read_n_arrives [of "net_in t" "htons (length f)" "f @ rest" 2] assms(1) obtain fd1 where
    1: "read_n 2 2 (net_in t) = Returns (2, htons (length f), fd1)" "arrives fd1 (f @ rest)"
      "closed fd1 = closed (net_in t)" by (auto simp: on_wire_def)
  from read_n_arrives [OF 1(2) assms(2)] obtain fd2 where
    2: "read_n BUFSIZE (int (length f)) fd1 = Returns (int (length f), f, fd2)" "arrives fd2 rest"
      "closed fd2 = closed fd1" by auto
  have "ntohs (htons (length f)) = length f" using assms(2) by (intro ntohs_htons) simp
  with 1 2 assms(3) show ?thesis
    by (simp add: tunnel_turn_def net_to_tap_def receives_whole_def net_ready_def cwrite_def)
qed

lemma tunnel_ends:
  assumes "arrives (net_in t) []" and "closed (net_in t)" and "net_ready e"
  shows "\<exists>t'. tunnel_turn e t = Returns (False, t') \<and> tap_out t' = tap_out t"
proof -
  from read_n_loop_short [OF assms(1), of 2 "[]" 2 2] assms(2) obtain fd where
    "read_n 2 2 (net_in t) = Returns (0, [], fd)" by (auto simp: read_n_def)
  then show ?thesis using assms(3) by (simp add: tunnel_turn_def net_to_tap_def net_ready_def)
qed

lemma tunnel_run_receives:
  "list_all2 receives_whole es fs \<Longrightarrow> \<forall>f \<in> set fs. length f \<le> BUFSIZE \<Longrightarrow> net_ready e \<Longrightarrow>
   arrives (net_in t) (concat (map on_wire fs)) \<Longrightarrow> closed (net_in t) \<Longrightarrow>
   \<exists>t'. tunnel_run (es @ [e]) t = Returns (False, t') \<and> tap_out t' = tap_out t @ fs"
proof (induction es fs arbitrary: t rule: list_all2_induct)
  case Nil
  with tunnel_ends [of t e] show ?case by auto
next
  case (Cons r es f fs)
  from Cons.hyps(1) Cons.prems tunnel_receives [of t f "concat (map on_wire fs)" r] obtain t1 where
    t1: "tunnel_turn r t = Returns (True, t1)" "tap_out t1 = tap_out t @ [f]"
      "arrives (net_in t1) (concat (map on_wire fs))" "closed (net_in t1)" by auto
  with Cons.IH [of t1] Cons.prems show ?case by auto
qed

text \<open>A length above the size of the buffer.\<close>

lemma read_n_loop_overflow:
  "arrives fd bytes \<Longrightarrow> cap < length buf + left \<Longrightarrow> cap < length buf + length bytes \<Longrightarrow> length buf \<le> cap \<Longrightarrow>
   read_n_loop cap n left buf fd = Faults"
proof (induction left arbitrary: bytes buf fd rule: less_induct)
  case (less left)
  then have "bytes \<noteq> []" "0 < left" by auto
  with cread_arrives [OF less.prems(1) this] obtain got more fd1 where
    c: "cread left fd = Returns (got, fd1)" "got \<noteq> []" "length got \<le> left"
      "bytes = got @ more" "arrives fd1 more" by blast
  show ?case
  proof (cases "length buf + length got > cap")
    case True
    with c \<open>0 < left\<close> show ?thesis by (subst read_n_loop.simps) simp
  next
    case False
    have "read_n_loop cap n (left - length got) (buf @ got) fd1 = Faults"
      by (rule less.IH [OF _ c(5)]) (use c False less.prems \<open>0 < left\<close> in auto)
    with c False \<open>0 < left\<close> show ?thesis by (subst read_n_loop.simps) simp
  qed
qed

lemma tunnel_getopt_step:
  assumes "tunnel_getopt ((opt, optarg) # opts) c = Returns c'"
  shows "\<exists>c1. tunnel_getopt opts c1 = Returns c' \<and> if_name c1 \<in> {if_name c, take (IFNAMSIZ - 1) optarg} \<and>
     remote_ip c1 \<in> {remote_ip c, take 15 optarg} \<and> cliserv c1 \<in> {cliserv c, CLIENT, SERVER}"
proof -
  let ?to = "\<lambda>c1. tunnel_getopt opts c1 = Returns c'"
  have "?to (c\<lparr>debugging := True\<rparr>) \<or> ?to (c\<lparr>if_name := take (IFNAMSIZ - 1) optarg\<rparr>) \<or> ?to (c\<lparr>cliserv := SERVER\<rparr>) \<or>
     ?to (c\<lparr>cliserv := CLIENT, remote_ip := take 15 optarg\<rparr>) \<or> (\<exists>n. ?to (c\<lparr>port := word_of_int n\<rparr>)) \<or>
     ?to (c\<lparr>use_tap := False\<rparr>) \<or> ?to (c\<lparr>use_tap := True\<rparr>)"
    using assms unfolding tunnel_getopt.simps
    by (simp only: split: if_split_asm option.split_asm) (simp | blast)+
  then show ?thesis by (elim disjE exE) (rule exI, rule conjI, assumption, simp)+
qed

lemma tunnel_getopt_bounds:
  "tunnel_getopt opts c = Returns c' \<Longrightarrow> length (if_name c) < IFNAMSIZ \<Longrightarrow> length (remote_ip c) < IFNAMSIZ \<Longrightarrow>
   cliserv c \<in> {-1, CLIENT, SERVER} \<Longrightarrow>
   length (if_name c') < IFNAMSIZ \<and> length (remote_ip c') < IFNAMSIZ \<and> cliserv c' \<in> {-1, CLIENT, SERVER}"
proof (induction opts arbitrary: c)
  case (Cons o1 opts)
  obtain opt optarg where "o1 = (opt, optarg)" by (cases o1)
  with Cons.prems(1) tunnel_getopt_step obtain c1 where "tunnel_getopt opts c1 = Returns c'"
    "if_name c1 \<in> {if_name c, take (IFNAMSIZ - 1) optarg}" "remote_ip c1 \<in> {remote_ip c, take 15 optarg}"
    "cliserv c1 \<in> {cliserv c, CLIENT, SERVER}" by metis
  with Cons.IH [of c1] Cons.prems(2-4) show ?case by (auto simp: min_def)
qed simp

lemma tunnel_config_bounds:
  assumes "tunnel_config opts extra = Returns c"
  shows "if_name c \<noteq> [] \<and> length (if_name c) < IFNAMSIZ \<and> length (remote_ip c) < IFNAMSIZ \<and>
     (cliserv c = SERVER \<or> cliserv c = CLIENT \<and> remote_ip c \<noteq> [])"
proof (cases "tunnel_getopt opts default_options")
  case (Returns c')
  with tunnel_getopt_bounds [OF Returns] assms show ?thesis
    by (auto simp: tunnel_config_def default_options_def split: if_splits)
qed (use assms in \<open>simp_all add: tunnel_config_def\<close>)

subsection \<open>Properties\<close>

text \<open>
  C33: If every \<open>write\<close> of the two tunnels takes all the bytes it is given, frames of up to 2000 bytes that
  one tunnel takes from its device come out of the other one's device, all of them, unchanged and in
  order, however the connection cuts up the bytes on their way; and the receiver ends when the
  connection is closed. (Without the first condition it is false, see \<open>tunnel_short_write\<close>.)
\<close>

theorem tunnel_roundtrip:
  assumes "\<forall>f \<in> set fs. length f \<le> BUFSIZE" and "net_out a = []"
    and "list_all2 sends_whole es fs" and "list_all2 receives_whole rs fs" and "net_ready r"
  shows "\<exists>a'. tunnel_run es a = Returns (True, a') \<and>
     (\<forall>b. arrives (net_in b) (net_out a') \<and> closed (net_in b) \<longrightarrow>
        (\<exists>b'. tunnel_run (rs @ [r]) b = Returns (False, b') \<and> tap_out b' = tap_out b @ fs))"
  using tunnel_run_sends [OF assms(3,1), of a] tunnel_run_receives [OF assms(4,1,5)] assms(2) by auto

theorem tunnel_roundtrip_witness:
  "\<exists>a'. tunnel_run [sends ''abc'', sends ''d''] \<lparr>net_in = \<lparr>pieces = [], closed = False\<rparr>, net_out = [], tap_out = [],
       tap2net = 0, net2tap = 0\<rparr> = Returns (True, a') \<and>
     (\<exists>b'. tunnel_run [receives (length ''abc''), receives (length ''d''), receives 0]
         \<lparr>net_in = \<lparr>pieces = map (\<lambda>c. Some [c]) (net_out a'), closed = True\<rparr>, net_out = [], tap_out = [],
           tap2net = 0, net2tap = 0\<rparr> = Returns (False, b') \<and>
       tap_out b' = [''abc'', ''d''])"
proof -
  let ?t = "\<lambda>fd. \<lparr>net_in = fd, net_out = [], tap_out = [], tap2net = 0, net2tap = 0\<rparr> :: tunnel"
  let ?rs = "[receives (length ''abc''), receives (length ''d'')]"
  have "list_all2 sends_whole [sends ''abc'', sends ''d''] [''abc'', ''d'']"
    "list_all2 receives_whole ?rs [''abc'', ''d'']"
    using sends_receives(1) [of "''abc''"] sends_receives(1) [of "''d''"] sends_receives(2) [of "''abc''"]
      sends_receives(2) [of "''d''"] by (simp_all only: list.rel_inject list.rel_intros simp_thms)
  from tunnel_roundtrip [OF _ _ this sends_receives(3) [of 0], of "?t \<lparr>pieces = [], closed = False\<rparr>"] obtain a' where
    a: "tunnel_run [sends ''abc'', sends ''d''] (?t \<lparr>pieces = [], closed = False\<rparr>) = Returns (True, a')"
    "\<forall>b. arrives (net_in b) (net_out a') \<and> closed (net_in b) \<longrightarrow>
        (\<exists>b'. tunnel_run (?rs @ [receives 0]) b = Returns (False, b') \<and> tap_out b' = tap_out b @ [''abc'', ''d''])" by auto
  have "arrives \<lparr>pieces = map (\<lambda>c. Some [c]) (net_out a'), closed = True\<rparr> (net_out a')"
    by (simp add: arrives_def o_def)
  with a(2) [rule_format, of "?t \<lparr>pieces = map (\<lambda>c. Some [c]) (net_out a'), closed = True\<rparr>"] a(1) show ?thesis
    by (simp del: tunnel_run.simps)
qed

text \<open>
  C37: A peer that announces more than 2000 bytes and sends them makes the tunnel write past the
  end of its buffer: the length is used unchecked.
\<close>

theorem tunnel_overflow:
  assumes "BUFSIZE < n" and "n < 65536" and "BUFSIZE < length bytes"
    and "arrives (net_in t) (htons n @ bytes)" and "s_net e" and "\<not> s_tap e" and "0 \<le> s_ret e"
  shows "tunnel_turn e t = Faults"
proof -
  from read_n_arrives [of "net_in t" "htons n" bytes 2] assms(4) obtain fd where
    1: "read_n 2 2 (net_in t) = Returns (2, htons n, fd)" "arrives fd bytes" by auto
  have "read_n BUFSIZE (int n) fd = Faults"
    using read_n_loop_overflow [OF 1(2), of BUFSIZE "[]" n] assms(1,3) by (simp add: read_n_def)
  with 1 assms ntohs_htons show ?thesis by (simp add: tunnel_turn_def net_to_tap_def)
qed

theorem tunnel_overflow_witness:
  "tunnel_turn (receives 3000) \<lparr>net_in = \<lparr>pieces = [Some (htons 3000), Some (replicate 3000 CHR ''x'')], closed = False\<rparr>,
     net_out = [], tap_out = [], tap2net = 0, net2tap = 0\<rparr> = Faults"
proof (rule tunnel_overflow [of 3000 "replicate 3000 CHR ''x''"])
  have "htons 3000 \<noteq> []" by (simp add: htons_def)
  moreover have "replicate 3000 CHR ''x'' \<noteq> []" by simp
  ultimately show "arrives (net_in \<lparr>net_in = \<lparr>pieces = [Some (htons 3000), Some (replicate 3000 CHR ''x'')], closed = False\<rparr>,
     net_out = [], tap_out = [], tap2net = 0, net2tap = 0\<rparr>) (htons 3000 @ replicate 3000 CHR ''x'')"
    by (simp add: arrives_def)
qed (simp_all add: receives_def)

text \<open>
  After a \<open>write\<close> that took only the first \<open>k\<close> bytes of a frame the loop goes on with the next
  one, and the receiver takes the missing bytes from it: its first frame is filled up with the length
  and the first bytes of the second.
\<close>

theorem tunnel_short_write:
  assumes "k < length f" and "length f \<le> BUFSIZE" and "length g \<le> BUFSIZE" and "length f \<le> k + 2 + length g"
    and "net_out a = []"
  shows "\<exists>a'. tunnel_run [(sends f)\<lparr>s_wrote_data := int k\<rparr>, sends g] a = Returns (True, a') \<and>
     (\<forall>b. arrives (net_in b) (net_out a') \<longrightarrow>
        (\<exists>b'. tunnel_turn (receives (length f)) b = Returns (True, b') \<and>
              tap_out b' = tap_out b @ [take k f @ take (length f - k) (on_wire g)]))"
proof -
  let ?f = "take k f @ take (length f - k) (on_wire g)"
  let ?rest = "drop (length f - k) (on_wire g)"
  have "\<exists>a1. tunnel_turn ((sends f)\<lparr>s_wrote_data := int k\<rparr>) a = Returns (True, a1) \<and>
      net_out a1 = htons (length f) @ take k f"
    using assms by (simp add: tunnel_turn_def tap_to_net_def sends_def cread_def cwrite_def)
  then obtain a1 where a1: "tunnel_turn ((sends f)\<lparr>s_wrote_data := int k\<rparr>) a = Returns (True, a1)"
    "net_out a1 = htons (length f) @ take k f" by blast
  from tunnel_sends [OF sends_receives(1) assms(3), of a1] a1 obtain a' where
    a': "tunnel_turn (sends g) a1 = Returns (True, a')" "net_out a' = htons (length f) @ take k f @ on_wire g" by auto
  have l: "length ?f = length f" using assms by (simp add: on_wire_def)
  have "on_wire ?f = htons (length f) @ ?f" unfolding on_wire_def [of ?f] l by (rule refl)
  with a'(2) have w: "net_out a' = on_wire ?f @ ?rest" by simp
  have "\<exists>b'. tunnel_turn (receives (length f)) b = Returns (True, b') \<and> tap_out b' = tap_out b @ [?f]"
    if "arrives (net_in b) (net_out a')" for b
    using tunnel_receives [of b ?f ?rest "receives (length ?f)", OF _ _ sends_receives(2)] that assms(2) unfolding w l by blast
  with a1(1) a'(1) show ?thesis by auto
qed

theorem tunnel_short_write_witness:
  "\<exists>a'. tunnel_run [(sends ''abcd'')\<lparr>s_wrote_data := 1\<rparr>, sends ''xy''] \<lparr>net_in = \<lparr>pieces = [], closed = False\<rparr>,
     net_out = [], tap_out = [], tap2net = 0, net2tap = 0\<rparr> = Returns (True, a')"
  using tunnel_short_write [of 1 "''abcd''" "''xy''" "\<lparr>net_in = \<lparr>pieces = [], closed = False\<rparr>,
     net_out = [], tap_out = [], tap2net = 0, net2tap = 0\<rparr>"] by auto

text \<open>
  Options that \<open>main\<close> accepts name an interface and a mode, a client has a server address,
  both texts fit their arrays with a terminator, and so the request for the device carries the whole
  name: if every system call succeeds the tunnel connects.
\<close>

theorem tunnel_start:
  assumes "tunnel_config opts extra = Returns c"
    and "0 \<le> c_tun a" and "c_tunsetiff a (if_name c) = (0, name)" and "length name < IFNAMSIZ" and "0 \<le> c_socket a"
    and "0 \<le> c_connect a" and "0 \<le> c_setsockopt a" and "0 \<le> c_bind a" and "0 \<le> c_listen a" and "0 \<le> c_accept a"
  shows "if_name c \<noteq> [] \<and> length (if_name c) < IFNAMSIZ \<and> length (remote_ip c) < IFNAMSIZ \<and>
     (cliserv c = SERVER \<or> cliserv c = CLIENT \<and> remote_ip c \<noteq> []) \<and>
     tunnel_connect c a = Returns (c_tun a, if cliserv c = CLIENT then c_socket a else c_accept a)"
proof -
  note b = tunnel_config_bounds [OF assms(1)]
  then have "take IFNAMSIZ (if_name c) = if_name c" by simp
  with assms b show ?thesis by (auto simp: tunnel_connect_def tun_alloc_def Let_def)
qed

theorem tunnel_start_witness:
  "tunnel_connect \<lparr>if_name = ''tun0'', cliserv = 0, remote_ip = ''10.0.0.1'', port = 55555, use_tap = False, debugging = False\<rparr>
     \<lparr>c_tun = 3, c_tunsetiff = (\<lambda>n. (0, n)), c_socket = 4, c_connect = 0, c_setsockopt = 0, c_bind = 0, c_listen = 0,
       c_accept = 5\<rparr> = Returns (3, 4)"
  using tunnel_start [of "[(CHR ''i'', ''tun0''), (CHR ''c'', ''10.0.0.1'')]" 0
      "\<lparr>if_name = ''tun0'', cliserv = 0, remote_ip = ''10.0.0.1'', port = 55555, use_tap = False, debugging = False\<rparr>"
      "\<lparr>c_tun = 3, c_tunsetiff = (\<lambda>n. (0, n)), c_socket = 4, c_connect = 0, c_setsockopt = 0, c_bind = 0, c_listen = 0,
       c_accept = 5\<rparr>" "''tun0''"]
  by (simp add: tunnel_config_def default_options_def)

end
