(* ===== verification/Packet_Info.thy ===== *)
theory Packet_Info
  imports Routing_Table
begin

text \<open>
  Printing of packets, \<open>pkt_info.c\<close>: the dispatch on the protocol with its counters, the header
  printers and the hex dump. What is printed is the value of the functions; a read outside the buffer
  is \<open>None\<close>. Pointers have 8 bytes, \<open>char\<close> is signed and bit fields are laid out from the lowest
  bit, as on the machines the program is built for.
\<close>

subsection \<open>Text\<close>

definition hex_digit :: "nat \<Rightarrow> char" where
  "hex_digit d = ''0123456789ABCDEF'' ! d"

fun show_hex :: "nat \<Rightarrow> string" where
  "show_hex n = (if n < 16 then [hex_digit n] else show_hex (n div 16) @ [hex_digit (n mod 16)])"

declare show_hex.simps [simp del]

text \<open>\<open>%02X\<close> of the promoted \<open>char\<close>, converted to \<open>unsigned int\<close>.\<close>

definition hex2 :: "nat \<Rightarrow> string" where
  "hex2 n = replicate (2 - length (show_hex n)) CHR ''0'' @ show_hex n"

definition hex_byte :: "char \<Rightarrow> string" where
  "hex_byte c = hex2 (nat (schar c mod 4294967296))"

definition shown :: "char \<Rightarrow> char" where
  "shown c = (if schar c \<ge> 32 \<and> schar c \<le> 128 then c else CHR ''.'')"

definition spaces :: "nat \<Rightarrow> string" where
  "spaces n = replicate n CHR '' ''"

definition newline :: string where
  "newline = [CHR 0x0A]"

subsection \<open>The hex dump\<close>

text \<open>The characters from position \<open>j\<close> up to position \<open>i\<close>.\<close>

function shown_from :: "string \<Rightarrow> nat \<Rightarrow> nat \<Rightarrow> string option" where
  "shown_from data j i =
     (if j < i then do {
        c \<leftarrow> at data j;
        rest \<leftarrow> shown_from data (j + 1) i;
        Some (shown c # rest)
      } else Some [])"
  by pat_completeness auto
termination
  by (relation "measure (\<lambda>(_, j, i). i - j)") auto

declare shown_from.simps [simp del]

text \<open>One turn of the loop of \<open>PrintData\<close>: the end of the row before, the byte, the end of the dump.\<close>

definition print_data_step :: "string \<Rightarrow> nat \<Rightarrow> nat \<Rightarrow> string option" where
  "print_data_step data Size i = do {
     row \<leftarrow> (if i \<noteq> 0 \<and> i mod 16 = 0
             then map_option (\<lambda>t. spaces 9 @ t @ newline) (shown_from data (i - 16) i)
             else Some []);
     c \<leftarrow> at data i;
     last_row \<leftarrow> (if i = Size - 1
                  then map_option (\<lambda>t. spaces (3 * (15 - i mod 16)) @ spaces 9 @ t @ newline)
                         (shown_from data (i - i mod 16) (i + 1))
                  else Some []);
     Some (row @ (if i mod 16 = 0 then spaces 3 else []) @ CHR '' '' # hex_byte c @ last_row)
   }"

function print_data_loop :: "string \<Rightarrow> nat \<Rightarrow> nat \<Rightarrow> string option" where
  "print_data_loop data Size i =
     (if i < Size then do {
        t \<leftarrow> print_data_step data Size i;
        rest \<leftarrow> print_data_loop data Size (i + 1);
        Some (t @ rest)
      } else Some [])"
  by pat_completeness auto
termination
  by (relation "measure (\<lambda>(_, Size, i). Size - i)") auto

declare print_data_loop.simps [simp del]

definition PrintData :: "string \<Rightarrow> int \<Rightarrow> string option" where
  "PrintData data Size = print_data_loop data (nat Size) 0"

subsection \<open>The dump as rows\<close>

definition dump_row :: "string \<Rightarrow> string" where
  "dump_row cs = spaces 3 @ concat (map (\<lambda>c. CHR '' '' # hex_byte c) cs) @ spaces (3 * (16 - length cs)) @
     spaces 9 @ map shown cs @ newline"

fun dump :: "string \<Rightarrow> string" where
  "dump cs = (if cs = [] then [] else dump_row (take 16 cs) @ dump (drop 16 cs))"

declare dump.simps [simp del]

lemma shown_from_ok:
  "j \<le> i \<Longrightarrow> i \<le> length data \<Longrightarrow> shown_from data j i = Some (map shown (take (i - j) (drop j data)))"
proof (induction "i - j" arbitrary: j)
  case 0
  then show ?case by (subst shown_from.simps) simp
next
  case (Suc n)
  then have "drop j data = data ! j # drop (Suc j) data" by (simp add: Cons_nth_drop_Suc)
  moreover have "i - j = Suc (i - Suc j)" using Suc.hyps by simp
  moreover have "shown_from data (j + 1) i = Some (map shown (take (i - (j + 1)) (drop (j + 1) data)))"
    by (rule Suc.hyps(1)) (use Suc in auto)
  ultimately show ?case using Suc
    by (subst shown_from.simps) (simp add: at_def)
qed

definition hexes :: "string \<Rightarrow> string" where
  "hexes cs = concat (map (\<lambda>c. CHR '' '' # hex_byte c) cs)"

definition end_row :: "string \<Rightarrow> string" where
  "end_row cs = spaces 9 @ map shown cs @ newline"

definition row_at :: "string \<Rightarrow> nat \<Rightarrow> string" where
  "row_at cs q = take 16 (drop q cs)"

text \<open>What follows the hexadecimal bytes of the row at \<open>q\<close>, up to the end of the dump.\<close>

definition after_row :: "string \<Rightarrow> nat \<Rightarrow> string" where
  "after_row cs q = spaces (3 * (16 - length (row_at cs q))) @ end_row (row_at cs q) @ dump (drop (q + 16) cs)"

lemma hexes_Cons: "hexes (c # cs) = CHR '' '' # hex_byte c @ hexes cs"
  by (simp add: hexes_def)

lemma dump_at: "q < length cs \<Longrightarrow> dump (drop q cs) = spaces 3 @ hexes (row_at cs q) @ after_row cs q"
  by (subst dump.simps) (simp add: dump_row_def hexes_def end_row_def row_at_def after_row_def add.commute)

lemma dump_past: "length cs \<le> q \<Longrightarrow> dump (drop q cs) = []"
  by (subst dump.simps) simp

text \<open>One turn at position \<open>q + r\<close>, in the row that starts at \<open>q\<close>.\<close>

lemma print_data_step_ok:
  assumes len: "Size \<le> length data" and cs: "cs = take Size data"
    and q: "q mod 16 = 0" and r: "r < 16" and i: "q + r < Size"
  shows "print_data_step data Size (q + r) = Some
     ((if r = 0 \<and> q \<noteq> 0 then end_row (row_at cs (q - 16)) else []) @ (if r = 0 then spaces 3 else []) @
      CHR '' '' # hex_byte (cs ! (q + r)) @
      (if q + r = Size - 1 then spaces (3 * (15 - r)) @ end_row (row_at cs q) else []))"
proof -
  let ?i = "q + r"
  have im: "?i mod 16 = r" "(?i mod 16 = 0) = (r = 0)" using q r by (simp_all add: mod_add_eq [symmetric])
  have c: "at data ?i = Some (cs ! ?i)" using len cs i by (simp add: at_def)
  have q16: "16 \<le> q" if "q \<noteq> 0" using that q by (cases "q < 16") auto
  have "shown_from data (?i - 16) ?i = Some (map shown (row_at cs (q - 16)))" if "r = 0" "q \<noteq> 0"
  proof -
    have "16 \<le> Size + 16 - q" using i by arith
    with that q16 have "take 16 (drop (q - 16) data) = row_at cs (q - 16)"
      using cs i by (simp add: row_at_def drop_take take_take min_def)
    with q16 that shown_from_ok [of "q - 16" q data] len i show ?thesis by simp
  qed
  then have before: "(if ?i \<noteq> 0 \<and> ?i mod 16 = 0 then map_option (\<lambda>t. spaces 9 @ t @ newline) (shown_from data (?i - 16) ?i)
      else Some []) = Some (if r = 0 \<and> q \<noteq> 0 then end_row (row_at cs (q - 16)) else [])"
    using im by (auto simp: end_row_def)
  show ?thesis
  proof (cases "?i = Size - 1")
    case True
    then have row: "row_at cs q = drop q cs" using len cs r i by (simp add: row_at_def)
    have e: "?i - ?i mod 16 = q" "?i + 1 = Size" using im(1) True i by simp_all
    have here: "shown_from data (?i - ?i mod 16) (?i + 1) = Some (map shown (row_at cs q))"
      unfolding e using shown_from_ok [of q Size data] len cs i row by (simp add: drop_take)
    have "(?i = Size - 1) = True" using True by simp
    then show ?thesis
      unfolding print_data_step_def unfolding before c here unfolding im(1) by (simp add: end_row_def)
  qed (use before c im in \<open>simp add: print_data_step_def\<close>)
qed

text \<open>The loop from there.\<close>

lemma print_data_loop_ok:
  assumes len: "Size \<le> length data" "cs = take Size data" and "q mod 16 = 0" and "r < 16" and "q + r < Size"
  shows "print_data_loop data Size (q + r) = Some
     ((if r = 0 then (if q = 0 then [] else end_row (row_at cs (q - 16))) @ spaces 3 else []) @
      hexes (drop r (row_at cs q)) @ after_row cs q)"
  using assms(3-5)
proof (induction "Size - (q + r)" arbitrary: q r rule: less_induct)
  case less
  let ?i = "q + r"
  have l: "length cs = Size" using len by simp
  note step = print_data_step_ok [OF len less.prems]
  have d: "drop r (row_at cs q) = cs ! ?i # drop (Suc r) (row_at cs q)"
    using less.prems l by (subst Cons_nth_drop_Suc [symmetric]) (simp_all add: row_at_def)
  show ?case
  proof (cases "?i = Size - 1")
    case True
    then have "length (row_at cs q) = Suc r" "drop (Suc r) (row_at cs q) = []"
      using l less.prems by (simp_all add: row_at_def)
    moreover have "print_data_loop data Size (?i + 1) = Some []" using True less.prems
      by (subst print_data_loop.simps) simp
    moreover have "dump (drop (q + 16) cs) = []" using True less.prems l by (intro dump_past) simp
    ultimately show ?thesis using step less.prems(3) d True
      by (subst print_data_loop.simps) (simp add: after_row_def [of cs q] hexes_Cons hexes_def)
  next
    case False
    show ?thesis
    proof (cases "r = 15")
      case True
      have "print_data_loop data Size (?i + 1) = Some (end_row (row_at cs q) @ spaces 3 @
          hexes (row_at cs (q + 16)) @ after_row cs (q + 16))"
        using less.hyps [of "q + 16" 0] less.prems False True by (simp add: add.commute)
      moreover have "dump (drop (q + 16) cs) = spaces 3 @ hexes (row_at cs (q + 16)) @ after_row cs (q + 16)"
        using dump_at [of "q + 16" cs] l less.prems False True by simp
      moreover have "length (row_at cs q) = 16" "drop (Suc r) (row_at cs q) = []"
        using l less.prems False True by (simp_all add: row_at_def)
      ultimately show ?thesis using step False True less.prems d
        by (subst print_data_loop.simps) (simp add: hexes_Cons after_row_def [of cs q] hexes_def spaces_def)
    next
      case r: False
      have "print_data_loop data Size (q + Suc r) = Some (hexes (drop (Suc r) (row_at cs q)) @ after_row cs q)"
        using less.hyps [of q "Suc r"] less.prems False r by simp
      then show ?thesis using step False less.prems d
        by (subst print_data_loop.simps) (auto simp: hexes_Cons)
    qed
  qed
qed

lemma PrintData_ok:
  assumes "n \<le> length data"
  shows "PrintData data (int n) = Some (dump (take n data))"
proof (cases "n = 0")
  case True
  then show ?thesis by (subst dump.simps) (simp add: PrintData_def print_data_loop.simps)
next
  case False
  with print_data_loop_ok [of n data "take n data" 0 0] dump_at [of 0 "take n data"] assms show ?thesis
    by (simp add: PrintData_def)
qed

subsection \<open>Headers\<close>

definition byte_at :: "string \<Rightarrow> nat \<Rightarrow> nat option" where
  "byte_at buf k = map_option of_char (at buf k)"

text \<open>Two and four bytes in network order, as \<open>ntohs\<close> and \<open>ntohl\<close> read them.\<close>

definition short_at :: "string \<Rightarrow> nat \<Rightarrow> nat option" where
  "short_at buf k = do { a \<leftarrow> byte_at buf k; b \<leftarrow> byte_at buf (k + 1); Some (256 * a + b) }"

definition long_at :: "string \<Rightarrow> nat \<Rightarrow> nat option" where
  "long_at buf k = do { a \<leftarrow> short_at buf k; b \<leftarrow> short_at buf (k + 2); Some (65536 * a + b) }"

definition address_at :: "string \<Rightarrow> nat \<Rightarrow> string option" where
  "address_at buf k = do {
     a \<leftarrow> at buf k; b \<leftarrow> at buf (k + 1); c \<leftarrow> at buf (k + 2); d \<leftarrow> at buf (k + 3);
     Some (inet_ntoa a b c d)
   }"

definition field :: "string \<Rightarrow> nat \<Rightarrow> string" where
  "field label v = label @ show_nat v @ newline"

text \<open>The Ethernet header; nothing calls this. The protocol is printed in the byte order of the host.\<close>

definition print_mac :: "string \<Rightarrow> nat \<Rightarrow> string option" where
  "print_mac buf k = do {
     a \<leftarrow> byte_at buf k; b \<leftarrow> byte_at buf (k + 1); c \<leftarrow> byte_at buf (k + 2);
     d \<leftarrow> byte_at buf (k + 3); e \<leftarrow> byte_at buf (k + 4); f \<leftarrow> byte_at buf (k + 5);
     Some (hex2 a @ ''-'' @ hex2 b @ ''-'' @ hex2 c @ ''-'' @ hex2 d @ ''-'' @ hex2 e @ ''-'' @ hex2 f @ '' '' @ newline)
   }"

definition print_ethernet_header :: "string \<Rightarrow> string option" where
  "print_ethernet_header buf = do {
     h_dest \<leftarrow> print_mac buf 0; h_source \<leftarrow> print_mac buf 6;
     lo \<leftarrow> byte_at buf 12; hi \<leftarrow> byte_at buf 13;
     Some (newline @ ''Ethernet Header'' @ newline @
       ''   |-Destination Address : '' @ h_dest @ ''   |-Source Address      : '' @ h_source @
       ''   |-Protocol            : '' @ show_nat (256 * hi + lo) @ '' '' @ newline)
   }"

text \<open>The IP header behind 14 bytes of Ethernet header; its length is in 32-bit words.\<close>

definition print_ip_header :: "string \<Rightarrow> string option" where
  "print_ip_header buf = do {
     vi \<leftarrow> byte_at buf 14; tos \<leftarrow> byte_at buf 15; tot_len \<leftarrow> short_at buf 16; ident \<leftarrow> short_at buf 18;
     ttl \<leftarrow> byte_at buf 22; protocol \<leftarrow> byte_at buf 23; check \<leftarrow> short_at buf 24;
     saddr \<leftarrow> address_at buf 26; daddr \<leftarrow> address_at buf 30;
     Some (newline @ ''IP Header'' @ newline @
       field ''   |-IP Version        : '' (vi div 16) @
       ''   |-IP Header Length  : '' @ show_nat (vi mod 16) @ '' DWORDS or '' @ show_nat (vi mod 16 * 4) @ '' Bytes'' @ newline @
       field ''   |-Type Of Service   : '' tos @
       ''   |-IP Total Length   : '' @ show_nat tot_len @ ''  Bytes(Size of Packet)'' @ newline @
       field ''   |-Identification    : '' ident @
       field ''   |-TTL      : '' ttl @
       field ''   |-Protocol : '' protocol @
       field ''   |-Checksum : '' check @
       ''   |-Source IP        : '' @ saddr @ newline @
       ''   |-Destination IP   : '' @ daddr @ newline)
   }"

definition iphdrlen :: "string \<Rightarrow> nat option" where
  "iphdrlen buf = map_option (\<lambda>vi. vi mod 16 * 4) (byte_at buf 14)"

definition closing_line :: string where
  "closing_line = ''###########################################################''"

text \<open>The end of each printer: three dumps, the last of what is behind the headers.\<close>

definition print_dumps :: "string \<Rightarrow> int \<Rightarrow> nat \<Rightarrow> string \<Rightarrow> nat \<Rightarrow> nat \<Rightarrow> string option" where
  "print_dumps buf Size ihl name hdr header_size = do {
     ip \<leftarrow> PrintData buf (int ihl);
     tp \<leftarrow> PrintData (drop ihl buf) (int hdr);
     payload \<leftarrow> PrintData (drop header_size buf) (Size - int header_size);
     Some (''IP Header'' @ newline @ ip @ name @ newline @ tp @ ''Data Payload'' @ newline @ payload @
       newline @ closing_line)
   }"

text \<open>
  What is printed of a packet before the dumps. \<open>urg_ptr\<close> is printed in the byte order of the host,
  the lower byte first.
\<close>

definition tcp_fields :: "string \<Rightarrow> nat \<Rightarrow> nat \<Rightarrow> string option" where
  "tcp_fields buf ihl doff = do {
     ip \<leftarrow> print_ip_header buf;
     sport \<leftarrow> short_at buf (ihl + 14); dport \<leftarrow> short_at buf (ihl + 16);
     seqn \<leftarrow> long_at buf (ihl + 18); ack_seq \<leftarrow> long_at buf (ihl + 22);
     flags \<leftarrow> byte_at buf (ihl + 27);
     window \<leftarrow> short_at buf (ihl + 28); check \<leftarrow> short_at buf (ihl + 30);
     urg_lo \<leftarrow> byte_at buf (ihl + 32); urg_hi \<leftarrow> byte_at buf (ihl + 33);
     Some (newline @ newline @ ''***********************TCP Packet*************************'' @ newline @ ip @
       newline @ ''TCP Header'' @ newline @
       field ''   |-Source Port      : '' sport @
       field ''   |-Destination Port : '' dport @
       field ''   |-Sequence Number    : '' seqn @
       field ''   |-Acknowledge Number : '' ack_seq @
       ''   |-Header Length      : '' @ show_nat doff @ '' DWORDS or '' @ show_nat (doff * 4) @ '' BYTES'' @ newline @
       field ''   |-Urgent Flag          : '' (flags div 32 mod 2) @
       field ''   |-Acknowledgement Flag : '' (flags div 16 mod 2) @
       field ''   |-Push Flag            : '' (flags div 8 mod 2) @
       field ''   |-Reset Flag           : '' (flags div 4 mod 2) @
       field ''   |-Synchronise Flag     : '' (flags div 2 mod 2) @
       field ''   |-Finish Flag          : '' (flags mod 2) @
       field ''   |-Window         : '' window @
       field ''   |-Checksum       : '' check @
       field ''   |-Urgent Pointer : '' (256 * urg_hi + urg_lo) @
       newline @ ''                        DATA Dump                         '' @ newline)
   }"

definition print_tcp_packet :: "string \<Rightarrow> int \<Rightarrow> string option" where
  "print_tcp_packet buf Size = do {
     ihl \<leftarrow> iphdrlen buf;
     doff_byte \<leftarrow> byte_at buf (ihl + 26);
     let doff = doff_byte div 16;
     let header_size = 14 + ihl + doff * 4;
     fields \<leftarrow> tcp_fields buf ihl doff;
     dumps \<leftarrow> print_dumps buf Size ihl ''TCP Header'' (doff * 4) header_size;
     Some (fields @ dumps)
   }"

text \<open>\<open>sizeof udph\<close> and \<open>sizeof icmph\<close> are sizes of pointers, which happen to be those of the headers.\<close>

definition udp_fields :: "string \<Rightarrow> nat \<Rightarrow> string option" where
  "udp_fields buf ihl = do {
     ip \<leftarrow> print_ip_header buf;
     sport \<leftarrow> short_at buf (ihl + 14); dport \<leftarrow> short_at buf (ihl + 16);
     len \<leftarrow> short_at buf (ihl + 18); check \<leftarrow> short_at buf (ihl + 20);
     Some (newline @ newline @ ''***********************UDP Packet*************************'' @ newline @ ip @
       newline @ ''UDP Header'' @ newline @
       field ''   |-Source Port      : '' sport @
       field ''   |-Destination Port : '' dport @
       field ''   |-UDP Length       : '' len @
       field ''   |-UDP Checksum     : '' check @ newline)
   }"

definition print_udp_packet :: "string \<Rightarrow> int \<Rightarrow> string option" where
  "print_udp_packet buf Size = do {
     ihl \<leftarrow> iphdrlen buf;
     let header_size = 14 + ihl + 8;
     fields \<leftarrow> udp_fields buf ihl;
     dumps \<leftarrow> print_dumps buf Size ihl ''UDP Header'' 8 header_size;
     Some (fields @ dumps)
   }"

definition icmp_fields :: "string \<Rightarrow> nat \<Rightarrow> string option" where
  "icmp_fields buf ihl = do {
     ip \<leftarrow> print_ip_header buf;
     type_byte \<leftarrow> byte_at buf (ihl + 14); code_byte \<leftarrow> byte_at buf (ihl + 15); check \<leftarrow> short_at buf (ihl + 16);
     Some (newline @ newline @ ''***********************ICMP Packet*************************'' @ newline @ ip @
       newline @ ''ICMP Header'' @ newline @
       ''   |-Type : '' @ show_nat type_byte @
       (if type_byte = 11 then ''  (TTL Expired)'' @ newline
        else if type_byte = 0 then ''  (ICMP Echo Reply)'' @ newline else []) @
       field ''   |-Code : '' code_byte @
       field ''   |-Checksum : '' check @ newline)
   }"

definition print_icmp_packet :: "string \<Rightarrow> int \<Rightarrow> string option" where
  "print_icmp_packet buf Size = do {
     ihl \<leftarrow> iphdrlen buf;
     let header_size = 14 + ihl + 8;
     fields \<leftarrow> icmp_fields buf ihl;
     dumps \<leftarrow> print_dumps buf Size ihl ''UDP Header'' 8 header_size;
     Some (fields @ dumps)
   }"

subsection \<open>Dispatch\<close>

record counters =
  n_tcp :: "32 word"
  n_udp :: "32 word"
  n_icmp :: "32 word"
  n_igmp :: "32 word"
  n_others :: "32 word"
  n_total :: "32 word"

definition no_packets :: counters where
  "no_packets = \<lparr>n_tcp = 0, n_udp = 0, n_icmp = 0, n_igmp = 0, n_others = 0, n_total = 0\<rparr>"

definition counted :: "string \<Rightarrow> 32 word \<Rightarrow> string" where
  "counted label n = label @ show_int (sint n)"

definition status_line :: "counters \<Rightarrow> string" where
  "status_line c = counted ''TCP : '' (n_tcp c) @ counted ''   UDP : '' (n_udp c) @
     counted ''   ICMP : '' (n_icmp c) @ counted ''   IGMP : '' (n_igmp c) @
     counted ''   Others : '' (n_others c) @ counted ''   Total : '' (n_total c) @ [CHR 0x0D]"

text \<open>The buffer is taken for an IP header here, with the protocol in its tenth byte.\<close>

definition ProcessPacket :: "string \<Rightarrow> int \<Rightarrow> counters \<Rightarrow> (counters \<times> string) option" where
  "ProcessPacket buf Size c = do {
     protocol \<leftarrow> byte_at buf 9;
     let c = c\<lparr>n_total := n_total c + 1\<rparr>;
     (c, text) \<leftarrow>
       (if protocol = 1 then map_option (Pair (c\<lparr>n_icmp := n_icmp c + 1\<rparr>)) (print_icmp_packet buf Size)
        else if protocol = 2 then Some (c\<lparr>n_igmp := n_igmp c + 1\<rparr>, [])
        else if protocol = 6 then map_option (Pair (c\<lparr>n_tcp := n_tcp c + 1\<rparr>)) (print_tcp_packet buf Size)
        else if protocol = 17 then map_option (Pair (c\<lparr>n_udp := n_udp c + 1\<rparr>)) (print_udp_packet buf Size)
        else Some (c\<lparr>n_others := n_others c + 1\<rparr>, []));
     Some (c, text @ status_line c)
   }"

fun process_packets :: "(string \<times> int) list \<Rightarrow> counters \<Rightarrow> (counters \<times> string) option" where
  "process_packets [] c = Some (c, [])"
| "process_packets ((buf, Size) # ps) c = do {
     (c, t) \<leftarrow> ProcessPacket buf Size c;
     (c, ts) \<leftarrow> process_packets ps c;
     Some (c, t @ ts)
   }"

subsection \<open>Widths\<close>

lemma show_hex_length: "16 ^ k \<le> n \<Longrightarrow> n < 16 ^ Suc k \<Longrightarrow> length (show_hex n) = Suc k"
proof (induction k arbitrary: n)
  case 0
  then show ?case by (subst show_hex.simps) simp
next
  case (Suc k)
  have "16 ^ k \<le> n div 16" using Suc.prems(1) by (simp add: less_eq_div_iff_mult_less_eq)
  moreover have "n div 16 < 16 ^ Suc k" using Suc.prems(2) by (simp add: less_mult_imp_div_less)
  ultimately have "length (show_hex (n div 16)) = Suc k" by (rule Suc.IH)
  moreover have "\<not> n < 16"
  proof -
    have "(16::nat) * 1 \<le> 16 * 16 ^ k" by (intro mult_le_mono) simp_all
    also have "\<dots> \<le> n" using Suc.prems(1) by simp
    finally show ?thesis by simp
  qed
  ultimately show ?case by (subst show_hex.simps) simp
qed

lemma hex2_small: "n < 256 \<Longrightarrow> length (hex2 n) = 2"
  using show_hex_length [of 1 n] by (cases "n < 16") (simp_all add: hex2_def show_hex.simps [of n])

lemma schar_range: "-128 \<le> schar c \<and> schar c < 128"
proof -
  define n :: nat where "n = of_char c"
  have "(of_char c :: int) = int n" unfolding n_def by (simp only: of_nat_of_char)
  moreover have "n < 256" unfolding n_def by (rule nat_of_char_less_256)
  ultimately show ?thesis by (simp add: schar_def Let_def)
qed

lemma hex_byte_length: "length (hex_byte c) = (if schar c < 0 then 8 else 2)"
proof (cases "schar c < 0")
  case True
  have r: "-128 \<le> schar c" using schar_range by blast
  then have e: "schar c mod 4294967296 = schar c + 4294967296" using True
    by (subst mod_add_self2 [symmetric], subst mod_pos_pos_trivial) auto
  have "length (show_hex (nat (schar c mod 4294967296))) = Suc 7"
    by (rule show_hex_length) (use True r in \<open>simp_all add: e nat_le_iff le_nat_iff nat_less_iff\<close>)
  with True show ?thesis by (simp add: hex_byte_def hex2_def)
next
  case False
  have "schar c < 128" using schar_range by blast
  with False have "nat (schar c mod 4294967296) < 256" by (simp add: nat_less_iff)
  with False show ?thesis by (simp add: hex_byte_def hex2_small)
qed

lemma hexes_length: "length (hexes cs) = 3 * length cs + 6 * length (filter (\<lambda>c. schar c < 0) cs)"
  by (induction cs) (auto simp: hexes_def hex_byte_length)

lemma dump_row_length:
  "length cs \<le> 16 \<Longrightarrow> length (dump_row cs) = 61 + length cs + 6 * length (filter (\<lambda>c. schar c < 0) cs)"
  using hexes_length [of cs] by (simp add: dump_row_def spaces_def newline_def hexes_def)

subsection \<open>Fields of a buffer that holds them\<close>

lemma byte_at_ok: "k < length buf \<Longrightarrow> byte_at buf k = Some (of_char (buf ! k))"
  by (simp add: byte_at_def at_def)

lemma short_at_ok: "k + 1 < length buf \<Longrightarrow> short_at buf k = Some (256 * of_char (buf ! k) + of_char (buf ! (k + 1)))"
  by (simp add: short_at_def byte_at_ok)

lemma address_at_ok: "k + 3 < length buf \<Longrightarrow> \<exists>t. address_at buf k = Some t"
  by (simp add: address_at_def at_def)

lemma print_ip_header_ok: "34 \<le> length buf \<Longrightarrow> \<exists>t. print_ip_header buf = Some t"
  using address_at_ok [of 26 buf] address_at_ok [of 30 buf]
  by (auto simp: print_ip_header_def byte_at_ok short_at_ok)

lemma print_dumps_ok:
  assumes "ihl + hdr \<le> length buf" and "header_size \<le> length buf"
  shows "print_dumps buf (int (length buf)) ihl name hdr header_size =
     Some (''IP Header'' @ newline @ dump (take ihl buf) @ name @ newline @ dump (take hdr (drop ihl buf)) @
       ''Data Payload'' @ newline @ dump (drop header_size buf) @
       newline @ closing_line)"
proof -
  have payload: "PrintData (drop header_size buf) (int (length buf) - int header_size) = Some (dump (drop header_size buf))"
    using PrintData_ok [of "length (drop header_size buf)" "drop header_size buf"] assms(2)
    by (simp add: of_nat_diff)
  have ip: "PrintData buf (int ihl) = Some (dump (take ihl buf))"
    using assms(1) by (intro PrintData_ok) simp
  have tp: "PrintData (drop ihl buf) (int hdr) = Some (dump (take hdr (drop ihl buf)))"
    using assms(1) by (intro PrintData_ok) simp
  show ?thesis unfolding print_dumps_def payload ip tp bind.bind_lunit by (rule refl)
qed

lemma ProcessPacket_counts:
  assumes "ProcessPacket buf Size c = Some (c', t)"
  shows "\<exists>p. byte_at buf 9 = Some p \<and> n_total c' = n_total c + 1 \<and>
     n_tcp c' = n_tcp c + of_bool (p = 6) \<and> n_udp c' = n_udp c + of_bool (p = 17) \<and>
     n_icmp c' = n_icmp c + of_bool (p = 1) \<and> n_igmp c' = n_igmp c + of_bool (p = 2) \<and>
     n_others c' = n_others c + of_bool (p \<notin> {1, 2, 6, 17})"
proof -
  let ?c = "c\<lparr>n_total := n_total c + 1\<rparr>"
  from assms obtain p where p: "byte_at buf 9 = Some p" by (cases "byte_at buf 9") (simp_all add: ProcessPacket_def)
  let ?out = "if p = 1 then map_option (Pair (?c\<lparr>n_icmp := n_icmp ?c + 1\<rparr>)) (print_icmp_packet buf Size)
        else if p = 2 then Some (?c\<lparr>n_igmp := n_igmp ?c + 1\<rparr>, [])
        else if p = 6 then map_option (Pair (?c\<lparr>n_tcp := n_tcp ?c + 1\<rparr>)) (print_tcp_packet buf Size)
        else if p = 17 then map_option (Pair (?c\<lparr>n_udp := n_udp ?c + 1\<rparr>)) (print_udp_packet buf Size)
        else Some (?c\<lparr>n_others := n_others ?c + 1\<rparr>, [])"
  from assms have "\<exists>text. ?out = Some (c', text)"
    unfolding ProcessPacket_def p bind.bind_lunit Let_def by (cases ?out) auto
  with p show ?thesis by (auto split: if_split_asm)
qed

lemma process_packets_counts:
  "process_packets ps c = Some (c', t) \<Longrightarrow>
   n_total c' = n_total c + of_nat (length ps) \<and>
   n_tcp c' + n_udp c' + n_icmp c' + n_igmp c' + n_others c' - n_total c' =
   n_tcp c + n_udp c + n_icmp c + n_igmp c + n_others c - n_total c"
proof (induction ps arbitrary: c t)
  case (Cons p ps)
  obtain buf Size where p: "p = (buf, Size)" by (cases p)
  with Cons.prems obtain c1 t1 t2 where c1: "ProcessPacket buf Size c = Some (c1, t1)"
    "process_packets ps c1 = Some (c', t2)" by (auto simp: bind_eq_Some_conv)
  from ProcessPacket_counts [OF c1(1)] obtain p where
    "n_total c1 = n_total c + 1" "n_tcp c1 = n_tcp c + of_bool (p = 6)" "n_udp c1 = n_udp c + of_bool (p = 17)"
    "n_icmp c1 = n_icmp c + of_bool (p = 1)" "n_igmp c1 = n_igmp c + of_bool (p = (2::nat))"
    "n_others c1 = n_others c + of_bool (p \<notin> {1, 2, 6, 17})" by blast
  with Cons.IH [OF c1(2)] show ?case by (cases "p \<in> {1, 2, 6, 17}") auto
qed simp

lemma iphdrlen_frame:
  assumes "length eth = 14" and "ip \<noteq> []" and "of_char (ip ! 0) mod 16 * 4 = length ip"
  shows "iphdrlen (eth @ ip @ rest) = Some (length ip)"
  using assms by (simp add: iphdrlen_def byte_at_def at_def nth_append)

lemma udp_fields_ok:
  assumes "34 \<le> length buf" and "ihl + 22 \<le> length buf"
  shows "\<exists>t. udp_fields buf ihl = Some t"
proof -
  from print_ip_header_ok [OF assms(1)] obtain ip where ip: "print_ip_header buf = Some ip" by blast
  have s: "\<exists>v. short_at buf (ihl + k) = Some v" if "k < 21" for k
    using that assms(2) short_at_ok [of "ihl + k" buf] by simp
  from s [of 14] s [of 16] s [of 18] s [of 20] obtain a b c d where
    "short_at buf (ihl + 14) = Some a" "short_at buf (ihl + 16) = Some b"
    "short_at buf (ihl + 18) = Some c" "short_at buf (ihl + 20) = Some d" by auto
  then show ?thesis unfolding udp_fields_def ip by (simp only: bind.bind_lunit option.inject) (rule exI, rule refl)
qed

lemma long_at_ok: "k + 3 < length buf \<Longrightarrow> \<exists>v. long_at buf k = Some v"
  by (simp add: long_at_def short_at_ok)

lemma icmp_fields_ok:
  assumes "34 \<le> length buf" and "ihl + 18 \<le> length buf"
  shows "\<exists>t. icmp_fields buf ihl = Some t"
  using print_ip_header_ok [OF assms(1)] assms(2) by (auto simp: icmp_fields_def byte_at_ok short_at_ok)

lemma tcp_fields_ok:
  assumes "34 \<le> length buf" and "ihl + 34 \<le> length buf"
  shows "\<exists>t. tcp_fields buf ihl doff = Some t"
proof -
  from print_ip_header_ok [OF assms(1)] obtain ip where ip: "print_ip_header buf = Some ip" by blast
  have s: "\<exists>v. short_at buf (ihl + k) = Some v" if "k < 33" for k
    using that assms(2) short_at_ok [of "ihl + k" buf] by simp
  have b: "\<exists>v. byte_at buf (ihl + k) = Some v" if "k < 34" for k
    using that assms(2) byte_at_ok [of "ihl + k" buf] by simp
  have l: "\<exists>v. long_at buf (ihl + k) = Some v" if "k < 31" for k
    using that assms(2) long_at_ok [of "ihl + k" buf] by simp
  from s [of 14] s [of 16] s [of 28] s [of 30] obtain s1 s2 s3 s4 where
    "short_at buf (ihl + 14) = Some s1" "short_at buf (ihl + 16) = Some s2"
    "short_at buf (ihl + 28) = Some s3" "short_at buf (ihl + 30) = Some s4" by auto
  moreover from b [of 27] b [of 32] b [of 33] obtain b1 b2 b3 where
    "byte_at buf (ihl + 27) = Some b1" "byte_at buf (ihl + 32) = Some b2" "byte_at buf (ihl + 33) = Some b3" by auto
  moreover from l [of 18] l [of 22] obtain l1 l2 where
    "long_at buf (ihl + 18) = Some l1" "long_at buf (ihl + 22) = Some l2" by auto
  ultimately show ?thesis unfolding tcp_fields_def ip
    by (simp only: bind.bind_lunit option.inject) (rule exI, rule refl)
qed

text \<open>
  The headers that are printed lie inside the packet: the IP header behind 14 bytes, whatever length
  it announces, and the header of the protocol that the tenth byte names.
\<close>

definition headers_inside :: "string \<Rightarrow> bool" where
  "headers_inside buf \<longleftrightarrow>
     34 \<le> length buf \<and>
     (let ihl = of_char (buf ! 14) mod 16 * 4; protocol = of_char (buf ! 9) :: nat
      in if protocol = 6
         then ihl + 34 \<le> length buf \<and> 14 + ihl + of_char (buf ! (ihl + 26)) div 16 * 4 \<le> length buf
         else if protocol = 1 \<or> protocol = 17 then ihl + 22 \<le> length buf
         else True)"

lemma printers_ok:
  assumes "34 \<le> length buf" and "ihl = of_char (buf ! 14) mod 16 * 4"
  shows "ihl + 22 \<le> length buf \<Longrightarrow> \<exists>t. print_udp_packet buf (int (length buf)) = Some t"
    and "ihl + 22 \<le> length buf \<Longrightarrow> \<exists>t. print_icmp_packet buf (int (length buf)) = Some t"
    and "ihl + 34 \<le> length buf \<Longrightarrow> 14 + ihl + of_char (buf ! (ihl + 26)) div 16 * 4 \<le> length buf \<Longrightarrow>
      \<exists>t. print_tcp_packet buf (int (length buf)) = Some t"
proof -
  have i: "iphdrlen buf = Some ihl" using assms byte_at_ok [of 14 buf] by (simp add: iphdrlen_def)
  {
    assume l: "ihl + 22 \<le> length buf"
    have d: "\<exists>t. print_dumps buf (int (length buf)) ihl name 8 (14 + ihl + 8) = Some t" for name
      using print_dumps_ok [of ihl 8 buf "14 + ihl + 8" name] l by simp
    from udp_fields_ok [OF assms(1) l] d [of "''UDP Header''"]
    show "\<exists>t. print_udp_packet buf (int (length buf)) = Some t" by (auto simp: print_udp_packet_def i Let_def)
    from icmp_fields_ok [OF assms(1), of ihl] l d [of "''UDP Header''"]
    show "\<exists>t. print_icmp_packet buf (int (length buf)) = Some t" by (auto simp: print_icmp_packet_def i Let_def)
  next
    let ?doff = "of_char (buf ! (ihl + 26)) div 16 :: nat"
    assume l: "ihl + 34 \<le> length buf" "14 + ihl + ?doff * 4 \<le> length buf"
    have b: "byte_at buf (ihl + 26) = Some (of_char (buf ! (ihl + 26)))" using l(1) by (simp add: byte_at_ok)
    from print_dumps_ok [of ihl "?doff * 4" buf "14 + ihl + ?doff * 4" "''TCP Header''"] l(2)
    have "\<exists>t. print_dumps buf (int (length buf)) ihl ''TCP Header'' (?doff * 4) (14 + ihl + ?doff * 4) = Some t" by simp
    with tcp_fields_ok [OF assms(1) l(1), of ?doff] show "\<exists>t. print_tcp_packet buf (int (length buf)) = Some t"
      by (auto simp: print_tcp_packet_def i b Let_def)
  }
qed

subsection \<open>Properties\<close>

text \<open>
  C40: \<open>ProcessPacket\<close> reads inside the packet whenever the headers it announces fit, whatever its
  bytes are and whichever printer it calls. A packet of fewer than ten bytes is read beyond its end.
\<close>

theorem process_packet_in_bounds:
  shows "(headers_inside buf \<longrightarrow> (\<exists>c' t. ProcessPacket buf (int (length buf)) c = Some (c', t))) \<and>
     (length buf < 10 \<longrightarrow> ProcessPacket buf Size c = None)"
proof (intro conjI impI)
  assume h: "headers_inside buf"
  then have l: "34 \<le> length buf" by (simp add: headers_inside_def)
  then have p: "byte_at buf 9 = Some (of_char (buf ! 9))" by (simp add: byte_at_ok)
  note pr = printers_ok [OF l refl]
  from h consider "of_char (buf ! 9) = (1::nat)" | "of_char (buf ! 9) = (2::nat)"
    | "of_char (buf ! 9) = (6::nat)" | "of_char (buf ! 9) = (17::nat)" | "of_char (buf ! 9) \<notin> {1, 2, 6, 17 :: nat}" by blast
  then show "\<exists>c' t. ProcessPacket buf (int (length buf)) c = Some (c', t)"
  proof cases
    case 1
    with h pr(2) show ?thesis by (auto simp: headers_inside_def ProcessPacket_def p Let_def)
  next
    case 3
    with h pr(3) show ?thesis by (auto simp: headers_inside_def ProcessPacket_def p Let_def)
  next
    case 4
    with h pr(1) show ?thesis by (auto simp: headers_inside_def ProcessPacket_def p Let_def)
  qed (simp_all add: ProcessPacket_def p Let_def)
next
  assume "length buf < 10"
  then show "ProcessPacket buf Size c = None" by (simp add: ProcessPacket_def byte_at_def at_def)
qed

theorem process_packet_in_bounds_witness:
  "(\<exists>c' t. ProcessPacket (replicate 9 NUL @ CHR 0x11 # replicate 4 NUL @ CHR 0x45 # replicate 27 NUL) 42 no_packets = Some (c', t)) \<and>
   ProcessPacket ''short'' 5 no_packets = None"
proof -
  let ?p = "replicate 9 NUL @ CHR 0x11 # replicate 4 NUL @ CHR 0x45 # replicate 27 NUL"
  have "headers_inside ?p" "length ?p = 42" by code_simp+
  with process_packet_in_bounds [of ?p no_packets 0] process_packet_in_bounds [of "''short''" no_packets 5] show ?thesis by simp
qed

text \<open>
  C38: The loop of \<open>PrintData\<close> prints the data in rows of 16 bytes, hexadecimal digits on the left
  and characters on the right, and reads nothing else. A row has 61 columns and one for each byte,
  but every byte from 0x80 on, being a negative \<open>char\<close>, is printed with 6 digits too many.
\<close>

theorem PrintData_rows:
  assumes "n \<le> length data"
  shows "PrintData data (int n) = Some (dump (take n data)) \<and>
     (\<forall>cs. length cs \<le> 16 \<longrightarrow>
        length (dump_row cs) = 61 + length cs + 6 * length (filter (\<lambda>c. schar c < 0) cs))"
  using PrintData_ok [OF assms] dump_row_length by blast

theorem PrintData_rows_witness:
  "PrintData ''abc'' 2 = Some (dump ''ab'') \<and> length (dump_row ''ab'') = 63 \<and> length (dump_row [CHR 0x80]) = 68"
proof -
  have "schar CHR ''a'' = 97" "schar CHR ''b'' = 98" "schar CHR 0x80 = -128" by (simp_all add: schar_def)
  with PrintData_rows [of 2 "''abc''"] PrintData_rows [of 0 "[]", THEN conjunct2, rule_format, of "''ab''"]
    PrintData_rows [of 0 "[]", THEN conjunct2, rule_format, of "[CHR 0x80]"]
  show ?thesis by (simp add: numeral_2_eq_2)
qed

text \<open>
  After any packets the total is their number and the sum of the counters of the protocols, as
  32-bit numbers.
\<close>

lemma process_packets_total:
  assumes "process_packets ps no_packets = Some (c, t)"
  shows "n_total c = of_nat (length ps) \<and>
     n_total c = n_tcp c + n_udp c + n_icmp c + n_igmp c + n_others c"
  using process_packets_counts [OF assms] by (simp add: no_packets_def)

text \<open>
  A packet with an Ethernet header, such as the router receives, is not classified by its protocol:
  the byte that decides is the fourth of its source MAC address.
\<close>

theorem process_packet_misclassifies:
  assumes "length dst = 6" and "length src = 6" and "ProcessPacket (dst @ src @ rest) Size c = Some (c', t)"
  shows "n_total c' = n_total c + 1 \<and> n_tcp c' = n_tcp c + of_bool (of_char (src ! 3) = (6::nat)) \<and>
     n_udp c' = n_udp c + of_bool (of_char (src ! 3) = (17::nat)) \<and>
     n_icmp c' = n_icmp c + of_bool (of_char (src ! 3) = (1::nat))"
proof -
  have "byte_at (dst @ src @ rest) 9 = Some (of_char (src ! 3))"
    using assms(1,2) by (simp add: byte_at_def at_def nth_append)
  with ProcessPacket_counts [OF assms(3)] show ?thesis by auto
qed

theorem process_packet_misclassifies_witness:
  "\<exists>c' t. ProcessPacket (replicate 6 NUL @ replicate 6 NUL @ replicate 11 NUL @ CHR 0x11 # replicate 20 NUL) 44 no_packets =
       Some (c', t) \<and> n_udp c' = 0 \<and> n_total c' = 1"
proof -
  let ?r = "replicate 11 NUL @ CHR 0x11 # replicate 20 NUL"
  have "\<exists>c' t. ProcessPacket (replicate 6 NUL @ replicate 6 NUL @ ?r) 44 no_packets = Some (c', t)"
    by (simp add: ProcessPacket_def byte_at_def at_def nth_append Let_def)
  then obtain c' t where c: "ProcessPacket (replicate 6 NUL @ replicate 6 NUL @ ?r) 44 no_packets = Some (c', t)" by blast
  from process_packet_misclassifies [OF _ _ c] c show ?thesis by (simp add: no_packets_def)
qed

text \<open>
  C39: For a whole UDP packet \<open>print_udp_packet\<close> reads nothing outside the buffer and dumps exactly
  the payload; but the dumps it calls IP and UDP header start at the Ethernet header, 14 bytes early.
\<close>

theorem print_udp_packet_dumps:
  assumes "buf = eth @ ip @ udp @ payload" and "length eth = 14" and "20 \<le> length ip" and "length udp = 8"
    and "of_char (ip ! 0) mod 16 * 4 = length ip"
  shows "\<exists>fields. print_udp_packet buf (int (length buf)) = Some (fields @
     ''IP Header'' @ newline @ dump (take (length ip) (eth @ ip)) @
     ''UDP Header'' @ newline @ dump (take 8 (drop (length ip) (eth @ ip @ udp))) @
     ''Data Payload'' @ newline @ dump payload @ newline @ closing_line)"
proof -
  have "ip \<noteq> []" using assms(3) by auto
  then have ihl: "iphdrlen buf = Some (length ip)" unfolding assms(1) using assms(2,5) by (intro iphdrlen_frame)
  have l: "length buf = 22 + length ip + length payload" using assms by simp
  from udp_fields_ok [of buf "length ip"] l assms(3) obtain fields where f: "udp_fields buf (length ip) = Some fields" by auto
  have d: "print_dumps buf (int (length buf)) (length ip) ''UDP Header'' 8 (14 + length ip + 8) =
     Some (''IP Header'' @ newline @ dump (take (length ip) buf) @ ''UDP Header'' @ newline @ dump (take 8 (drop (length ip) buf)) @
       ''Data Payload'' @ newline @ dump (drop (14 + length ip + 8) buf) @ newline @ closing_line)"
    using l by (intro print_dumps_ok) simp_all
  have t: "take (length ip) buf = take (length ip) (eth @ ip)" "drop (14 + length ip + 8) buf = payload"
    "take 8 (drop (length ip) buf) = take 8 (drop (length ip) (eth @ ip @ udp))"
    using assms(1-4) by simp_all
  show ?thesis unfolding print_udp_packet_def ihl Let_def bind.bind_lunit f d unfolding t bind.bind_lunit
    by (rule exI) (rule refl)
qed

theorem print_udp_packet_dumps_witness:
  "\<exists>fields. print_udp_packet (replicate 14 NUL @ (CHR 0x45 # replicate 19 NUL) @ replicate 8 NUL @ ''hi'') 44 =
     Some (fields @ ''IP Header'' @ newline @ dump (take 20 (replicate 14 NUL @ CHR 0x45 # replicate 19 NUL)) @
       ''UDP Header'' @ newline @ dump (take 8 (drop 20 (replicate 14 NUL @ (CHR 0x45 # replicate 19 NUL) @ replicate 8 NUL))) @
       ''Data Payload'' @ newline @ dump ''hi'' @ newline @ closing_line)"
proof -
  let ?ip = "CHR 0x45 # replicate 19 NUL"
  have l: "length ?ip = 20" by simp
  have "length (replicate 14 NUL @ ?ip @ replicate 8 NUL @ ''hi'') = 44" by simp
  then have s: "int (length (replicate 14 NUL @ ?ip @ replicate 8 NUL @ ''hi'')) = 44" by simp
  show ?thesis
    using print_udp_packet_dumps [OF refl, of "replicate 14 NUL" ?ip "replicate 8 NUL" "''hi''", unfolded s l]
    by simp
qed

end
