(* ===== verification/Sockets.thy ===== *)
theory Sockets
  imports Routing_Table
begin

text \<open>
  The descriptors of a router: \<open>rawSocket\<close>, the loop of \<open>process_thread\<close> that opens one socket for each
  interface, \<open>finish_thread\<close>, and the other functions of \<open>utils.c\<close> around sockets and interfaces.

  What the kernel answers is an argument; \<open>fds\<close> is the list of the descriptors the process has open.
  A function that may end its thread returns \<open>None\<close> inside, next to the descriptors left open.
\<close>

definition open_pipe :: "int \<Rightarrow> int \<times> int \<Rightarrow> (int \<times> int) outcome" where
  "open_pipe result fd = (if result < 0 then Exits 1 else Returns fd)"

definition flush_buffer :: "string \<Rightarrow> nat \<Rightarrow> string option" where
  "flush_buffer buf Size = (if Size \<le> length buf then Some (replicate Size NUL @ drop Size buf) else None)"

subsection \<open>Raw sockets\<close>

text \<open>
  The name of the interface is used as a format, so a percent sign in it is undefined behaviour. The
  answers are the results of \<open>socket\<close> and \<open>bind\<close>.
\<close>

definition rawSocket :: "int \<times> int \<Rightarrow> string \<Rightarrow> int list \<Rightarrow> (int option \<times> int list) outcome" where
  "rawSocket answers bind_intf fds =
     (let (sock, bound) = answers
      in if CHR ''%'' \<in> set bind_intf then Faults
         else if sock < 0 then Returns (None, fds)
         else if bound < 0 then Returns (None, fds)
         else Returns (Some sock, fds @ [sock]))"

text \<open>The loop over the interfaces; \<open>None\<close> when a call has ended the thread.\<close>

fun open_socks :: "(int \<times> int) list \<Rightarrow> string list \<Rightarrow> int list \<Rightarrow> (int list option \<times> int list) outcome" where
  "open_socks answers [] fds = Returns (Some [], fds)"
| "open_socks [] (_ # _) fds = Faults"
| "open_socks (a # answers) (name # names) fds =
     (case rawSocket a name fds of
        Returns (None, fds) \<Rightarrow> Returns (None, fds)
      | Returns (Some sock, fds) \<Rightarrow>
          (case open_socks answers names fds of
             Returns (socks, fds) \<Rightarrow> Returns (map_option (Cons sock) socks, fds)
           | Exits code \<Rightarrow> Exits code
           | Blocks \<Rightarrow> Blocks
           | Faults \<Rightarrow> Faults)
      | Exits code \<Rightarrow> Exits code
      | Blocks \<Rightarrow> Blocks
      | Faults \<Rightarrow> Faults)"

text \<open>
  The start of \<open>process_thread\<close>: the thread ends at once when there is no memory for \<open>poll_set\<close>,
  otherwise it opens its sockets.
\<close>

definition thread_start ::
  "bool \<Rightarrow> (int \<times> int) list \<Rightarrow> string list \<Rightarrow> int list \<Rightarrow> (int list option \<times> int list) outcome" where
  "thread_start poll_set answers names fds =
     (if \<not> poll_set then Returns (None, fds) else open_socks answers names fds)"

text \<open>\<open>finish_thread\<close> closes the first \<open>n\<close> sockets of the array.\<close>

definition finish_thread :: "int list \<Rightarrow> nat \<Rightarrow> int list \<Rightarrow> int list option" where
  "finish_thread socks n fds = (if n \<le> length socks then Some (fold remove1 (take n socks) fds) else None)"

subsection \<open>Interfaces\<close>

text \<open>\<open>setPromisc\<close> (never called): a name of 16 bytes or more overflows the request.\<close>

definition setPromisc :: "string \<Rightarrow> int \<Rightarrow> int option outcome" where
  "setPromisc enterface result =
     (if length enterface < IFNAMSIZ then (if result = -1 then Returns None else Returns (Some SUCCESS)) else Faults)"

text \<open>
  \<open>tun_alloc\<close> of \<open>utils.c\<close> (never called): the length given to \<open>strncpy\<close> is that of the source, so a name of
  16 bytes or more is not cut off. The result is the descriptor or error, and the name.
\<close>

definition tun_alloc :: "string \<Rightarrow> int \<Rightarrow> (string \<Rightarrow> int \<times> string) \<Rightarrow> (int \<times> string) option" where
  "tun_alloc dev fd tunsetiff =
     (if fd < 0 then Some (fd, dev)
      else if length dev < IFNAMSIZ
      then (let (err, name) = tunsetiff dev
            in if err < 0 then Some (err, dev)
               else if length name < IFNAMSIZ then Some (fd, name) else None)
      else None)"

text \<open>
  \<open>send_packet\<close>: the request names the interface by the first 15 bytes of its name; the index is 0 when
  the kernel does not know it, and the address keeps what was on the stack when the hardware address is
  not found (\<open>None\<close>). Whatever \<open>sendto\<close> answers, the value is SUCCESS. The datagram is the call of \<open>sendto\<close>.
\<close>

record datagram =
  on_socket :: int
  to_index :: int
  to_hwaddr :: "string option"
  bytes :: string

definition send_packet ::
  "string \<Rightarrow> nat \<Rightarrow> int \<Rightarrow> string \<Rightarrow> (string \<Rightarrow> int option) \<Rightarrow> (string \<Rightarrow> string option) \<Rightarrow> (int \<times> datagram) option" where
  "send_packet pkt Size sock name ifindex hwaddr =
     (if Size \<le> length pkt
      then Some (SUCCESS, \<lparr>on_socket = sock,
             to_index = (case ifindex (take (IFNAMSIZ - 1) name) of None \<Rightarrow> 0 | Some i \<Rightarrow> i),
             to_hwaddr = map_option (take 6) (hwaddr (take (IFNAMSIZ - 1) name)),
             bytes = take Size pkt\<rparr>)
      else None)"

text \<open>\<open>print_routing_list\<close>: a line for each entry of the list.\<close>

partial_function (option) print_routes :: "routing_entry mem \<Rightarrow> ptr \<Rightarrow> string list \<Rightarrow> string list option" where
  "print_routes m head out =
     (case head of
        None \<Rightarrow> Some out
      | Some a \<Rightarrow> do {
          n \<leftarrow> nodes m a;
          entry \<leftarrow> deref (objs m) (item n);
          print_routes m (nxt n)
            (out @ [''-> IP:'' @ ip_address entry @ '', IFACE:'' @ output_if entry @ [CHR 0x0A]])
        })"

definition print_routing_list :: "routing_entry llist \<Rightarrow> routing_entry mem \<Rightarrow> string list option" where
  "print_routing_list l m =
     map_option (\<lambda>lines. (''Active routing table:'' @ [CHR 0x0A]) # lines @ [[CHR 0x0A]]) (print_routes m (l_head l) [])"

definition route_text :: "string \<times> string \<Rightarrow> string" where
  "route_text r = ''-> IP:'' @ fst r @ '', IFACE:'' @ snd r @ [CHR 0x0A]"

lemma print_routes_seg:
  "dseg (nodes m) p pv as None lst \<Longrightarrow> \<forall>x \<in> set (items (nodes m) as). x \<noteq> None \<and> objs m (the x) \<noteq> None \<Longrightarrow>
   print_routes m p out = Some (out @ map route_text (map (route_at (objs m)) (items (nodes m) as)))"
proof (induction as arbitrary: p pv out)
  case Nil
  then show ?case by (simp add: print_routes.simps)
next
  case (Cons a as)
  then obtain n t e where n: "p = Some a" "nodes m a = Some n" "dseg (nodes m) (nxt n) (Some a) as None lst"
    and t: "item n = Some t" "objs m t = Some e" by auto
  have "\<forall>x \<in> set (items (nodes m) as). x \<noteq> None \<and> objs m (the x) \<noteq> None" using Cons.prems(2) by simp
  note IH = Cons.IH [OF n(3) this]
  show ?case using n t
    by (simp add: print_routes.simps [of m "Some a"] cell_simps IH route_at_def route_text_def Let_def)
qed

lemma print_routing_list_ok:
  assumes "routes_ok l m"
  shows "print_routing_list l m =
     Some ((''Active routing table:'' @ [CHR 0x0A]) # map route_text (route_table l m) @ [[CHR 0x0A]])"
proof -
  have "list_ok (nodes m) l (llist_cells l m)" using assms by (simp add: routes_ok_def llist_invD)
  then have "dseg (nodes m) (l_head l) None (llist_cells l m) None (l_tail l)" by (simp add: list_ok_def)
  from print_routes_seg [OF this, of "[]"] assms
  have "print_routes m (l_head l) [] = Some (map route_text (route_table l m))"
    by (simp add: routes_ok_def llist_items_def route_table_def)
  then show ?thesis by (simp add: print_routing_list_def)
qed

subsection \<open>Opening and closing\<close>

definition opened :: "int \<times> int \<Rightarrow> bool" where
  "opened a \<longleftrightarrow> 0 \<le> fst a \<and> 0 \<le> snd a"

lemma rawSocket_ok:
  "CHR ''%'' \<notin> set name \<Longrightarrow>
   rawSocket a name fds = Returns (if opened a then (Some (fst a), fds @ [fst a]) else (None, fds))"
  by (cases a) (auto simp: rawSocket_def opened_def)

lemma open_socks_ok:
  "length answers = length names \<Longrightarrow> \<forall>name \<in> set names. CHR ''%'' \<notin> set name \<Longrightarrow>
   open_socks answers names fds =
     Returns (if \<forall>a \<in> set answers. opened a then Some (map fst answers) else None,
       fds @ map fst (takeWhile opened answers))"
proof (induction answers names arbitrary: fds rule: list_induct2)
  case (Cons a answers name names)
  then show ?case by (simp add: rawSocket_ok)
qed simp

lemma thread_start_ok:
  assumes "length answers = length names" and "\<forall>name \<in> set names. CHR ''%'' \<notin> set name"
  shows "\<exists>fds'. thread_start poll_set answers names fds =
     Returns (if poll_set \<and> (\<forall>a \<in> set answers. opened a) then Some (map fst answers) else None, fds')"
  using open_socks_ok [OF assms] by (simp add: thread_start_def)

lemma close_all: "set socks \<inter> set fds = {} \<Longrightarrow> fold remove1 socks (fds @ socks) = fds"
  by (induction socks arbitrary: fds) (auto simp: remove1_append)

lemma show_nat_no_percent: "CHR ''%'' \<notin> set (show_nat n)"
  using show_nat_digits [of n] by (auto simp: is_digit_def)

lemma intf_name_no_percent: "CHR ''%'' \<notin> set switch_name \<Longrightarrow> CHR ''%'' \<notin> set (intf_name switch_name i)"
  using show_nat_no_percent by (simp add: intf_name_def show_int_def)

lemma router_names_no_percent:
  assumes "router_config opts extra = Returns (c, names)" and "CHR ''%'' \<notin> set (cfg_switch_name c)"
  shows "\<forall>name \<in> set names. CHR ''%'' \<notin> set name"
  using router_config_ok [OF assms(1)] intf_name_no_percent [OF assms(2)] by auto

subsection \<open>Properties\<close>

text \<open>
  C35: A router whose name has no percent sign opens a socket for each of its interfaces or ends its
  thread. In the first case \<open>finish_thread\<close> closes exactly these sockets; in the second the sockets
  opened before the failure stay open.
\<close>

theorem router_sockets:
  assumes "router_config opts extra = Returns (c, names)" and "CHR ''%'' \<notin> set (cfg_switch_name c)"
    and "length answers = length names" and "fst ` set answers \<inter> set fds = {}"
  shows "(if \<forall>a \<in> set answers. 0 \<le> fst a \<and> 0 \<le> snd a
      then \<exists>socks fds'. open_socks answers names fds = Returns (Some socks, fds') \<and> length socks = length names \<and>
        fds' = fds @ socks \<and> finish_thread socks (length names) fds' = Some fds
      else open_socks answers names fds = Returns (None, fds @ map fst (takeWhile opened answers)))"
proof -
  note o = open_socks_ok [OF assms(3) router_names_no_percent [OF assms(1,2)], of fds]
  have all: "(\<forall>a \<in> set answers. 0 \<le> fst a \<and> 0 \<le> snd a) \<longleftrightarrow> (\<forall>a \<in> set answers. opened a)"
    by (simp add: opened_def)
  have "set (map fst answers) \<inter> set fds = {}" using assms(4) by simp
  from close_all [OF this] have "finish_thread (map fst answers) (length names) (fds @ map fst answers) = Some fds"
    using assms(3) by (simp add: finish_thread_def)
  with o assms(3) show ?thesis unfolding all by (auto simp: takeWhile_eq_all_conv [THEN iffD2])
qed

theorem router_sockets_witness:
  "open_socks [(3, 0), (4, 0), (5, 0)] [''s1-eth1'', ''s1-eth2'', ''s1-eth3''] [0] = Returns (Some [3, 4, 5], [0, 3, 4, 5]) \<and>
   open_socks [(3, 0), (4, -1), (5, 0)] [''s1-eth1'', ''s1-eth2'', ''s1-eth3''] [0] = Returns (None, [0, 3])"
  using router_sockets [OF demo_config, of "[(3, 0), (4, 0), (5, 0)]" "[0]"]
    router_sockets [OF demo_config, of "[(3, 0), (4, -1), (5, 0)]" "[0]"]
  by (simp add: opened_def rawSocket_def)

text \<open>
  C36: A router whose name has at most eight characters sends each packet to the interface of its
  route: the name is not cut off in the request for the index, so the index is the interface's own.
  With a name of eleven characters or more the requests for all its interfaces are the same.
\<close>

theorem send_packet_interface:
  assumes "router_config opts extra = Returns (c, names)" and "i < length names" and "j < length names"
    and "Size \<le> length pkt"
  shows "\<exists>d. send_packet pkt Size sock (names ! i) ifindex hwaddr = Some (SUCCESS, d) \<and> bytes d = take Size pkt \<and>
     (length (cfg_switch_name c) \<le> 8 \<longrightarrow> to_index d = (case ifindex (names ! i) of None \<Rightarrow> 0 | Some k \<Rightarrow> k)) \<and>
     (11 \<le> length (cfg_switch_name c) \<longrightarrow>
        send_packet pkt Size sock (names ! j) ifindex hwaddr = Some (SUCCESS, d))"
proof -
  from router_config_ok [OF assms(1)] obtain start where
    n: "names = map (\<lambda>i. intf_name (cfg_switch_name c) (start + i)) [0..<nat (cfg_n_intfs c)]"
    and b: "start \<le> 1" "cfg_n_intfs c \<le> N_MAX_TAPS" by blast
  have nth: "names ! k = cfg_switch_name c @ ''-eth'' @ show_nat (start + k)" if "k < length names" for k
    using that unfolding n by (simp add: intf_name_def show_int_def flip: of_nat_add)
  have "start + i < 10 ^ Suc 2" using assms(2) b unfolding n by simp
  from show_nat_length [OF this] have "length (show_nat (start + i)) \<le> 3" by simp
  then have short: "take 15 (names ! i) = names ! i" if "length (cfg_switch_name c) \<le> 8"
    using that nth [OF assms(2)] by simp
  have "take 15 (names ! k) = take 15 (cfg_switch_name c @ ''-eth'')" if "11 \<le> length (cfg_switch_name c)" "k < length names" for k
    using that nth [OF that(2)] by (simp add: take_Cons')
  then have long: "take 15 (names ! j) = take 15 (names ! i)" if "11 \<le> length (cfg_switch_name c)"
    using that assms(2,3) by metis
  show ?thesis using assms(4) short long by (simp add: send_packet_def)
qed

theorem send_packet_interface_witness:
  "\<exists>d. send_packet ''packet'' 4 7 ''s1-eth2'' (\<lambda>n. if n = ''s1-eth2'' then Some 5 else None) (\<lambda>n. None) = Some (1, d) \<and>
     bytes d = ''pack'' \<and> to_index d = 5"
  using send_packet_interface [OF demo_config, of 1 0 4 "''packet''" 7 "\<lambda>n. if n = ''s1-eth2'' then Some 5 else None" "\<lambda>n. None"]
  by auto

end
