(* ===== verification/Endpoint.thy ===== *)
theory Endpoint
  imports Round_Protocol
begin

text \<open>
  What the client and the server of the experiments (\<open>test/client_n_vt.c\<close>, \<open>test/server_n_vt.c\<close>)
  have in common: a UDP socket, a buffer, and the ways a worker thread spends, reports and gives up
  its round. The two files repeat the functions of the router (\<open>pipe_send\<close>, \<open>pipe_read\<close>,
  \<open>update_stub\<close>, the scanner of commands, the loop of \<open>main\<close>) word for word, so the models in
  \<open>VT_Stub\<close>, \<open>TK_Command\<close> and \<open>Round_Protocol\<close> are used for them.

  The actions are functions of the state of the thread, whose points \<open>'pc\<close> each program chooses;
  the lemmas say which step of the contract \<open>worker_step\<close> an action takes.
\<close>

subsection \<open>State\<close>

definition BUF_SIZE :: nat where
  "BUF_SIZE = 20000"

text \<open>An address and a port; a datagram with the address it goes to, or comes from.\<close>

type_synonym sock_addr = "32 word \<times> 16 word"
type_synonym udp_datagram = "sock_addr \<times> string"

text \<open>
  \<open>ep_time\<close> is \<open>exp_curr_round_time_us\<close>, \<open>ep_bytes\<close> is \<open>nBytes\<close>. The last two fields record what
  \<open>recvfrom\<close> delivered (\<open>None\<close> for an error) and what \<open>sendto\<close> was given.
\<close>

record 'pc endpoint =
  ep_pc :: 'pc
  ep_time :: int
  ep_open :: bool
  ep_buf :: string
  ep_bytes :: int
  ep_got :: "udp_datagram option list"
  ep_sent :: "udp_datagram list"

text \<open>
  The answers of the system: whether \<open>socket\<close> works, the value of a stub call that runs off its
  end, the number of bytes a message's \<open>write\<close> took, and what \<open>recvfrom\<close> delivers.
\<close>

record host_env =
  h_socket :: bool
  h_fall :: int
  h_written :: int
  h_recv :: "udp_datagram option"

definition host_good :: "host_env \<Rightarrow> bool" where
  "host_good e \<longleftrightarrow> 0 \<le> h_fall e"

subsection \<open>Options\<close>

definition DST_IP_SIZE :: nat where
  "DST_IP_SIZE = 100"

text \<open>
  The loop over the results of \<open>getopt\<close> with the string \<open>n:d:h:\<close>, the same in both programs: the
  result is \<open>dst_IP\<close>, into which \<open>strcpy\<close> copies the argument of \<open>-d\<close>. The number of packets given
  with \<open>-n\<close> is stored and never used; \<open>usage\<close> exits.
\<close>

fun traffic_options :: "(char \<times> string) list \<Rightarrow> string \<Rightarrow> string outcome" where
  "traffic_options [] dst_IP = Returns dst_IP"
| "traffic_options ((opt, optarg) # opts) dst_IP =
     (if opt = CHR ''h'' then Exits 1
      else if opt = CHR ''n'' then traffic_options opts dst_IP
      else if opt = CHR ''d''
      then (if length optarg < DST_IP_SIZE then traffic_options opts optarg else Faults)
      else Exits 1)"

text \<open>Accepted options name an address that fits, the one given last, or none at all.\<close>

lemma traffic_options_ok:
  assumes "traffic_options opts dst_IP = Returns d" and "length dst_IP < DST_IP_SIZE"
  shows "length d < DST_IP_SIZE" and "fst ` set opts \<subseteq> {CHR ''n'', CHR ''d''}"
    and "d = last (dst_IP # map snd (filter (\<lambda>x. fst x = CHR ''d'') opts))"
  using assms by (induction opts dst_IP rule: traffic_options.induct) (auto split: if_splits)

subsection \<open>Actions\<close>

text \<open>\<open>finish_thread\<close>: closes the socket and ends the thread.\<close>

definition ep_finish :: "'pc \<Rightarrow> ('pc, 'z) endpoint_scheme \<Rightarrow> ('pc, 'z) endpoint_scheme" where
  "ep_finish exited w = w\<lparr>ep_pc := exited, ep_open := False\<rparr>"

text \<open>A call of \<open>update_stub\<close> up to its \<open>pipe_read\<close>, or to its return.\<close>

definition ep_stub ::
  "func_times \<Rightarrow> host_env \<Rightarrow> string \<Rightarrow> (int \<Rightarrow> 'pc) \<Rightarrow> 'pc \<Rightarrow> shared \<Rightarrow> ('pc, 'z) endpoint_scheme \<Rightarrow>
   (shared \<times> ('pc, 'z) endpoint_scheme) option" where
  "ep_stub tbl e name ret wait s w =
     (case update_stub_begin tbl (h_fall e) (h_written e) (ep_time w) (t2m s) (Some name) of
        Returns (Stub_Done r left) \<Rightarrow> Some (s, w\<lparr>ep_pc := ret r, ep_time := left\<rparr>)
      | Returns (Stub_Waits left fd) \<Rightarrow> Some (s\<lparr>t2m := fd\<rparr>, w\<lparr>ep_pc := wait, ep_time := left\<rparr>)
      | _ \<Rightarrow> None)"

text \<open>
  A \<open>pipe_read\<close> of the next round with the test that follows it: the thread ends or goes on.
  (A read that fails ends the process, as a failing write of a stub call does; then there is no step.)
\<close>

definition ep_resume ::
  "(int \<Rightarrow> bool) \<Rightarrow> 'pc \<Rightarrow> (('pc, 'z) endpoint_scheme \<Rightarrow> ('pc, 'z) endpoint_scheme) \<Rightarrow>
   shared \<Rightarrow> ('pc, 'z) endpoint_scheme \<Rightarrow> (shared \<times> ('pc, 'z) endpoint_scheme) option" where
  "ep_resume quits exited go s w =
     (case pipe_read False (m2t s) of
        Returns (v, rest) \<Rightarrow>
          Some (s\<lparr>m2t := rest\<rparr>,
                if quits v then ep_finish exited (w\<lparr>ep_time := v\<rparr>) else go (w\<lparr>ep_time := v\<rparr>))
      | _ \<Rightarrow> None)"

text \<open>Telling the main thread that the thread is going to block.\<close>

definition ep_tell ::
  "host_env \<Rightarrow> 'pc \<Rightarrow> shared \<Rightarrow> ('pc, 'z) endpoint_scheme \<Rightarrow> (shared \<times> ('pc, 'z) endpoint_scheme) option" where
  "ep_tell e next s w =
     (case pipe_send (h_written e) (t2m s) THREAD_BLOCKED of
        Returns fd \<Rightarrow> Some (s\<lparr>t2m := fd\<rparr>, w\<lparr>ep_pc := next\<rparr>)
      | _ \<Rightarrow> None)"

text \<open>\<open>recvfrom(sock, buffer, BUF_SIZE, ...)\<close>: a longer datagram is cut, the rest of the buffer stays.\<close>

definition ep_receive :: "udp_datagram option \<Rightarrow> ('pc, 'z) endpoint_scheme \<Rightarrow> ('pc, 'z) endpoint_scheme" where
  "ep_receive r w =
     (case r of
        None \<Rightarrow> w\<lparr>ep_bytes := -1, ep_got := ep_got w @ [None]\<rparr>
      | Some (a, bytes) \<Rightarrow>
          (let b = take BUF_SIZE bytes
           in w\<lparr>ep_buf := b @ drop (length b) (ep_buf w), ep_bytes := int (length b),
                ep_got := ep_got w @ [Some (a, b)]\<rparr>))"

text \<open>\<open>sendto\<close> of the first \<open>n\<close> bytes of the buffer; its result is not looked at.\<close>

definition ep_sendto :: "sock_addr \<Rightarrow> nat \<Rightarrow> ('pc, 'z) endpoint_scheme \<Rightarrow> ('pc, 'z) endpoint_scheme" where
  "ep_sendto a n w = w\<lparr>ep_sent := ep_sent w @ [(a, take n (ep_buf w))]\<rparr>"

text \<open>The buffer with a text at its start: \<open>flush_buffer\<close>, then \<open>sprintf\<close>.\<close>

definition buf_with :: "string \<Rightarrow> string" where
  "buf_with txt = txt @ replicate (BUF_SIZE - length txt) NUL"

subsection \<open>What the actions do\<close>

lemma ep_stub_cases:
  assumes "ep_stub tbl e name ret wait s w = Some (s', w')" and "func_time tbl name = Some c"
  obtains (free) "c = None" "s' = s" "w' = w\<lparr>ep_pc := ret SUCCESS\<rparr>"
  | (left) u where "c = Some u" "u < ep_time w" "s' = s" "w' = w\<lparr>ep_pc := ret (h_fall e), ep_time := ep_time w - u\<rparr>"
  | (over) u where "c = Some u" "ep_time w \<le> u" "s' = s\<lparr>t2m := sent (t2m s) (u - ep_time w)\<rparr>"
      "w' = w\<lparr>ep_pc := wait, ep_time := ep_time w - u\<rparr>"
  using assms by (cases c) (auto simp: ep_stub_def update_stub_begin_def pipe_send_def Let_def split: if_splits)

lemma ep_stub_moves:
  assumes "func_time tbl name = Some c"
  shows "\<exists>n s' w'. ep_stub tbl (e\<lparr>h_written := n\<rparr>) name ret wait s w = Some (s', w') \<and>
    ep_pc w' \<in> {wait, ret SUCCESS, ret (h_fall e)}"
proof (cases c)
  case None
  with assms show ?thesis by (simp add: ep_stub_def update_stub_begin_def)
next
  case (Some u)
  with assms show ?thesis
    by (intro exI [of _ "int (length (show_int (u - ep_time w)))"])
      (simp add: ep_stub_def update_stub_begin_def pipe_send_def Let_def)
qed

lemma ep_resume_cases:
  assumes "ep_resume quits exited go s w = Some (s', w')"
  obtains (quit) v rest where "pipe_read False (m2t s) = Returns (v, rest)" "s' = s\<lparr>m2t := rest\<rparr>" "quits v"
      "w' = ep_finish exited (w\<lparr>ep_time := v\<rparr>)"
  | (go) v rest where "pipe_read False (m2t s) = Returns (v, rest)" "s' = s\<lparr>m2t := rest\<rparr>" "\<not> quits v"
      "w' = go (w\<lparr>ep_time := v\<rparr>)"
  using assms by (auto simp: ep_resume_def split: outcome.splits if_splits)

lemma ep_resume_simulates:
  assumes "ep_resume quits exited (\<lambda>w. w\<lparr>ep_pc := next\<rparr>) s w = Some (s', w')"
    and "\<And>v. quits v \<Longrightarrow> v \<le> 0 \<or> stop s" and "\<And>v. \<not> quits v \<Longrightarrow> 0 \<le> v"
  shows "\<exists>v. w' = ep_finish exited (w\<lparr>ep_time := v\<rparr>) \<and> worker_step s W_Await Silent s' W_Exited \<or>
     0 \<le> v \<and> w' = w\<lparr>ep_time := v, ep_pc := next\<rparr> \<and> worker_step s W_Await Silent s' (W_Run v)"
  using assms(1)
proof (cases rule: ep_resume_cases)
  case (quit v rest)
  with assms(2) [of v] w_quit [of s v rest] show ?thesis by auto
next
  case (go v rest)
  with assms(3) [of v] w_go [of s v rest] show ?thesis by auto
qed

lemma ep_tell_cases:
  assumes "ep_tell e next s w = Some (s', w')"
  obtains "s' = s\<lparr>t2m := sent (t2m s) THREAD_BLOCKED\<rparr>" "w' = w\<lparr>ep_pc := next\<rparr>"
  using assms by (auto simp: ep_tell_def pipe_send_def Let_def split: if_splits)

lemma ep_tell_moves: "ep_tell (e\<lparr>h_written := int (length (show_int THREAD_BLOCKED))\<rparr>) next s w =
    Some (s\<lparr>t2m := sent (t2m s) THREAD_BLOCKED\<rparr>, w\<lparr>ep_pc := next\<rparr>)"
  by (simp add: ep_tell_def pipe_send_def)

lemma ep_finish_fields [simp]:
  "ep_pc (ep_finish p w) = p" "ep_got (ep_finish p w) = ep_got w" "ep_sent (ep_finish p w) = ep_sent w"
  "ep_buf (ep_finish p w) = ep_buf w" "ep_time (ep_finish p w) = ep_time w" "endpoint.more (ep_finish p w) = endpoint.more w"
  by (simp_all add: ep_finish_def)

lemma ep_receive_fields [simp]:
  "ep_pc (ep_receive r w) = ep_pc w" "ep_time (ep_receive r w) = ep_time w" "ep_sent (ep_receive r w) = ep_sent w"
  "ep_got (ep_receive r w) = ep_got w @ [map_option (\<lambda>(a, b). (a, take BUF_SIZE b)) r]"
  "length (ep_buf w) = BUF_SIZE \<Longrightarrow> length (ep_buf (ep_receive r w)) = BUF_SIZE"
  "endpoint.more (ep_receive r w) = endpoint.more w"
  by (auto simp: ep_receive_def Let_def split: option.splits prod.splits)

lemma ep_receive_bytes: "ep_bytes (ep_receive r w) = (case r of None \<Rightarrow> -1 | Some (a, b) \<Rightarrow> int (length (take BUF_SIZE b)))"
  by (auto simp: ep_receive_def Let_def split: option.splits)

lemma ep_sendto_fields [simp]:
  "ep_pc (ep_sendto a n w) = ep_pc w" "ep_time (ep_sendto a n w) = ep_time w" "ep_got (ep_sendto a n w) = ep_got w"
  "ep_buf (ep_sendto a n w) = ep_buf w" "ep_sent (ep_sendto a n w) = ep_sent w @ [(a, take n (ep_buf w))]"
  "ep_bytes (ep_sendto a n w) = ep_bytes w" "endpoint.more (ep_sendto a n w) = endpoint.more w"
  by (simp_all add: ep_sendto_def)

lemma buf_with_text:
  assumes "NUL \<notin> set txt" and "length txt < BUF_SIZE"
  shows "c_str (buf_with txt) = txt" and "take (Suc (length txt)) (buf_with txt) = txt @ [NUL]"
    and "length (buf_with txt) = BUF_SIZE"
proof -
  obtain n where n: "BUF_SIZE - length txt = Suc n" using assms(2) by (metis Suc_diff_Suc)
  then show "c_str (buf_with txt) = txt" "take (Suc (length txt)) (buf_with txt) = txt @ [NUL]"
    using assms(1) by (simp_all add: buf_with_def c_str_terminated)
  show "length (buf_with txt) = BUF_SIZE" using assms(2) by (simp add: buf_with_def)
qed

end
