(* ===== verification/Traffic_Client.thy ===== *)
theory Traffic_Client
  imports Endpoint
begin

text \<open>
  The client of the experiments under virtual time (\<open>test/client_n_vt.c\<close>): after a nap of a second
  it sends numbered requests to a server, each as soon as the reply to the last one is in, and
  charges the work around them to the stub. It is a worker of the round protocol like the thread of
  the router: the interpretations at the end give it the theorems of \<open>Round_Protocol\<close>.

  The statistics the thread prints (floating point averages of the times \<open>gettimeofday\<close> gives) are
  not modelled; they decide nothing.
\<close>

subsection \<open>State\<close>

text \<open>The two places where the thread blocks, and the four calls of the stub.\<close>

datatype pause = Napping | Receiving

datatype client_call = CK_Filled | CK_Requested | CK_Cleared | CK_Counted

fun client_call_name :: "client_call \<Rightarrow> string" where
  "client_call_name CK_Filled = ''flush_buffer''"
| "client_call_name CK_Requested = ''send_to''"
| "client_call_name CK_Cleared = ''flush_buffer''"
| "client_call_name CK_Counted = ''computation''"

datatype client_pc =
    C_Start | C_FirstRead
  | C_Mark pause | C_Tell pause | C_Pause pause | C_Unmark pause | C_Resume pause
  | C_Loop | C_Stub client_call | C_Read client_call | C_Ret int client_call
  | C_Send | C_Clear | C_Got | C_Exited

text \<open>
  \<open>cl_server\<close> is \<open>serverAddr\<close>, which \<open>recvfrom\<close> overwrites with the sender of what it delivers;
  \<open>cl_pkt_no\<close> is the C \<open>int\<close> that wraps around.
\<close>

record client = "client_pc endpoint" +
  cl_server :: sock_addr
  cl_pkt_no :: "32 word"

text \<open>The thread at its start; \<open>dst\<close> is the address of \<open>inet_addr\<close> with the port 12000.\<close>

definition client_init :: "sock_addr \<Rightarrow> client" where
  "client_init dst = \<lparr>ep_pc = C_Start, ep_time = 0, ep_open = False, ep_buf = replicate BUF_SIZE NUL,
     ep_bytes = 0, ep_got = [], ep_sent = [], cl_server = dst, cl_pkt_no = 0\<rparr>"

text \<open>\<open>init_func_times\<close> of the client. There is no entry for the name \<open>send_to\<close> that the thread uses.\<close>

definition client_costs :: "(string \<times> int) list" where
  "client_costs = [(''sendto'', 50), (''flush_buffer'', 50), (''computation'', 50)]"

definition client_func_times :: "alloc list \<Rightarrow> int hashmap_elem mem \<Rightarrow> func_times option" where
  "client_func_times allocs m = put_func_times allocs client_costs (hmap_init 1000, m)"

text \<open>
  \<open>main\<close> up to the start of the thread: the address as text and the cost table. The conversion by
  \<open>inet_addr\<close> follows in the thread.
\<close>

definition client_setup ::
  "(char \<times> string) list \<Rightarrow> alloc list \<Rightarrow> int hashmap_elem mem \<Rightarrow> (string \<times> func_times) outcome" where
  "client_setup opts allocs m =
     (case traffic_options opts [] of
        Returns dst_IP \<Rightarrow>
          (case client_func_times allocs m of Some tbl \<Rightarrow> Returns (dst_IP, tbl) | None \<Rightarrow> Faults)
      | Exits code \<Rightarrow> Exits code
      | Blocks \<Rightarrow> Blocks
      | Faults \<Rightarrow> Faults)"

subsection \<open>Steps\<close>

definition request_text :: "32 word \<Rightarrow> string" where
  "request_text n = ''REQUEST: '' @ show_int (sint n)"

text \<open>Where the thread goes on when the stub call lets it.\<close>

fun client_after :: "client_call \<Rightarrow> client_pc" where
  "client_after CK_Filled = C_Send"
| "client_after CK_Requested = C_Clear"
| "client_after CK_Cleared = C_Mark Receiving"
| "client_after CK_Counted = C_Loop"

definition client_receive :: "udp_datagram option \<Rightarrow> client \<Rightarrow> client" where
  "client_receive r w =
     (case r of
        None \<Rightarrow> ep_receive None w
      | Some (a, bytes) \<Rightarrow> (ep_receive (Some (a, bytes)) w)\<lparr>cl_server := a\<rparr>)"

definition client_step :: "func_times \<Rightarrow> host_env \<Rightarrow> shared \<Rightarrow> client \<Rightarrow> (shared \<times> client) option" where
  "client_step tbl e s w =
     (case ep_pc w of
        C_Start \<Rightarrow> Some (s, w\<lparr>ep_pc := C_FirstRead, ep_time := 0, ep_open := h_socket e\<rparr>)
      | C_FirstRead \<Rightarrow>
          ep_resume (\<lambda>v. fst (update_stub_end None v) < 0) C_Exited (\<lambda>w. w\<lparr>ep_pc := C_Mark Napping\<rparr>) s w
      | C_Mark p \<Rightarrow> Some (s\<lparr>is_blocked := True\<rparr>, w\<lparr>ep_pc := C_Tell p, ep_time := 0\<rparr>)
      | C_Tell p \<Rightarrow> ep_tell e (C_Pause p) s w
      | C_Pause p \<Rightarrow>
          (case p of
             Napping \<Rightarrow> Some (s, w\<lparr>ep_pc := C_Unmark Napping\<rparr>)
           | Receiving \<Rightarrow> Some (s, (client_receive (h_recv e) w)\<lparr>ep_pc := C_Unmark Receiving\<rparr>))
      | C_Unmark p \<Rightarrow> Some (s\<lparr>is_blocked := False\<rparr>, w\<lparr>ep_pc := C_Resume p\<rparr>)
      | C_Resume p \<Rightarrow>
          ep_resume (\<lambda>v. v \<le> 0 \<or> stop s) C_Exited
            (\<lambda>w. w\<lparr>ep_pc := (case p of Napping \<Rightarrow> C_Loop | Receiving \<Rightarrow> C_Got)\<rparr>) s w
      | C_Loop \<Rightarrow>
          Some (s, if stop s then ep_finish C_Exited w
                   else w\<lparr>ep_pc := C_Stub CK_Filled, ep_buf := buf_with (request_text (cl_pkt_no w + 1))\<rparr>)
      | C_Stub k \<Rightarrow> ep_stub tbl e (client_call_name k) (\<lambda>r. C_Ret r k) (C_Read k) s w
      | C_Read k \<Rightarrow>
          ep_resume (\<lambda>v. fst (update_stub_end (Some (client_call_name k)) v) < 0 \<or> stop s) C_Exited
            (\<lambda>w. w\<lparr>ep_pc := client_after k\<rparr>) s w
      | C_Ret r k \<Rightarrow>
          Some (s, if r < 0 \<or> stop s then ep_finish C_Exited w else w\<lparr>ep_pc := client_after k\<rparr>)
      | C_Send \<Rightarrow>
          (let nBytes = length (c_str (ep_buf w)) + 1
           in Some (s, ep_sendto (cl_server w) nBytes (w\<lparr>ep_bytes := int nBytes, ep_pc := C_Stub CK_Requested\<rparr>)))
      | C_Clear \<Rightarrow> Some (s, w\<lparr>ep_buf := replicate BUF_SIZE NUL, ep_pc := C_Stub CK_Cleared\<rparr>)
      | C_Got \<Rightarrow>
          Some (s, if 0 < ep_bytes w then w\<lparr>cl_pkt_no := cl_pkt_no w + 1, ep_pc := C_Stub CK_Counted\<rparr>
                   else w\<lparr>ep_pc := C_Loop\<rparr>)
      | C_Exited \<Rightarrow> None)"

subsection \<open>As a worker of the protocol\<close>

definition client_phase :: "client \<Rightarrow> phase" where
  "client_phase w =
     (case ep_pc w of
        C_Start \<Rightarrow> W_Await | C_FirstRead \<Rightarrow> W_Await | C_Read k \<Rightarrow> W_Await | C_Resume p \<Rightarrow> W_Await
      | C_Tell p \<Rightarrow> W_Parking | C_Pause p \<Rightarrow> W_Parked | C_Unmark p \<Rightarrow> W_Parked
      | C_Exited \<Rightarrow> W_Exited
      | _ \<Rightarrow> W_Run (ep_time w))"

definition client_event :: "func_times \<Rightarrow> client \<Rightarrow> wevent" where
  "client_event tbl w =
     (case ep_pc w of
        C_Stub k \<Rightarrow> (case func_time tbl (client_call_name k) of Some (Some c) \<Rightarrow> Charge c | _ \<Rightarrow> Silent)
      | C_Ret r k \<Rightarrow> if r < 0 then Fault else Silent
      | C_Mark p \<Rightarrow> Forfeit (ep_time w)
      | _ \<Rightarrow> Silent)"

definition client_worker :: "func_times \<Rightarrow> shared \<Rightarrow> client \<Rightarrow> wevent \<Rightarrow> shared \<Rightarrow> client \<Rightarrow> bool" where
  "client_worker tbl s w ev s' w' \<longleftrightarrow> (\<exists>e. client_step tbl e s w = Some (s', w') \<and> ev = client_event tbl w)"

definition client_table_ok :: "func_times \<Rightarrow> bool" where
  "client_table_ok tbl \<longleftrightarrow> (\<forall>name. func_time tbl name = map_option (cost_map client_costs) (func_key name))"

lemma client_table: "allocs_for client_costs allocs m \<Longrightarrow> \<exists>tbl. client_func_times allocs m = Some tbl \<and> client_table_ok tbl"
  unfolding client_func_times_def client_table_ok_def
  by (rule put_func_times_ok)
    (simp_all add: client_costs_def func_key_def c_abs_def str_hash_names str_hash_others)

lemma client_setup_ok:
  assumes "traffic_options opts [] = Returns dst_IP" and "allocs_for client_costs allocs m"
  shows "\<exists>tbl. client_setup opts allocs m = Returns (dst_IP, tbl) \<and> client_table_ok tbl"
  using assms(1) client_table [OF assms(2)] by (auto simp: client_setup_def)

lemma client_call_time:
  "client_table_ok tbl \<Longrightarrow> func_time tbl (client_call_name k) = Some (if k = CK_Requested then None else Some 50)"
  by (cases k) (simp_all add: client_table_ok_def client_costs_def cost_map_def func_key_def c_abs_def
      str_hash_names str_hash_others)

definition client_runs :: "client_pc \<Rightarrow> bool" where
  "client_runs pc \<longleftrightarrow>
     (case pc of
        C_Mark p \<Rightarrow> True | C_Loop \<Rightarrow> True | C_Stub k \<Rightarrow> True | C_Ret r k \<Rightarrow> True | C_Send \<Rightarrow> True
      | C_Clear \<Rightarrow> True | C_Got \<Rightarrow> True | _ \<Rightarrow> False)"

definition client_ok :: "client \<Rightarrow> bool" where
  "client_ok w \<longleftrightarrow> (client_runs (ep_pc w) \<longrightarrow> 0 \<le> ep_time w)"

lemma client_phase_runs: "client_runs (ep_pc w) \<Longrightarrow> client_phase w = W_Run (ep_time w)"
  by (auto simp: client_runs_def client_phase_def split: client_pc.splits)

lemma client_after_runs [simp]: "client_runs (client_after k)"
  by (cases k) (simp_all add: client_runs_def)

lemma client_receive_fields [simp]:
  "ep_pc (client_receive r w) = ep_pc w" "ep_time (client_receive r w) = ep_time w"
  "ep_sent (client_receive r w) = ep_sent w" "cl_pkt_no (client_receive r w) = cl_pkt_no w"
  "ep_got (client_receive r w) = ep_got w @ [map_option (\<lambda>(a, b). (a, take BUF_SIZE b)) r]"
  "cl_server (client_receive r w) = (case r of None \<Rightarrow> cl_server w | Some (a, b) \<Rightarrow> a)"
  "ep_bytes (client_receive r w) = (case r of None \<Rightarrow> -1 | Some (a, b) \<Rightarrow> int (length (take BUF_SIZE b)))"
  by (auto simp: client_receive_def ep_receive_def Let_def split: option.split)

lemmas client_defs = client_step_def client_phase_def client_event_def client_ok_def client_runs_def

lemma client_resume_simulates:
  assumes st: "ep_resume quits C_Exited (\<lambda>w. w\<lparr>ep_pc := next\<rparr>) s w = Some (s', w')" and ph: "client_phase w = W_Await"
    and q: "\<And>v. quits v \<Longrightarrow> v \<le> 0 \<or> stop s" "\<And>v. \<not> quits v \<Longrightarrow> 0 \<le> v" and n: "client_runs next"
  shows "client_ok w' \<and> worker_step s (client_phase w) Silent s' (client_phase w')"
proof -
  have "client_phase (ep_finish C_Exited v) = W_Exited" "client_ok (ep_finish C_Exited v)" for v
    by (simp_all add: client_defs)
  with ep_resume_simulates [OF st q] n show ?thesis unfolding ph by (auto simp: client_phase_runs client_ok_def)
qed

lemma client_simulates:
  assumes tbl: "client_table_ok tbl" and ok: "client_ok w" and st: "client_step tbl e s w = Some (s', w')"
  shows "client_ok w' \<and> worker_step s (client_phase w) (client_event tbl w) s' (client_phase w')"
proof (cases "ep_pc w")
  case (C_Stub k)
  then have ph: "client_phase w = W_Run (ep_time w)" and t: "0 \<le> ep_time w"
    and ev: "client_event tbl w = (if k = CK_Requested then Silent else Charge 50)"
    using ok client_call_time [OF tbl] by (simp_all add: client_defs)
  from st C_Stub have "ep_stub tbl e (client_call_name k) (\<lambda>r. C_Ret r k) (C_Read k) s w = Some (s', w')"
    by (simp add: client_step_def)
  then show ?thesis unfolding ph ev using client_call_time [OF tbl, of k]
    by (cases rule: ep_stub_cases)
      (use t in \<open>auto simp: client_defs intro: w_internal w_charge w_report split: if_splits\<close>)
next
  case C_FirstRead
  then have pe: "client_phase w = W_Await" "client_event tbl w = Silent" by (simp_all add: client_defs)
  show ?thesis unfolding pe(2)
    by (rule client_resume_simulates [OF _ pe(1), of "\<lambda>v. fst (update_stub_end None v) < 0" "C_Mark Napping"])
      (use st C_FirstRead in \<open>auto simp: client_step_def update_stub_end_def client_runs_def split: if_splits\<close>)
next
  case (C_Read k)
  then have pe: "client_phase w = W_Await" "client_event tbl w = Silent" by (simp_all add: client_defs)
  show ?thesis unfolding pe(2)
    by (rule client_resume_simulates [OF _ pe(1),
          of "\<lambda>v. fst (update_stub_end (Some (client_call_name k)) v) < 0 \<or> stop s" "client_after k"])
      (use st C_Read in \<open>auto simp: client_step_def update_stub_end_def split: if_splits\<close>)
next
  case (C_Resume p)
  then have pe: "client_phase w = W_Await" "client_event tbl w = Silent" by (simp_all add: client_defs)
  show ?thesis unfolding pe(2)
    by (rule client_resume_simulates [OF _ pe(1),
          of "\<lambda>v. v \<le> 0 \<or> stop s" "case p of Napping \<Rightarrow> C_Loop | Receiving \<Rightarrow> C_Got"])
      (use st C_Resume in \<open>auto simp: client_step_def client_runs_def split: pause.splits\<close>)
next
  case (C_Tell p)
  with st show ?thesis by (auto simp: client_defs elim!: ep_tell_cases intro: w_park)
next
  case (C_Ret r k)
  with st ok show ?thesis
    by (cases "r < 0 \<or> stop s"; cases k) (auto simp: client_defs intro: w_internal w_fault w_stop)
next
  case (C_Mark p)
  with st show ?thesis by (auto simp: client_defs intro: w_block)
next
  case (C_Unmark p)
  with st show ?thesis by (auto simp: client_defs intro: w_unpark)
qed (use st ok in \<open>auto simp: client_defs Let_def intro: w_internal w_stop split: if_splits pause.splits\<close>)

interpretation cl: vt_worker "client_worker tbl" client_phase "\<lambda>w. client_table_ok tbl \<and> client_ok w"
  "\<lambda>w. client_table_ok tbl \<and> (\<exists>dst. w = client_init dst)" for tbl
proof unfold_locales
  fix w assume "client_table_ok tbl \<and> (\<exists>dst. w = client_init dst)"
  then show "(client_table_ok tbl \<and> client_ok w) \<and> client_phase w = W_Await"
    by (auto simp: client_defs client_init_def)
next
  fix w s e s' w'
  assume "client_table_ok tbl \<and> client_ok w" "client_worker tbl s w e s' w'"
  then show "(client_table_ok tbl \<and> client_ok w') \<and> worker_step s (client_phase w) e s' (client_phase w')"
    using client_simulates unfolding client_worker_def by blast
qed

subsection \<open>Without failures\<close>

definition client_reliable :: "func_times \<Rightarrow> shared \<Rightarrow> client \<Rightarrow> wevent \<Rightarrow> shared \<Rightarrow> client \<Rightarrow> bool" where
  "client_reliable tbl s w ev s' w' \<longleftrightarrow>
     (\<exists>e. host_good e \<and> client_step tbl e s w = Some (s', w') \<and> ev = client_event tbl w)"

definition client_no_failure :: "client \<Rightarrow> bool" where
  "client_no_failure w \<longleftrightarrow> (\<forall>r k. ep_pc w = C_Ret r k \<longrightarrow> 0 \<le> r)"

lemma client_no_failure_step:
  assumes tbl: "client_table_ok tbl" and e: "host_good e" and st: "client_step tbl e s w = Some (s', w')"
  shows "client_no_failure w'"
proof (cases "ep_pc w")
  case (C_Stub k)
  then have "ep_stub tbl e (client_call_name k) (\<lambda>r. C_Ret r k) (C_Read k) s w = Some (s', w')"
    using st by (simp add: client_step_def)
  then show ?thesis using client_call_time [OF tbl, of k] e
    by (cases rule: ep_stub_cases) (auto simp: client_no_failure_def host_good_def split: if_splits)
next
  case (C_Read k)
  with st show ?thesis
    by (cases k) (auto simp: client_step_def client_no_failure_def elim!: ep_resume_cases)
next
  case (C_Ret r k)
  with st show ?thesis by (cases k) (auto simp: client_step_def client_no_failure_def split: if_splits)
qed (use st in \<open>auto simp: client_step_def client_no_failure_def Let_def elim!: ep_resume_cases ep_tell_cases
    split: if_splits pause.splits\<close>)

lemma client_progress:
  assumes tbl: "client_table_ok tbl" and r: "runnable_phase s (client_phase w)"
  shows "\<exists>e s' w'. host_good e \<and> client_step tbl e s w = Some (s', w') \<and> w' \<noteq> w"
proof -
  define e where "e = \<lparr>h_socket = True, h_fall = 0, h_written = int (length (show_int THREAD_BLOCKED)), h_recv = None\<rparr>"
  have e: "host_good (e\<lparr>h_written := n\<rparr>)" for n by (simp add: e_def host_good_def)
  have "\<exists>n s' w'. client_step tbl (e\<lparr>h_written := n\<rparr>) s w = Some (s', w') \<and> ep_pc w' \<noteq> ep_pc w"
  proof (cases "ep_pc w")
    case (C_Stub k)
    from ep_stub_moves [OF client_call_time [OF tbl, of k], of e "\<lambda>r. C_Ret r k" "C_Read k" s w] C_Stub show ?thesis
      by (fastforce simp: client_step_def)
  next
    case (C_Tell p)
    with ep_tell_moves [of e "C_Pause p" s w] show ?thesis
      by (intro exI [of _ "int (length (show_int THREAD_BLOCKED))"]) (simp add: client_step_def)
  next
    case (C_Ret r k)
    then show ?thesis by (cases k) (auto simp: client_step_def)
  next
    case (C_Read k)
    with r show ?thesis
      by (cases k) (auto simp: client_step_def runnable_phase_def client_phase_def ep_resume_def)
  qed (use r in \<open>auto simp: client_step_def runnable_phase_def client_phase_def ep_resume_def Let_def split: pause.splits\<close>)
  then obtain n s' w' where st: "client_step tbl (e\<lparr>h_written := n\<rparr>) s w = Some (s', w')" "ep_pc w' \<noteq> ep_pc w"
    by blast
  then have "w' \<noteq> w" by auto
  with st(1) e show ?thesis by blast
qed

interpretation cr: vt_worker_reliable "client_reliable tbl" client_phase
  "\<lambda>w. client_table_ok tbl \<and> client_ok w \<and> client_no_failure w"
  "\<lambda>w. client_table_ok tbl \<and> (\<exists>dst. w = client_init dst)" for tbl
proof unfold_locales
  fix w assume w: "client_table_ok tbl \<and> (\<exists>dst. w = client_init dst)"
  with cl.init_law [OF w] show "(client_table_ok tbl \<and> client_ok w \<and> client_no_failure w) \<and> client_phase w = W_Await"
    by (simp add: client_no_failure_def) (auto simp: client_init_def)
next
  fix w s e s' w'
  assume "client_table_ok tbl \<and> client_ok w \<and> client_no_failure w" "client_reliable tbl s w e s' w'"
  then show "(client_table_ok tbl \<and> client_ok w' \<and> client_no_failure w') \<and>
      worker_step s (client_phase w) e s' (client_phase w')"
    using client_simulates client_no_failure_step unfolding client_reliable_def by blast
next
  fix w s e s' w'
  assume "client_table_ok tbl \<and> client_ok w \<and> client_no_failure w" "client_reliable tbl s w e s' w'"
  then show "e \<noteq> Fault"
    by (auto simp: client_reliable_def client_event_def client_no_failure_def split: client_pc.splits option.splits)
next
  fix w s
  assume "client_table_ok tbl \<and> client_ok w \<and> client_no_failure w" "runnable_phase s (client_phase w)"
  with client_progress show "\<exists>e s' w'. client_reliable tbl s w e s' w' \<and> w' \<noteq> w"
    unfolding client_reliable_def by blast
qed

subsection \<open>What the client sends and is charged\<close>

abbreviation (input) client_reachable :: "int set \<Rightarrow> func_times \<Rightarrow> sock_addr \<Rightarrow> client sys \<Rightarrow> bool" where
  "client_reachable advs tbl dst \<equiv> reachable advs (client_worker tbl) (\<lambda>w. client_phase w = W_Exited) (client_init dst)"

text \<open>The server and the number of replies counted, after one more result of \<open>recvfrom\<close>.\<close>

definition count_reply :: "sock_addr \<times> 32 word \<Rightarrow> udp_datagram option \<Rightarrow> sock_addr \<times> 32 word" where
  "count_reply st r =
     (case r of
        None \<Rightarrow> st
      | Some (a, bytes) \<Rightarrow> (a, if bytes = [] then snd st else snd st + 1))"

lemma count_reply_simps [simp]:
  "count_reply st None = st" "fst (count_reply st (Some d)) = fst d"
  "snd (count_reply st (Some d)) = (if snd d = [] then snd st else snd st + 1)"
  by (simp_all add: count_reply_def split: prod.split)

definition request :: "sock_addr \<times> 32 word \<Rightarrow> udp_datagram" where
  "request st = (fst st, request_text (snd st + 1) @ [NUL])"

text \<open>The requests a client sends, given what it receives: one before each result.\<close>

fun requests :: "sock_addr \<times> 32 word \<Rightarrow> udp_datagram option list \<Rightarrow> udp_datagram list" where
  "requests st [] = []"
| "requests st (r # rs) = request st # requests (count_reply st r) rs"

lemma requests_snoc: "requests st (rs @ [r]) = requests st rs @ [request (foldl count_reply st rs)]"
  by (induction rs arbitrary: st) auto

lemma requests_length [simp]: "length (requests st rs) = length rs"
  by (induction rs arbitrary: st) auto

text \<open>A request is out and \<open>recvfrom\<close> has not returned; it has returned and is not counted yet.\<close>

definition asked :: "client_pc \<Rightarrow> bool" where
  "asked pc \<longleftrightarrow>
     (case pc of
        C_Stub k \<Rightarrow> k = CK_Requested \<or> k = CK_Cleared | C_Read k \<Rightarrow> k = CK_Requested \<or> k = CK_Cleared
      | C_Ret r k \<Rightarrow> k = CK_Requested \<or> k = CK_Cleared | C_Clear \<Rightarrow> True
      | C_Mark p \<Rightarrow> p = Receiving | C_Tell p \<Rightarrow> p = Receiving | C_Pause p \<Rightarrow> p = Receiving | _ \<Rightarrow> False)"

definition uncounted :: "client_pc \<Rightarrow> bool" where
  "uncounted pc \<longleftrightarrow>
     (case pc of C_Unmark p \<Rightarrow> p = Receiving | C_Resume p \<Rightarrow> p = Receiving | C_Got \<Rightarrow> True | _ \<Rightarrow> False)"

definition filled :: "client_pc \<Rightarrow> bool" where
  "filled pc \<longleftrightarrow>
     (case pc of C_Stub k \<Rightarrow> k = CK_Filled | C_Read k \<Rightarrow> k = CK_Filled | C_Ret r k \<Rightarrow> k = CK_Filled
      | C_Send \<Rightarrow> True | _ \<Rightarrow> False)"

definition script_ok :: "sock_addr \<Rightarrow> client \<Rightarrow> bool" where
  "script_ok dst w \<longleftrightarrow>
     (let st = foldl count_reply (dst, 0) (ep_got w)
      in (if ep_pc w = C_Exited
          then ep_sent w = requests (dst, 0) (ep_got w) \<or> ep_sent w = requests (dst, 0) (ep_got w) @ [request st]
          else cl_server w = fst st \<and>
            cl_pkt_no w + (if uncounted (ep_pc w) \<and> 0 < ep_bytes w then 1 else 0) = snd st \<and>
            ep_sent w = requests (dst, 0) (ep_got w) @ (if asked (ep_pc w) then [request st] else []) \<and>
            (filled (ep_pc w) \<longrightarrow> ep_buf w = buf_with (request_text (cl_pkt_no w + 1)))))"

lemma request_text_ok: "NUL \<notin> set (request_text n)" "length (request_text n) < BUF_SIZE"
proof -
  have "NUL \<notin> set (show_nat k)" for k using show_nat_digits [of k] NUL_not_digit by blast
  then have "NUL \<notin> set (show_int (sint n))" by (simp add: show_int_def)
  then show "NUL \<notin> set (request_text n)" by (simp add: request_text_def)
  show "length (request_text n) < BUF_SIZE"
    using show_int_length [OF sint_fits_int, of n] by (simp add: request_text_def BUF_SIZE_def)
qed

lemmas script_defs = script_ok_def asked_def uncounted_def filled_def Let_def

lemma script_ok_receive:
  assumes "script_ok dst w" and "ep_pc w = C_Pause Receiving"
  shows "script_ok dst ((client_receive r w)\<lparr>ep_pc := C_Unmark Receiving\<rparr>)"
  using assms by (auto simp: script_defs requests_snoc BUF_SIZE_def split: option.splits)

lemma script_ok_send:
  assumes "script_ok dst w" and "ep_pc w = C_Send"
  shows "script_ok dst (ep_sendto (cl_server w) (Suc (length (c_str (ep_buf w)))) (w\<lparr>ep_bytes := n, ep_pc := C_Stub CK_Requested\<rparr>))"
  using assms request_text_ok [of "cl_pkt_no w + 1"]
  by (auto simp: script_defs request_def buf_with_text ep_sendto_def)

text \<open>A move to a point of the same kind.\<close>

lemma script_ok_move:
  assumes "script_ok dst w" and "ep_pc w \<noteq> C_Exited" and "pc \<noteq> C_Exited"
    and "asked pc = asked (ep_pc w)" and "uncounted pc = uncounted (ep_pc w)" and "filled pc \<longrightarrow> filled (ep_pc w)"
  shows "script_ok dst (w\<lparr>ep_pc := pc\<rparr>)" and "script_ok dst (w\<lparr>ep_pc := pc, ep_time := t\<rparr>)"
  using assms by (simp_all add: script_ok_def Let_def)

lemma script_ok_finish: "script_ok dst w \<Longrightarrow> script_ok dst (ep_finish C_Exited (w\<lparr>ep_time := t\<rparr>))"
  "script_ok dst w \<Longrightarrow> script_ok dst (ep_finish C_Exited w)"
  by (auto simp: script_ok_def Let_def split: if_splits)

lemma script_ok_resume:
  assumes ok: "script_ok dst w" "ep_pc w \<noteq> C_Exited" and st: "ep_resume q C_Exited (\<lambda>w. w\<lparr>ep_pc := pc\<rparr>) s w = Some (s', w')"
    and pc: "pc \<noteq> C_Exited" "asked pc = asked (ep_pc w)" "uncounted pc = uncounted (ep_pc w)" "filled pc \<longrightarrow> filled (ep_pc w)"
  shows "script_ok dst w'"
  using st
proof (cases rule: ep_resume_cases)
  case (quit v rest)
  with script_ok_finish(1) [OF ok(1)] show ?thesis by simp
next
  case (go v rest)
  moreover have "w\<lparr>ep_time := v, ep_pc := pc\<rparr> = w\<lparr>ep_pc := pc, ep_time := v\<rparr>" by simp
  ultimately show ?thesis using script_ok_move(2) [OF ok pc] by metis
qed

lemma after_kinds [simp]:
  "client_after k \<noteq> C_Exited" "asked (client_after k) \<longleftrightarrow> k = CK_Requested \<or> k = CK_Cleared"
  "uncounted (client_after k) = False" "filled (client_after k) \<longleftrightarrow> k = CK_Filled"
  by (cases k; simp add: asked_def uncounted_def filled_def)+

lemma point_kinds [simp]:
  "\<not> asked C_Start" "\<not> asked C_FirstRead" "asked (C_Mark p) \<longleftrightarrow> p = Receiving"
  "asked (C_Tell p) \<longleftrightarrow> p = Receiving" "asked (C_Pause p) \<longleftrightarrow> p = Receiving"
  "\<not> asked (C_Unmark p)" "\<not> asked (C_Resume p)" "\<not> asked C_Loop"
  "asked (C_Stub k) \<longleftrightarrow> k = CK_Requested \<or> k = CK_Cleared"
  "asked (C_Read k) \<longleftrightarrow> k = CK_Requested \<or> k = CK_Cleared"
  "asked (C_Ret r k) \<longleftrightarrow> k = CK_Requested \<or> k = CK_Cleared" "\<not> asked C_Send"
  "asked C_Clear" "\<not> asked C_Got" "\<not> uncounted C_Start" "\<not> uncounted C_FirstRead"
  "\<not> uncounted (C_Mark p)" "\<not> uncounted (C_Tell p)" "\<not> uncounted (C_Pause p)"
  "uncounted (C_Unmark p) \<longleftrightarrow> p = Receiving"
  "uncounted (C_Resume p) \<longleftrightarrow> p = Receiving" "\<not> uncounted C_Loop" "\<not> uncounted (C_Stub k)"
  "\<not> uncounted (C_Read k)" "\<not> uncounted (C_Ret r k)" "\<not> uncounted C_Send" "\<not> uncounted C_Clear"
  "uncounted C_Got" "\<not> filled C_Start" "\<not> filled C_FirstRead" "\<not> filled (C_Mark p)"
  "\<not> filled (C_Tell p)" "\<not> filled (C_Pause p)" "\<not> filled (C_Unmark p)" "\<not> filled (C_Resume p)"
  "\<not> filled C_Loop" "filled (C_Stub k) \<longleftrightarrow> k = CK_Filled"
  "filled (C_Read k) \<longleftrightarrow> k = CK_Filled" "filled (C_Ret r k) \<longleftrightarrow> k = CK_Filled"
  "filled C_Send" "\<not> filled C_Clear" "\<not> filled C_Got"
  by (simp_all add: asked_def uncounted_def filled_def)

lemma script_ok_step:
  assumes tbl: "client_table_ok tbl" and ok: "script_ok dst w" and st: "client_step tbl e s w = Some (s', w')"
  shows "script_ok dst w'"
proof (cases "ep_pc w")
  case (C_Stub k)
  with st have "ep_stub tbl e (client_call_name k) (\<lambda>r. C_Ret r k) (C_Read k) s w = Some (s', w')"
    by (simp add: client_step_def)
  then show ?thesis using client_call_time [OF tbl, of k]
    by (cases rule: ep_stub_cases) (use C_Stub in \<open>simp_all add: script_ok_move [OF ok]\<close>)
next
  case (C_Pause p)
  show ?thesis
  proof (cases p)
    case Napping
    with st C_Pause show ?thesis
      by (auto simp: client_step_def asked_def uncounted_def filled_def intro!: script_ok_move(1) [OF ok])
  next
    case Receiving
    with st C_Pause script_ok_receive [OF ok] show ?thesis by (auto simp: client_step_def)
  qed
next
  case (C_Read k)
  then show ?thesis using st by (intro script_ok_resume [OF ok]) (auto simp: client_step_def)
next
  case (C_Ret r k)
  with st script_ok_move(1) [OF ok, of "client_after k"] script_ok_finish(2) [OF ok] show ?thesis
    by (auto simp: client_step_def split: if_splits)
next
  case (C_Resume p)
  then show ?thesis using st
    by (intro script_ok_resume [OF ok, of _ "case p of Napping \<Rightarrow> C_Loop | Receiving \<Rightarrow> C_Got"])
      (auto simp: client_step_def asked_def uncounted_def filled_def split: pause.splits)
next
  case C_FirstRead
  then show ?thesis using st
    by (intro script_ok_resume [OF ok, of _ "C_Mark Napping"])
      (auto simp: client_step_def asked_def uncounted_def filled_def)
next
  case (C_Mark p)
  with st have "w' = w\<lparr>ep_pc := C_Tell p, ep_time := 0\<rparr>" by (simp add: client_step_def)
  with C_Mark script_ok_move(2) [OF ok] show ?thesis by (simp add: asked_def uncounted_def filled_def)
next
  case (C_Tell p)
  with st script_ok_move(1) [OF ok] show ?thesis
    by (auto simp: client_step_def asked_def uncounted_def filled_def elim!: ep_tell_cases)
next
  case (C_Unmark p)
  with st script_ok_move(1) [OF ok] show ?thesis
    by (auto simp: client_step_def asked_def uncounted_def filled_def)
next
  case C_Send
  with st script_ok_send [OF ok] show ?thesis by (auto simp: client_step_def Let_def)
next
  case C_Loop
  with st ok script_ok_finish(2) [OF ok] show ?thesis
    by (auto simp: client_step_def script_defs split: if_splits)
next
  case C_Start
  with st ok show ?thesis by (auto simp: client_step_def script_ok_def Let_def)
next
  case C_Clear
  with st ok show ?thesis by (auto simp: client_step_def script_ok_def Let_def)
next
  case C_Got
  with st ok show ?thesis
    by (cases "0 < ep_bytes w") (auto simp: client_step_def script_ok_def Let_def)
next
  case C_Exited
  with st show ?thesis by (simp add: client_step_def)
qed

lemma script_ok_reachable:
  assumes tbl: "client_table_ok tbl" and r: "client_reachable advs tbl dst y"
  shows "script_ok dst (wk y)"
proof (rule reachable_worker [OF r, of "script_ok dst"])
  show "script_ok dst (client_init dst)" by (simp add: client_init_def script_ok_def)
next
  fix s w e s' w'
  assume "script_ok dst w" "client_worker tbl s w e s' w'"
  then show "script_ok dst w'" using script_ok_step [OF tbl] unfolding client_worker_def by blast
qed

text \<open>
  The replies that count, and the calls charged in a round of the loop before they show in them:
  two per result of \<open>recvfrom\<close> and one per reply, none for sending.
\<close>

definition replies :: "udp_datagram option list \<Rightarrow> udp_datagram list" where
  "replies rs = concat (map (\<lambda>r. case r of Some (a, b) \<Rightarrow> if b = [] then [] else [(a, b)] | None \<Rightarrow> []) rs)"

lemma replies_snoc: "replies (rs @ [r]) = replies rs @ (case r of Some (a, b) \<Rightarrow> if b = [] then [] else [(a, b)] | None \<Rightarrow> [])"
  by (simp add: replies_def)

fun calls_before :: "client_call \<Rightarrow> int" where
  "calls_before CK_Filled = 0" | "calls_before CK_Requested = 1" | "calls_before CK_Cleared = 1"
| "calls_before CK_Counted = -1"

fun calls_after :: "client_call \<Rightarrow> int" where
  "calls_after CK_Filled = 1" | "calls_after CK_Requested = 1" | "calls_after CK_Cleared = 2"
| "calls_after CK_Counted = 0"

definition calls_due :: "client \<Rightarrow> int" where
  "calls_due w =
     (case ep_pc w of
        C_Stub k \<Rightarrow> calls_before k | C_Read k \<Rightarrow> calls_after k | C_Ret r k \<Rightarrow> calls_after k
      | C_Send \<Rightarrow> 1 | C_Clear \<Rightarrow> 1
      | C_Mark p \<Rightarrow> if p = Receiving then 2 else 0 | C_Tell p \<Rightarrow> if p = Receiving then 2 else 0
      | C_Pause p \<Rightarrow> if p = Receiving then 2 else 0
      | _ \<Rightarrow> if uncounted (ep_pc w) \<and> 0 < ep_bytes w then -1 else 0)"

definition calls_made :: "udp_datagram option list \<Rightarrow> int" where
  "calls_made rs = 2 * int (length rs) + int (length (replies rs))"

lemma calls_due_range: "-1 \<le> calls_due w \<and> calls_due w \<le> 2"
proof -
  have "-1 \<le> calls_before k \<and> calls_before k \<le> 2" "-1 \<le> calls_after k \<and> calls_after k \<le> 2" for k
    by (cases k; simp)+
  then show ?thesis by (simp add: calls_due_def split: client_pc.split)
qed

definition charge_of :: "wevent \<Rightarrow> int" where
  "charge_of ev = (case ev of Charge c \<Rightarrow> c | _ \<Rightarrow> 0)"

lemma charged_count: "charged (count ev (y\<lparr>sh := s, wk := w\<rparr>)) = charged y + charge_of ev"
  by (simp add: count_def charge_of_def split: wevent.split)

lemma calls_receive:
  "calls_made (ep_got w @ [map_option (\<lambda>(a, b). (a, take BUF_SIZE b)) r]) +
     calls_due ((client_receive r w)\<lparr>ep_pc := C_Unmark Receiving\<rparr>) = calls_made (ep_got w) + 2"
  by (auto simp: calls_made_def replies_snoc calls_due_def uncounted_def BUF_SIZE_def split: option.split)

lemma calls_step:
  assumes tbl: "client_table_ok tbl" and st: "client_step tbl e s w = Some (s', w')"
  shows "ep_pc w' = C_Exited \<and> ep_got w' = ep_got w \<and> charge_of (client_event tbl w) = 0 \<or>
     50 * (calls_made (ep_got w') + calls_due w') =
       50 * (calls_made (ep_got w) + calls_due w) + charge_of (client_event tbl w)"
proof (cases "ep_pc w")
  case (C_Stub k)
  then have ev: "charge_of (client_event tbl w) = (if k = CK_Requested then 0 else 50)"
    using client_call_time [OF tbl] by (simp add: client_event_def charge_of_def)
  from st C_Stub have "ep_stub tbl e (client_call_name k) (\<lambda>r. C_Ret r k) (C_Read k) s w = Some (s', w')"
    by (simp add: client_step_def)
  then have "ep_got w' = ep_got w \<and> calls_due w' = calls_after k"
    using client_call_time [OF tbl, of k] by (cases rule: ep_stub_cases) (auto simp: calls_due_def)
  then show ?thesis unfolding ev using C_Stub by (cases k) (simp_all add: calls_due_def)
next
  case (C_Pause p)
  then have ev: "charge_of (client_event tbl w) = 0" by (simp add: client_event_def charge_of_def)
  show ?thesis
  proof (cases p)
    case Napping
    with st C_Pause ev show ?thesis by (auto simp: client_step_def calls_due_def uncounted_def)
  next
    case Receiving
    with st C_Pause have w': "w' = (client_receive (h_recv e) w)\<lparr>ep_pc := C_Unmark Receiving\<rparr>"
      by (simp add: client_step_def)
    have "calls_due w = 2" using C_Pause Receiving by (simp add: calls_due_def)
    with calls_receive [of w "h_recv e"] ev show ?thesis unfolding w' by simp
  qed
next
  case (C_Read k)
  then have ev: "charge_of (client_event tbl w) = 0" by (simp add: client_event_def charge_of_def)
  from st C_Read have "ep_resume (\<lambda>v. fst (update_stub_end (Some (client_call_name k)) v) < 0 \<or> stop s) C_Exited
     (\<lambda>w. w\<lparr>ep_pc := client_after k\<rparr>) s w = Some (s', w')" by (simp add: client_step_def)
  then show ?thesis
    by (cases rule: ep_resume_cases; cases k) (use C_Read ev in \<open>auto simp: calls_due_def uncounted_def\<close>)
next
  case (C_Resume p)
  then have ev: "charge_of (client_event tbl w) = 0" by (simp add: client_event_def charge_of_def)
  from st C_Resume have "ep_resume (\<lambda>v. v \<le> 0 \<or> stop s) C_Exited
     (\<lambda>w. w\<lparr>ep_pc := (case p of Napping \<Rightarrow> C_Loop | Receiving \<Rightarrow> C_Got)\<rparr>) s w = Some (s', w')"
    by (simp add: client_step_def)
  then show ?thesis
    by (cases rule: ep_resume_cases; cases p) (use C_Resume ev in \<open>auto simp: calls_due_def uncounted_def\<close>)
next
  case (C_Ret r k)
  then have "charge_of (client_event tbl w) = 0" by (simp add: client_event_def charge_of_def)
  with st C_Ret show ?thesis by (cases k) (auto simp: client_step_def calls_due_def uncounted_def split: if_splits)
next
  case C_FirstRead
  then have "charge_of (client_event tbl w) = 0" by (simp add: client_event_def charge_of_def)
  with st C_FirstRead show ?thesis
    by (auto simp: client_step_def calls_due_def uncounted_def elim!: ep_resume_cases)
qed (use st in \<open>auto simp: client_step_def calls_due_def uncounted_def client_event_def charge_of_def Let_def
      elim!: ep_tell_cases split: if_splits\<close>)

definition charge_ok :: "client sys \<Rightarrow> bool" where
  "charge_ok y \<longleftrightarrow>
     (let n = calls_made (ep_got (wk y))
      in if ep_pc (wk y) = C_Exited then 50 * (n - 1) \<le> charged y \<and> charged y \<le> 50 * (n + 2)
         else charged y = 50 * (n + calls_due (wk y)))"

lemma charge_ok_reachable:
  assumes tbl: "client_table_ok tbl" and r: "client_reachable advs tbl dst y"
  shows "charge_ok y"
  using r
proof (induction rule: reachable.induct)
  case start
  then show ?case
    by (simp add: sys_init_def client_init_def charge_ok_def calls_made_def calls_due_def replies_def uncounted_def)
next
  case (more y y')
  from more(2) show ?case
  proof (rule sys_stepE)
    fix ev s' w'
    assume y: "y' = count ev (y\<lparr>sh := s', wk := w'\<rparr>)" and "client_worker tbl (sh y) (wk y) ev s' w'"
    then obtain en where st: "client_step tbl en (sh y) (wk y) = Some (s', w')" and ev: "ev = client_event tbl (wk y)"
      unfolding client_worker_def by blast
    then have ne: "ep_pc (wk y) \<noteq> C_Exited" by (auto simp: client_step_def)
    with more.IH have c: "charged y = 50 * (calls_made (ep_got (wk y)) + calls_due (wk y))"
      by (simp add: charge_ok_def Let_def)
    show ?thesis using calls_step [OF tbl st] c calls_due_range [of "wk y"] calls_due_range [of w'] ev
      unfolding y charge_ok_def by (auto simp: charged_count Let_def)
  qed (use more.IH in \<open>simp add: charge_ok_def Let_def split: if_splits\<close>)
qed

subsection \<open>Runs\<close>

text \<open>A run written down: who moves, with which command or which answer of the system.\<close>

datatype host_move = Host_Main int | Host_Thread host_env

fun client_move :: "func_times \<Rightarrow> host_move \<Rightarrow> client sys \<Rightarrow> client sys option" where
  "client_move tbl (Host_Main adv) y =
     map_option (\<lambda>(s, m). y\<lparr>sh := s, mn := m, waited := waited y + slept y\<rparr>)
       (main_step (calls_ok adv) (client_phase (wk y) = W_Exited) (sh y) (mn y))"
| "client_move tbl (Host_Thread e) y =
     (if main_over (mn y) then None
      else map_option (\<lambda>(s, w). count (client_event tbl (wk y)) (y\<lparr>sh := s, wk := w\<rparr>))
        (client_step tbl e (sh y) (wk y)))"

fun client_play :: "func_times \<Rightarrow> host_move list \<Rightarrow> client sys \<Rightarrow> client sys option" where
  "client_play tbl [] y = Some y"
| "client_play tbl (mv # mvs) y = Option.bind (client_move tbl mv y) (client_play tbl mvs)"

definition host_allowed :: "int set \<Rightarrow> host_move \<Rightarrow> bool" where
  "host_allowed advs mv \<longleftrightarrow> (case mv of Host_Main adv \<Rightarrow> adv \<in> advs | Host_Thread e \<Rightarrow> True)"

lemma client_move_step:
  assumes "client_move tbl mv y = Some y'" and "host_allowed advs mv"
  shows "sys_step advs (client_worker tbl) (\<lambda>w. client_phase w = W_Exited) y y'"
proof (cases mv)
  case (Host_Main adv)
  with assms show ?thesis by (auto simp: host_allowed_def intro!: sys_step.main_moves [of "calls_ok adv"])
    (simp add: calls_ok_def)
next
  case (Host_Thread e)
  with assms show ?thesis by (auto simp: client_worker_def intro!: sys_step.worker_moves split: if_splits)
qed

lemma client_step_histories:
  assumes "client_step tbl e s w = Some (s', w')"
  shows "(\<exists>rs. ep_got w' = ep_got w @ rs) \<and> (\<exists>outs. ep_sent w' = ep_sent w @ outs)"
  using assms
  by (cases "ep_pc w") (auto simp: client_step_def ep_stub_def ep_resume_def ep_tell_def Let_def
      split: if_splits pause.splits outcome.splits stub_result.splits)

lemma client_move_histories:
  assumes "client_move tbl mv y = Some y'"
  shows "(\<exists>rs. ep_got (wk y') = ep_got (wk y) @ rs) \<and> (\<exists>outs. ep_sent (wk y') = ep_sent (wk y) @ outs)"
proof (cases mv)
  case (Host_Thread e)
  with assms obtain s' w' where st: "client_step tbl e (sh y) (wk y) = Some (s', w')"
    and y': "y' = count (client_event tbl (wk y)) (y\<lparr>sh := s', wk := w'\<rparr>)" by (auto split: if_splits)
  from client_step_histories [OF st] show ?thesis by (simp add: y')
qed (use assms in auto)

lemma client_play_got: "client_play tbl mvs y = Some y' \<Longrightarrow> \<exists>rs. ep_got (wk y') = ep_got (wk y) @ rs"
proof (induction mvs arbitrary: y)
  case (Cons mv mvs)
  then obtain y1 where y1: "client_move tbl mv y = Some y1" "client_play tbl mvs y1 = Some y'"
    by (auto split: bind_splits)
  from client_move_histories [OF y1(1)] Cons.IH [OF y1(2)] show ?case by auto
qed simp

text \<open>The run: the nap, then the first request.\<close>

definition host_answer :: "int \<Rightarrow> host_env" where
  "host_answer n = \<lparr>h_socket = True, h_fall = 0, h_written = n, h_recv = None\<rparr>"

definition request_run :: "host_move list" where
  "request_run = replicate 3 (Host_Main 100) @ replicate 4 (Host_Thread (host_answer 2)) @ [Host_Main 100] @
     replicate 2 (Host_Thread (host_answer 2)) @ replicate 3 (Host_Main 100) @ replicate 5 (Host_Thread (host_answer 2))"

lemma blocked_length: "length (show_int (-1)) = Suc (Suc 0)"
  by (simp add: show_int_def show_nat.simps)

lemma request_run_ends:
  assumes "client_table_ok tbl"
  shows "\<exists>y. client_play tbl request_run (sys_init (client_init sa)) = Some y \<and> ep_got (wk y) = [] \<and>
     (\<exists>b. ep_sent (wk y) = [(sa, b)]) \<and> charged y = 50 \<and> ep_pc (wk y) = C_Stub CK_Requested"
  by (simp add: request_run_def host_answer_def numeral_eq_Suc sys_init_def client_init_def main_step_ok main_over_def shared_init_def
      main_init_def client_step_def ep_resume_def ep_stub_def ep_tell_def update_stub_begin_def client_call_time [OF assms]
      update_stub_end_def pipe_send_def main_reply_def client_event_def client_phase_def count_def slept_def ep_sendto_def
      Let_def blocked_length del: client_call_name.simps)

lemma zero_length: "length (show_int 0) = Suc 0"
  by (simp add: show_int_def show_nat.simps)

text \<open>It goes on: a reply comes, from another address; the second request follows it there.\<close>

definition reply_answer :: "int \<Rightarrow> sock_addr \<Rightarrow> host_env" where
  "reply_answer n a = \<lparr>h_socket = True, h_fall = 0, h_written = n, h_recv = Some (a, ''ok'')\<rparr>"

definition reply_run :: "sock_addr \<Rightarrow> host_move list" where
  "reply_run a = request_run @ replicate 4 (Host_Thread (reply_answer 1 a)) @ replicate 4 (Host_Main 100) @
     replicate 3 (Host_Thread (reply_answer 2 a)) @ [Host_Main 100] @ replicate 2 (Host_Thread (reply_answer 2 a)) @
     replicate 3 (Host_Main 100) @ replicate 6 (Host_Thread (reply_answer 1 a)) @ replicate 4 (Host_Main 100) @
     replicate 2 (Host_Thread (reply_answer 1 a))"

lemma client_play_append: "client_play tbl (xs @ ys) y = Option.bind (client_play tbl xs y) (client_play tbl ys)"
  by (induction xs arbitrary: y) (auto simp: bind_eq_None_conv split: Option.bind_split)

lemmas play_defs = numeral_eq_Suc sys_init_def client_init_def main_step_ok main_over_def shared_init_def
  main_init_def client_step_def ep_resume_def ep_stub_def ep_tell_def update_stub_begin_def
  update_stub_end_def pipe_send_def main_reply_def client_event_def client_phase_def count_def slept_def ep_sendto_def
  Let_def blocked_length zero_length

lemma client_receive_ok:
  "client_receive (Some (a, ''ok'')) w = w\<lparr>ep_buf := ''ok'' @ drop 2 (ep_buf w), ep_bytes := 2,
     ep_got := ep_got w @ [Some (a, ''ok'')], cl_server := a\<rparr>"
  by (simp add: client_receive_def ep_receive_def BUF_SIZE_def Let_def numeral_2_eq_2)

lemma reply_run_ends:
  assumes "client_table_ok tbl"
  shows "\<exists>y. client_play tbl (reply_run b) (sys_init (client_init a)) = Some y \<and> ep_got (wk y) = [Some (b, ''ok'')] \<and>
     length (ep_sent (wk y)) = 2"
  by (simp add: reply_run_def request_run_def host_answer_def reply_answer_def play_defs client_call_time [OF assms]
      client_receive_ok del: client_call_name.simps)

lemma client_play_reachable:
  assumes "client_play tbl mvs y = Some y'" and "\<forall>mv \<in> set mvs. host_allowed advs mv"
    and "client_reachable advs tbl dst y"
  shows "client_reachable advs tbl dst y'"
  using assms
proof (induction mvs arbitrary: y)
  case (Cons mv mvs)
  from Cons.prems(1) obtain y1 where y1: "client_move tbl mv y = Some y1" "client_play tbl mvs y1 = Some y'"
    by (auto split: bind_splits)
  with Cons.prems client_move_step [OF y1(1)] have "client_reachable advs tbl dst y1"
    by (auto intro: reachable.more)
  with Cons.IH [OF y1(2)] Cons.prems(2) show ?case by simp
qed simp

lemma runs_allowed: "\<forall>mv \<in> set request_run. host_allowed {100} mv" "\<forall>mv \<in> set (reply_run a). host_allowed {100} mv"
  by (auto simp: request_run_def reply_run_def host_allowed_def)

lemma client_start: "client_reachable advs tbl dst (sys_init (client_init dst))"
  by (rule reachable.start)

lemma request_texts: "request_text 1 = ''REQUEST: 1''" "request_text 2 = ''REQUEST: 2''"
  by code_simp+

definition demo_client_table :: func_times where
  "demo_client_table = (case client_func_times (take 3 demo_allocs) no_mem of Some tbl \<Rightarrow> tbl | None \<Rightarrow> undefined)"

lemma demo_client_table: "client_func_times (take 3 demo_allocs) no_mem = Some demo_client_table"
  "client_table_ok demo_client_table"
proof -
  have "allocs_for client_costs (take 3 demo_allocs) no_mem"
    by (simp add: allocs_for_def client_costs_def demo_allocs_def entry_avail_def entry_apart_def no_mem_def)
  from client_table [OF this] obtain tbl where "client_func_times (take 3 demo_allocs) no_mem = Some tbl"
    "client_table_ok tbl" by blast
  moreover from this have "demo_client_table = tbl" by (simp add: demo_client_table_def)
  ultimately show "client_func_times (take 3 demo_allocs) no_mem = Some demo_client_table"
    "client_table_ok demo_client_table" by simp_all
qed

subsection \<open>Properties\<close>

text \<open>The client has the properties of every worker of the protocol.\<close>

lemma client_one_message:
  assumes "client_table_ok tbl" and "client_reachable advs tbl dst y" and "advs \<subseteq> valid_advances"
  shows "holds_one (m2t (sh y)) \<and> holds_one (t2m (sh y)) \<and> (m2t (sh y) = [] \<or> t2m (sh y) = [])"
  using cl.one_message [of tbl "client_init dst" advs y] assms by blast

lemma client_no_deadlock:
  assumes "client_table_ok tbl"
    and "reachable advs (client_reliable tbl) (\<lambda>w. client_phase w = W_Exited) (client_init dst) y"
    and "advs \<subseteq> valid_advances" and "0 \<notin> advs" and "adv \<in> advs" and "\<not> main_over (mn y)"
    and "\<not> (m_pc (mn y) = M_Join \<and> client_phase (wk y) = W_Parked)"
  shows "\<exists>y'. sys_step advs (client_reliable tbl) (\<lambda>w. client_phase w = W_Exited) y y' \<and> y' \<noteq> y"
  using cr.no_deadlock [of tbl "client_init dst" advs y adv] assms by blast

text \<open>
  C14: In every interleaving the client sends one request before each return of \<open>recvfrom\<close>, and at
  most one more: the request carries the number of the replies counted so far plus one, with its
  terminator, and goes to the sender of whatever was received last (the first ones to the server
  it was started with). A reply counts when it is not empty; after an empty one or an error the same
  number is sent again.
\<close>

theorem client_requests:
  assumes "client_table_ok tbl" and "client_reachable advs tbl dst y"
  shows "ep_sent (wk y) = requests (dst, 0) (ep_got (wk y)) \<or>
     ep_sent (wk y) = requests (dst, 0) (ep_got (wk y)) @ [request (foldl count_reply (dst, 0) (ep_got (wk y)))]"
  using script_ok_reachable [OF assms] by (auto simp: script_ok_def Let_def split: if_splits)

theorem client_requests_witness:
  "\<exists>y. client_reachable {100} demo_client_table (1, 12000) y \<and>
     ep_sent (wk y) = [((1, 12000), ''REQUEST: 1'' @ [NUL]), ((2, 53), ''REQUEST: 2'' @ [NUL])]"
proof -
  from reply_run_ends [OF demo_client_table(2), of "(2, 53)" "(1, 12000)"] obtain y where
    y: "client_play demo_client_table (reply_run (2, 53)) (sys_init (client_init (1, 12000))) = Some y"
      "ep_got (wk y) = [Some ((2, 53), ''ok'')]" "length (ep_sent (wk y)) = 2" by blast
  from client_play_reachable [OF y(1) runs_allowed(2) client_start]
  have r: "client_reachable {100} demo_client_table (1, 12000) y" .
  have "ep_sent (wk y) = [((1, 12000), ''REQUEST: 1'' @ [NUL]), ((2, 53), ''REQUEST: 2'' @ [NUL])]"
    using client_requests [OF demo_client_table(2) r] y(3) unfolding y(2)
    by (auto simp: request_def request_texts count_reply_def)
  with r show ?thesis by blast
qed

text \<open>
  C15: Between rounds and at the end, the time the client's main thread has counted is the time
  charged for its calls, given up or slept through. The calls charged are two for every return of
  \<open>recvfrom\<close> and one for every reply that counts, up to the calls of one round of its loop: 50
  microseconds each whatever is sent, and none for sending, since the table has \<open>sendto\<close> and the
  thread asks for \<open>send_to\<close>.
\<close>

theorem client_time:
  assumes "client_table_ok tbl" and "client_reachable advs tbl dst y" and "advs \<subseteq> valid_advances"
    and "m_pc (mn y) = M_Ack \<or> m_pc (mn y) = M_Done"
  shows "m_elapsed (mn y) = word_of_int (charged y + forfeited y + waited y) \<and>
     50 * (2 * int (length (ep_got (wk y))) + int (length (replies (ep_got (wk y)))) - 1) \<le> charged y \<and>
     charged y \<le> 50 * (2 * int (length (ep_got (wk y))) + int (length (replies (ep_got (wk y)))) + 2) \<and>
     func_time tbl (client_call_name CK_Requested) = Some None"
proof -
  have "m_elapsed (mn y) = word_of_int (charged y + forfeited y + waited y)"
    using cl.time_accounted [of tbl "client_init dst" advs y] assms by blast
  with charge_ok_reachable [OF assms(1,2)] calls_due_range [of "wk y"] client_call_time [OF assms(1), of CK_Requested]
  show ?thesis by (simp add: charge_ok_def calls_made_def Let_def split: if_splits)
qed

theorem client_time_witness:
  "\<exists>y. client_reachable {100} demo_client_table (1, 12000) y \<and> m_pc (mn y) = M_Ack \<and> length (ep_sent (wk y)) = 1 \<and>
     charged y = 100 \<and> m_elapsed (mn y) = word_of_int (charged y + forfeited y + waited y)"
proof -
  let ?run = "request_run @ replicate 4 (Host_Thread (host_answer 1)) @ [Host_Main 100]"
  have "\<exists>y. client_play demo_client_table ?run (sys_init (client_init (1, 12000))) = Some y \<and> m_pc (mn y) = M_Ack \<and>
      length (ep_sent (wk y)) = 1 \<and> charged y = 100"
    by (simp add: request_run_def host_answer_def play_defs client_call_time [OF demo_client_table(2)] del: client_call_name.simps)
  then obtain y where y: "client_play demo_client_table ?run (sys_init (client_init (1, 12000))) = Some y"
    "m_pc (mn y) = M_Ack" "length (ep_sent (wk y)) = 1" "charged y = 100" by blast
  have "\<forall>mv \<in> set ?run. host_allowed {100} mv" using runs_allowed(1) by (auto simp: host_allowed_def)
  from client_play_reachable [OF y(1) this client_start]
  have r: "client_reachable {100} demo_client_table (1, 12000) y" .
  from client_time [OF demo_client_table(2) r] y r show ?thesis by (auto simp: valid_advances_def)
qed

end
