(* ===== verification/Traffic_Server.thy ===== *)
theory Traffic_Server
  imports Endpoint
begin

text \<open>
  The server of the experiments under virtual time (\<open>test/server_n_vt.c\<close>): it answers every
  datagram with one of fixed content, and charges the work to the stub. Like the client it is a
  worker of the round protocol, by the interpretations below.
\<close>

subsection \<open>State\<close>

datatype server_call = SK_Flushed | SK_Filled | SK_Sent

fun server_call_name :: "server_call \<Rightarrow> string" where
  "server_call_name SK_Flushed = ''flush_buffer''"
| "server_call_name SK_Filled = ''fill_buffer''"
| "server_call_name SK_Sent = ''sendto''"

datatype server_pc =
    S_Start | S_FirstRead
  | S_Loop | S_Stub server_call | S_Read server_call | S_Ret int server_call
  | S_Mark | S_Tell | S_Wait | S_Unmark | S_Resume | S_Got | S_Reply | S_Exited

text \<open>\<open>sv_peer\<close> is \<open>serverStorage\<close>: the sender of the last datagram, before the first what the stack holds.\<close>

record server = "server_pc endpoint" +
  sv_peer :: sock_addr

definition server_init :: "sock_addr \<Rightarrow> server" where
  "server_init stale = \<lparr>ep_pc = S_Start, ep_time = 0, ep_open = False, ep_buf = replicate BUF_SIZE NUL,
     ep_bytes = 0, ep_got = [], ep_sent = [], sv_peer = stale\<rparr>"

definition server_costs :: "(string \<times> int) list" where
  "server_costs = [(''sendto'', 50), (''flush_buffer'', 50), (''fill_buffer'', 50)]"

definition server_func_times :: "alloc list \<Rightarrow> int hashmap_elem mem \<Rightarrow> func_times option" where
  "server_func_times allocs m = put_func_times allocs server_costs (hmap_init 1000, m)"

text \<open>
  \<open>main\<close> up to the start of the thread: the address as text and the cost table. The conversion by
  \<open>inet_addr\<close> follows in the thread.
\<close>

definition server_setup ::
  "(char \<times> string) list \<Rightarrow> alloc list \<Rightarrow> int hashmap_elem mem \<Rightarrow> (string \<times> func_times) outcome" where
  "server_setup opts allocs m =
     (case traffic_options opts [] of
        Returns dst_IP \<Rightarrow>
          (case server_func_times allocs m of Some tbl \<Rightarrow> Returns (dst_IP, tbl) | None \<Rightarrow> Faults)
      | Exits code \<Rightarrow> Exits code
      | Blocks \<Rightarrow> Blocks
      | Faults \<Rightarrow> Faults)"

subsection \<open>Steps\<close>

text \<open>\<open>fill_buffer\<close>: the first \<open>n\<close> bytes become letters.\<close>

definition fill_buffer :: "string \<Rightarrow> nat \<Rightarrow> string" where
  "fill_buffer buffer n = replicate n CHR ''A'' @ drop n buffer"

fun server_after :: "server_call \<Rightarrow> server_pc" where
  "server_after SK_Flushed = S_Mark"
| "server_after SK_Filled = S_Reply"
| "server_after SK_Sent = S_Loop"

definition server_receive :: "udp_datagram option \<Rightarrow> server \<Rightarrow> server" where
  "server_receive r w =
     (case r of
        None \<Rightarrow> ep_receive None w
      | Some (a, bytes) \<Rightarrow> (ep_receive (Some (a, bytes)) w)\<lparr>sv_peer := a\<rparr>)"

definition server_step :: "func_times \<Rightarrow> host_env \<Rightarrow> shared \<Rightarrow> server \<Rightarrow> (shared \<times> server) option" where
  "server_step tbl e s w =
     (case ep_pc w of
        S_Start \<Rightarrow> Some (s, w\<lparr>ep_pc := S_FirstRead, ep_time := 0, ep_open := h_socket e\<rparr>)
      | S_FirstRead \<Rightarrow>
          ep_resume (\<lambda>v. fst (update_stub_end None v) < 0) S_Exited (\<lambda>w. w\<lparr>ep_pc := S_Loop\<rparr>) s w
      | S_Loop \<Rightarrow>
          Some (s, if stop s then ep_finish S_Exited w
                   else w\<lparr>ep_pc := S_Stub SK_Flushed, ep_buf := replicate BUF_SIZE NUL\<rparr>)
      | S_Stub k \<Rightarrow> ep_stub tbl e (server_call_name k) (\<lambda>r. S_Ret r k) (S_Read k) s w
      | S_Read k \<Rightarrow>
          ep_resume (\<lambda>v. fst (update_stub_end (Some (server_call_name k)) v) < 0 \<or> stop s) S_Exited
            (\<lambda>w. w\<lparr>ep_pc := server_after k\<rparr>) s w
      | S_Ret r k \<Rightarrow>
          Some (s, if r < 0 \<or> stop s then ep_finish S_Exited w else w\<lparr>ep_pc := server_after k\<rparr>)
      | S_Mark \<Rightarrow> Some (s\<lparr>is_blocked := True\<rparr>, w\<lparr>ep_pc := S_Tell, ep_time := 0\<rparr>)
      | S_Tell \<Rightarrow> ep_tell e S_Wait s w
      | S_Wait \<Rightarrow> Some (s, (server_receive (h_recv e) w)\<lparr>ep_pc := S_Unmark\<rparr>)
      | S_Unmark \<Rightarrow> Some (s\<lparr>is_blocked := False\<rparr>, w\<lparr>ep_pc := S_Resume\<rparr>)
      | S_Resume \<Rightarrow> ep_resume (\<lambda>v. v \<le> 0 \<or> stop s) S_Exited (\<lambda>w. w\<lparr>ep_pc := S_Got\<rparr>) s w
      | S_Got \<Rightarrow>
          Some (s, if ep_bytes w \<noteq> 0
                   then w\<lparr>ep_buf := fill_buffer (replicate BUF_SIZE NUL) (BUF_SIZE - 1), ep_pc := S_Stub SK_Filled\<rparr>
                   else w\<lparr>ep_pc := S_Loop\<rparr>)
      | S_Reply \<Rightarrow> Some (s, ep_sendto (sv_peer w) (BUF_SIZE - 1) (w\<lparr>ep_pc := S_Stub SK_Sent\<rparr>))
      | S_Exited \<Rightarrow> None)"

subsection \<open>As a worker of the protocol\<close>

definition server_phase :: "server \<Rightarrow> phase" where
  "server_phase w =
     (case ep_pc w of
        S_Start \<Rightarrow> W_Await | S_FirstRead \<Rightarrow> W_Await | S_Read k \<Rightarrow> W_Await | S_Resume \<Rightarrow> W_Await
      | S_Tell \<Rightarrow> W_Parking | S_Wait \<Rightarrow> W_Parked | S_Unmark \<Rightarrow> W_Parked
      | S_Exited \<Rightarrow> W_Exited
      | _ \<Rightarrow> W_Run (ep_time w))"

definition server_event :: "func_times \<Rightarrow> server \<Rightarrow> wevent" where
  "server_event tbl w =
     (case ep_pc w of
        S_Stub k \<Rightarrow> (case func_time tbl (server_call_name k) of Some (Some c) \<Rightarrow> Charge c | _ \<Rightarrow> Silent)
      | S_Ret r k \<Rightarrow> if r < 0 then Fault else Silent
      | S_Mark \<Rightarrow> Forfeit (ep_time w)
      | _ \<Rightarrow> Silent)"

definition server_worker :: "func_times \<Rightarrow> shared \<Rightarrow> server \<Rightarrow> wevent \<Rightarrow> shared \<Rightarrow> server \<Rightarrow> bool" where
  "server_worker tbl s w ev s' w' \<longleftrightarrow> (\<exists>e. server_step tbl e s w = Some (s', w') \<and> ev = server_event tbl w)"

definition server_table_ok :: "func_times \<Rightarrow> bool" where
  "server_table_ok tbl \<longleftrightarrow> (\<forall>name. func_time tbl name = map_option (cost_map server_costs) (func_key name))"

lemma server_table: "allocs_for server_costs allocs m \<Longrightarrow> \<exists>tbl. server_func_times allocs m = Some tbl \<and> server_table_ok tbl"
  unfolding server_func_times_def server_table_ok_def
  by (rule put_func_times_ok)
    (simp_all add: server_costs_def func_key_def c_abs_def str_hash_names str_hash_others)

lemma server_setup_ok:
  assumes "traffic_options opts [] = Returns dst_IP" and "allocs_for server_costs allocs m"
  shows "\<exists>tbl. server_setup opts allocs m = Returns (dst_IP, tbl) \<and> server_table_ok tbl"
  using assms(1) server_table [OF assms(2)] by (auto simp: server_setup_def)

lemma server_call_time: "server_table_ok tbl \<Longrightarrow> func_time tbl (server_call_name k) = Some (Some 50)"
  by (cases k) (simp_all add: server_table_ok_def server_costs_def cost_map_def func_key_def c_abs_def
      str_hash_names str_hash_others)

definition server_runs :: "server_pc \<Rightarrow> bool" where
  "server_runs pc \<longleftrightarrow>
     (case pc of
        S_Mark \<Rightarrow> True | S_Loop \<Rightarrow> True | S_Stub k \<Rightarrow> True | S_Ret r k \<Rightarrow> True | S_Reply \<Rightarrow> True
      | S_Got \<Rightarrow> True | _ \<Rightarrow> False)"

definition server_ok :: "server \<Rightarrow> bool" where
  "server_ok w \<longleftrightarrow> (server_runs (ep_pc w) \<longrightarrow> 0 \<le> ep_time w)"

lemma server_phase_runs: "server_runs (ep_pc w) \<Longrightarrow> server_phase w = W_Run (ep_time w)"
  by (auto simp: server_runs_def server_phase_def split: server_pc.splits)

lemma server_after_runs [simp]: "server_runs (server_after k)"
  by (cases k) (simp_all add: server_runs_def)

lemma server_receive_fields [simp]:
  "ep_pc (server_receive r w) = ep_pc w" "ep_time (server_receive r w) = ep_time w"
  "ep_sent (server_receive r w) = ep_sent w"
  "ep_got (server_receive r w) = ep_got w @ [map_option (\<lambda>(a, b). (a, take BUF_SIZE b)) r]"
  "sv_peer (server_receive r w) = (case r of None \<Rightarrow> sv_peer w | Some (a, b) \<Rightarrow> a)"
  "ep_bytes (server_receive r w) = (case r of None \<Rightarrow> -1 | Some (a, b) \<Rightarrow> int (length (take BUF_SIZE b)))"
  by (auto simp: server_receive_def ep_receive_def Let_def split: option.split)

lemmas server_defs = server_step_def server_phase_def server_event_def server_ok_def server_runs_def

lemma server_resume_simulates:
  assumes st: "ep_resume quits S_Exited (\<lambda>w. w\<lparr>ep_pc := next\<rparr>) s w = Some (s', w')" and ph: "server_phase w = W_Await"
    and q: "\<And>v. quits v \<Longrightarrow> v \<le> 0 \<or> stop s" "\<And>v. \<not> quits v \<Longrightarrow> 0 \<le> v" and n: "server_runs next"
  shows "server_ok w' \<and> worker_step s (server_phase w) Silent s' (server_phase w')"
proof -
  have "server_phase (ep_finish S_Exited v) = W_Exited" "server_ok (ep_finish S_Exited v)" for v
    by (simp_all add: server_defs)
  with ep_resume_simulates [OF st q] n show ?thesis unfolding ph by (auto simp: server_phase_runs server_ok_def)
qed

lemma server_simulates:
  assumes tbl: "server_table_ok tbl" and ok: "server_ok w" and st: "server_step tbl e s w = Some (s', w')"
  shows "server_ok w' \<and> worker_step s (server_phase w) (server_event tbl w) s' (server_phase w')"
proof (cases "ep_pc w")
  case (S_Stub k)
  then have ph: "server_phase w = W_Run (ep_time w)" and t: "0 \<le> ep_time w" and ev: "server_event tbl w = Charge 50"
    using ok server_call_time [OF tbl] by (simp_all add: server_defs)
  from st S_Stub have "ep_stub tbl e (server_call_name k) (\<lambda>r. S_Ret r k) (S_Read k) s w = Some (s', w')"
    by (simp add: server_step_def)
  then show ?thesis unfolding ph ev using server_call_time [OF tbl, of k]
    by (cases rule: ep_stub_cases) (use t in \<open>auto simp: server_defs intro: w_charge w_report\<close>)
next
  case S_FirstRead
  then have pe: "server_phase w = W_Await" "server_event tbl w = Silent" by (simp_all add: server_defs)
  show ?thesis unfolding pe(2)
    by (rule server_resume_simulates [OF _ pe(1), of "\<lambda>v. fst (update_stub_end None v) < 0" S_Loop])
      (use st S_FirstRead in \<open>auto simp: server_step_def update_stub_end_def server_runs_def split: if_splits\<close>)
next
  case (S_Read k)
  then have pe: "server_phase w = W_Await" "server_event tbl w = Silent" by (simp_all add: server_defs)
  show ?thesis unfolding pe(2)
    by (rule server_resume_simulates [OF _ pe(1),
          of "\<lambda>v. fst (update_stub_end (Some (server_call_name k)) v) < 0 \<or> stop s" "server_after k"])
      (use st S_Read in \<open>auto simp: server_step_def update_stub_end_def split: if_splits\<close>)
next
  case S_Resume
  then have pe: "server_phase w = W_Await" "server_event tbl w = Silent" by (simp_all add: server_defs)
  show ?thesis unfolding pe(2)
    by (rule server_resume_simulates [OF _ pe(1), of "\<lambda>v. v \<le> 0 \<or> stop s" S_Got])
      (use st S_Resume in \<open>auto simp: server_step_def server_runs_def\<close>)
next
  case S_Tell
  with st show ?thesis by (auto simp: server_defs elim!: ep_tell_cases intro: w_park)
next
  case (S_Ret r k)
  with st ok show ?thesis
    by (cases "r < 0 \<or> stop s"; cases k) (auto simp: server_defs intro: w_internal w_fault w_stop)
next
  case S_Mark
  with st show ?thesis by (auto simp: server_defs intro: w_block)
next
  case S_Unmark
  with st show ?thesis by (auto simp: server_defs intro: w_unpark)
qed (use st ok in \<open>auto simp: server_defs Let_def intro: w_internal w_stop split: if_splits\<close>)

interpretation sv: vt_worker "server_worker tbl" server_phase "\<lambda>w. server_table_ok tbl \<and> server_ok w"
  "\<lambda>w. server_table_ok tbl \<and> (\<exists>stale. w = server_init stale)" for tbl
proof unfold_locales
  fix w assume "server_table_ok tbl \<and> (\<exists>stale. w = server_init stale)"
  then show "(server_table_ok tbl \<and> server_ok w) \<and> server_phase w = W_Await"
    by (auto simp: server_defs server_init_def)
next
  fix w s e s' w'
  assume "server_table_ok tbl \<and> server_ok w" "server_worker tbl s w e s' w'"
  then show "(server_table_ok tbl \<and> server_ok w') \<and> worker_step s (server_phase w) e s' (server_phase w')"
    using server_simulates unfolding server_worker_def by blast
qed

subsection \<open>Without failures\<close>

definition server_reliable :: "func_times \<Rightarrow> shared \<Rightarrow> server \<Rightarrow> wevent \<Rightarrow> shared \<Rightarrow> server \<Rightarrow> bool" where
  "server_reliable tbl s w ev s' w' \<longleftrightarrow>
     (\<exists>e. host_good e \<and> server_step tbl e s w = Some (s', w') \<and> ev = server_event tbl w)"

definition server_no_failure :: "server \<Rightarrow> bool" where
  "server_no_failure w \<longleftrightarrow> (\<forall>r k. ep_pc w = S_Ret r k \<longrightarrow> 0 \<le> r)"

lemma server_no_failure_step:
  assumes tbl: "server_table_ok tbl" and e: "host_good e" and st: "server_step tbl e s w = Some (s', w')"
  shows "server_no_failure w'"
proof (cases "ep_pc w")
  case (S_Stub k)
  then have "ep_stub tbl e (server_call_name k) (\<lambda>r. S_Ret r k) (S_Read k) s w = Some (s', w')"
    using st by (simp add: server_step_def)
  then show ?thesis using server_call_time [OF tbl, of k] e
    by (cases rule: ep_stub_cases) (auto simp: server_no_failure_def host_good_def)
next
  case (S_Read k)
  with st show ?thesis
    by (cases k) (auto simp: server_step_def server_no_failure_def elim!: ep_resume_cases)
next
  case (S_Ret r k)
  with st show ?thesis by (cases k) (auto simp: server_step_def server_no_failure_def split: if_splits)
qed (use st in \<open>auto simp: server_step_def server_no_failure_def elim!: ep_resume_cases ep_tell_cases split: if_splits\<close>)

lemma server_progress:
  assumes tbl: "server_table_ok tbl" and r: "runnable_phase s (server_phase w)"
  shows "\<exists>e s' w'. host_good e \<and> server_step tbl e s w = Some (s', w') \<and> w' \<noteq> w"
proof -
  define e where "e = \<lparr>h_socket = True, h_fall = 0, h_written = int (length (show_int THREAD_BLOCKED)), h_recv = None\<rparr>"
  have e: "host_good (e\<lparr>h_written := n\<rparr>)" for n by (simp add: e_def host_good_def)
  have "\<exists>n s' w'. server_step tbl (e\<lparr>h_written := n\<rparr>) s w = Some (s', w') \<and> ep_pc w' \<noteq> ep_pc w"
  proof (cases "ep_pc w")
    case (S_Stub k)
    from ep_stub_moves [OF server_call_time [OF tbl, of k], of e "\<lambda>r. S_Ret r k" "S_Read k" s w] S_Stub show ?thesis
      by (fastforce simp: server_step_def)
  next
    case S_Tell
    with ep_tell_moves [of e S_Wait s w] show ?thesis
      by (intro exI [of _ "int (length (show_int THREAD_BLOCKED))"]) (simp add: server_step_def)
  next
    case (S_Ret r k)
    then show ?thesis by (cases k) (auto simp: server_step_def)
  next
    case (S_Read k)
    with r show ?thesis
      by (cases k) (auto simp: server_step_def runnable_phase_def server_phase_def ep_resume_def)
  qed (use r in \<open>auto simp: server_step_def runnable_phase_def server_phase_def ep_resume_def\<close>)
  then obtain n s' w' where st: "server_step tbl (e\<lparr>h_written := n\<rparr>) s w = Some (s', w')" "ep_pc w' \<noteq> ep_pc w"
    by blast
  then have "w' \<noteq> w" by auto
  with st(1) e show ?thesis by blast
qed

interpretation sr: vt_worker_reliable "server_reliable tbl" server_phase
  "\<lambda>w. server_table_ok tbl \<and> server_ok w \<and> server_no_failure w"
  "\<lambda>w. server_table_ok tbl \<and> (\<exists>stale. w = server_init stale)" for tbl
proof unfold_locales
  fix w assume w: "server_table_ok tbl \<and> (\<exists>stale. w = server_init stale)"
  with sv.init_law [OF w] show "(server_table_ok tbl \<and> server_ok w \<and> server_no_failure w) \<and> server_phase w = W_Await"
    by (simp add: server_no_failure_def) (auto simp: server_init_def)
next
  fix w s e s' w'
  assume "server_table_ok tbl \<and> server_ok w \<and> server_no_failure w" "server_reliable tbl s w e s' w'"
  then show "(server_table_ok tbl \<and> server_ok w' \<and> server_no_failure w') \<and>
      worker_step s (server_phase w) e s' (server_phase w')"
    using server_simulates server_no_failure_step unfolding server_reliable_def by blast
next
  fix w s e s' w'
  assume "server_table_ok tbl \<and> server_ok w \<and> server_no_failure w" "server_reliable tbl s w e s' w'"
  then show "e \<noteq> Fault"
    by (auto simp: server_reliable_def server_event_def server_no_failure_def split: server_pc.splits option.splits)
next
  fix w s
  assume "server_table_ok tbl \<and> server_ok w \<and> server_no_failure w" "runnable_phase s (server_phase w)"
  with server_progress show "\<exists>e s' w'. server_reliable tbl s w e s' w' \<and> w' \<noteq> w"
    unfolding server_reliable_def by blast
qed

subsection \<open>What the server sends\<close>

abbreviation (input) server_reachable :: "int set \<Rightarrow> func_times \<Rightarrow> sock_addr \<Rightarrow> server sys \<Rightarrow> bool" where
  "server_reachable advs tbl stale \<equiv>
     reachable advs (server_worker tbl) (\<lambda>w. server_phase w = W_Exited) (server_init stale)"

definition reply_text :: string where
  "reply_text = replicate (BUF_SIZE - 1) CHR ''A''"

text \<open>
  The answers to what \<open>recvfrom\<close> returned: one to the sender of every datagram that is not empty,
  and one to the last known sender for every error.
\<close>

fun answers :: "sock_addr \<Rightarrow> udp_datagram option list \<Rightarrow> udp_datagram list" where
  "answers p [] = []"
| "answers p (None # rs) = (p, reply_text) # answers p rs"
| "answers p (Some (a, b) # rs) = (if b = [] then [] else [(a, reply_text)]) @ answers a rs"

definition last_peer :: "sock_addr \<Rightarrow> udp_datagram option list \<Rightarrow> sock_addr" where
  "last_peer = foldl (\<lambda>p r. case r of None \<Rightarrow> p | Some (a, b) \<Rightarrow> a)"

lemma last_peer_snoc [simp]:
  "last_peer p [] = p" "last_peer p (rs @ [r]) = (case r of None \<Rightarrow> last_peer p rs | Some (a, b) \<Rightarrow> a)"
  by (simp_all add: last_peer_def split: option.split)

lemma answers_snoc:
  "answers p (rs @ [r]) = answers p rs @
     (case r of None \<Rightarrow> [(last_peer p rs, reply_text)] | Some (a, b) \<Rightarrow> if b = [] then [] else [(a, reply_text)])"
  by (induction p rs rule: answers.induct) (auto simp: last_peer_def split: option.splits)

text \<open>The points between the receipt of a datagram and its answer; from \<open>fill_buffer\<close> on; about to answer.\<close>

definition owing :: "server_pc \<Rightarrow> bool" where
  "owing pc \<longleftrightarrow>
     (case pc of
        S_Unmark \<Rightarrow> True | S_Resume \<Rightarrow> True | S_Got \<Rightarrow> True | S_Reply \<Rightarrow> True
      | S_Stub k \<Rightarrow> k = SK_Filled | S_Read k \<Rightarrow> k = SK_Filled | S_Ret r k \<Rightarrow> k = SK_Filled | _ \<Rightarrow> False)"

definition filling :: "server_pc \<Rightarrow> bool" where
  "filling pc \<longleftrightarrow>
     (case pc of S_Reply \<Rightarrow> True | S_Stub k \<Rightarrow> k = SK_Filled | S_Read k \<Rightarrow> k = SK_Filled
      | S_Ret r k \<Rightarrow> k = SK_Filled | _ \<Rightarrow> False)"

definition answer_ok :: "sock_addr \<Rightarrow> server \<Rightarrow> bool" where
  "answer_ok stale w \<longleftrightarrow>
     (if ep_pc w = S_Exited
      then \<exists>d. answers stale (ep_got w) = ep_sent w @ d \<and> length d \<le> 1
      else sv_peer w = last_peer stale (ep_got w) \<and>
        answers stale (ep_got w) =
          ep_sent w @ (if owing (ep_pc w) \<and> ep_bytes w \<noteq> 0 then [(sv_peer w, reply_text)] else []) \<and>
        (filling (ep_pc w) \<longrightarrow> ep_bytes w \<noteq> 0 \<and> take (BUF_SIZE - 1) (ep_buf w) = reply_text))"

lemma answer_ok_move:
  assumes "answer_ok stale w" and "ep_pc w \<noteq> S_Exited" and "pc \<noteq> S_Exited"
    and "owing pc = owing (ep_pc w)" and "filling pc \<longrightarrow> filling (ep_pc w)"
  shows "answer_ok stale (w\<lparr>ep_pc := pc\<rparr>)" and "answer_ok stale (w\<lparr>ep_pc := pc, ep_time := t\<rparr>)"
  using assms by (simp_all add: answer_ok_def)

lemma answer_ok_finish: "answer_ok stale w \<Longrightarrow> answer_ok stale (ep_finish S_Exited (w\<lparr>ep_time := t\<rparr>))"
  "answer_ok stale w \<Longrightarrow> answer_ok stale (ep_finish S_Exited w)"
  by (auto simp: answer_ok_def split: if_splits)

lemma answer_ok_resume:
  assumes ok: "answer_ok stale w" "ep_pc w \<noteq> S_Exited"
    and st: "ep_resume q S_Exited (\<lambda>w. w\<lparr>ep_pc := pc\<rparr>) s w = Some (s', w')"
    and pc: "pc \<noteq> S_Exited" "owing pc = owing (ep_pc w)" "filling pc \<longrightarrow> filling (ep_pc w)"
  shows "answer_ok stale w'"
  using st
proof (cases rule: ep_resume_cases)
  case (quit v rest)
  with answer_ok_finish(1) [OF ok(1)] show ?thesis by simp
next
  case (go v rest)
  moreover have "w\<lparr>ep_time := v, ep_pc := pc\<rparr> = w\<lparr>ep_pc := pc, ep_time := v\<rparr>" by simp
  ultimately show ?thesis using answer_ok_move(2) [OF ok pc] by metis
qed

lemma answer_kinds [simp]:
  "\<not> owing S_Start" "\<not> owing S_FirstRead" "\<not> owing S_Loop" "\<not> owing S_Mark" "\<not> owing S_Tell" "\<not> owing S_Wait"
  "owing S_Unmark" "owing S_Resume" "owing S_Got" "owing S_Reply" "owing (S_Stub k) \<longleftrightarrow> k = SK_Filled"
  "owing (S_Read k) \<longleftrightarrow> k = SK_Filled" "owing (S_Ret r k) \<longleftrightarrow> k = SK_Filled"
  "\<not> filling S_Start" "\<not> filling S_FirstRead" "\<not> filling S_Loop" "\<not> filling S_Mark" "\<not> filling S_Tell"
  "\<not> filling S_Wait" "\<not> filling S_Unmark" "\<not> filling S_Resume" "\<not> filling S_Got" "filling S_Reply"
  "filling (S_Stub k) \<longleftrightarrow> k = SK_Filled" "filling (S_Read k) \<longleftrightarrow> k = SK_Filled" "filling (S_Ret r k) \<longleftrightarrow> k = SK_Filled"
  by (simp_all add: owing_def filling_def)

lemma server_after_kinds [simp]:
  "server_after k \<noteq> S_Exited" "owing (server_after k) \<longleftrightarrow> k = SK_Filled" "filling (server_after k) \<longleftrightarrow> k = SK_Filled"
  by (cases k; simp)+

lemma answer_ok_receive:
  assumes "answer_ok stale w" and "ep_pc w = S_Wait"
  shows "answer_ok stale ((server_receive r w)\<lparr>ep_pc := S_Unmark\<rparr>)"
  using assms by (auto simp: answer_ok_def answers_snoc BUF_SIZE_def split: option.splits)

lemma answer_ok_step:
  assumes tbl: "server_table_ok tbl" and ok: "answer_ok stale w" and st: "server_step tbl e s w = Some (s', w')"
  shows "answer_ok stale w'"
proof (cases "ep_pc w")
  case (S_Stub k)
  with st have "ep_stub tbl e (server_call_name k) (\<lambda>r. S_Ret r k) (S_Read k) s w = Some (s', w')"
    by (simp add: server_step_def)
  then show ?thesis using server_call_time [OF tbl, of k]
    by (cases rule: ep_stub_cases) (use S_Stub in \<open>simp_all add: answer_ok_move [OF ok]\<close>)
next
  case (S_Read k)
  then show ?thesis using st by (intro answer_ok_resume [OF ok]) (auto simp: server_step_def)
next
  case S_FirstRead
  then show ?thesis using st by (intro answer_ok_resume [OF ok, of _ S_Loop]) (auto simp: server_step_def)
next
  case S_Resume
  then show ?thesis using st by (intro answer_ok_resume [OF ok, of _ S_Got]) (auto simp: server_step_def)
next
  case (S_Ret r k)
  with st answer_ok_move(1) [OF ok, of "server_after k"] answer_ok_finish(2) [OF ok] show ?thesis
    by (auto simp: server_step_def split: if_splits)
next
  case S_Mark
  with st have "w' = w\<lparr>ep_pc := S_Tell, ep_time := 0\<rparr>" by (simp add: server_step_def)
  with S_Mark answer_ok_move(2) [OF ok] show ?thesis by simp
next
  case S_Tell
  with st answer_ok_move(1) [OF ok] show ?thesis by (auto simp: server_step_def elim!: ep_tell_cases)
next
  case S_Unmark
  with st answer_ok_move(1) [OF ok] show ?thesis by (auto simp: server_step_def)
next
  case S_Wait
  with st answer_ok_receive [OF ok] show ?thesis by (auto simp: server_step_def)
next
  case S_Loop
  with st ok answer_ok_finish(2) [OF ok] show ?thesis by (auto simp: server_step_def answer_ok_def split: if_splits)
next
  case S_Got
  with st ok show ?thesis
    by (cases "ep_bytes w = 0") (auto simp: server_step_def answer_ok_def fill_buffer_def reply_text_def)
next
  case S_Reply
  with st ok show ?thesis by (auto simp: server_step_def answer_ok_def ep_sendto_def)
next
  case S_Start
  with st ok show ?thesis by (auto simp: server_step_def answer_ok_def)
next
  case S_Exited
  with st show ?thesis by (simp add: server_step_def)
qed

lemma answer_ok_reachable:
  assumes tbl: "server_table_ok tbl" and r: "server_reachable advs tbl stale y"
  shows "answer_ok stale (wk y)"
proof (rule reachable_worker [OF r, of "answer_ok stale"])
  show "answer_ok stale (server_init stale)" by (simp add: server_init_def answer_ok_def)
next
  fix s w e s' w'
  assume "answer_ok stale w" "server_worker tbl s w e s' w'"
  then show "answer_ok stale w'" using answer_ok_step [OF tbl] unfolding server_worker_def by blast
qed

text \<open>The server has the properties of every worker of the protocol.\<close>

lemma server_one_message:
  assumes "server_table_ok tbl" and "server_reachable advs tbl stale y" and "advs \<subseteq> valid_advances"
  shows "holds_one (m2t (sh y)) \<and> holds_one (t2m (sh y)) \<and> (m2t (sh y) = [] \<or> t2m (sh y) = [])"
  using sv.one_message [of tbl "server_init stale" advs y] assms by blast

lemma server_time_accounted:
  assumes "server_table_ok tbl" and "server_reachable advs tbl stale y" and "advs \<subseteq> valid_advances"
    and "m_pc (mn y) = M_Ack \<or> m_pc (mn y) = M_Done"
  shows "m_elapsed (mn y) = word_of_int (charged y + forfeited y + waited y)"
  using sv.time_accounted [of tbl "server_init stale" advs y] assms by blast

lemma server_no_deadlock:
  assumes "server_table_ok tbl"
    and "reachable advs (server_reliable tbl) (\<lambda>w. server_phase w = W_Exited) (server_init stale) y"
    and "advs \<subseteq> valid_advances" and "0 \<notin> advs" and "adv \<in> advs" and "\<not> main_over (mn y)"
    and "\<not> (m_pc (mn y) = M_Join \<and> server_phase (wk y) = W_Parked)"
  shows "\<exists>y'. sys_step advs (server_reliable tbl) (\<lambda>w. server_phase w = W_Exited) y y' \<and> y' \<noteq> y"
  using sr.no_deadlock [of tbl "server_init stale" advs y adv] assms by blast

end
