(* ===== verification/Traffic_Net.thy ===== *)
theory Traffic_Net
  imports Traffic_Client Traffic_Server
begin

text \<open>
  The experiment of client and server: both threads with their main threads, each under its own
  commands, and the network between them. Datagrams between the two keep their order, others are
  ignored; the network can lose datagrams, and \<open>recvfrom\<close> does not fail.
\<close>

subsection \<open>The network\<close>

text \<open>\<open>up\<close> goes to the server, \<open>down\<close> to the client; each with the address it comes from.\<close>

record net =
  nc :: "client sys"
  ns :: "server sys"
  up :: "udp_datagram list"
  down :: "udp_datagram list"
  lost :: nat

text \<open>What the network carries from \<open>src\<close> to \<open>dst\<close> of what \<open>sendto\<close> was given.\<close>

definition carried :: "sock_addr \<Rightarrow> sock_addr \<Rightarrow> udp_datagram list \<Rightarrow> udp_datagram list" where
  "carried src dst out = map (\<lambda>d. (src, snd d)) (filter (\<lambda>d. fst d = dst) out)"

text \<open>What \<open>recvfrom\<close> makes of a datagram.\<close>

definition received :: "udp_datagram \<Rightarrow> udp_datagram option" where
  "received d = Some (fst d, take BUF_SIZE (snd d))"

abbreviation (input) client_ended :: "client \<Rightarrow> bool" where "client_ended \<equiv> \<lambda>w. client_phase w = W_Exited"
abbreviation (input) server_ended :: "server \<Rightarrow> bool" where "server_ended \<equiv> \<lambda>w. server_phase w = W_Exited"

inductive net_step ::
  "int set \<Rightarrow> func_times \<Rightarrow> func_times \<Rightarrow> sock_addr \<Rightarrow> sock_addr \<Rightarrow> net \<Rightarrow> net \<Rightarrow> bool"
  for advs :: "int set" and ct :: func_times and stbl :: func_times and ca :: sock_addr and sa :: sock_addr where
  client_acts: "sys_step advs (client_worker ct) client_ended (nc y) c \<Longrightarrow>
    ep_got (wk c) = ep_got (wk (nc y)) @ map received ins \<Longrightarrow> down y = ins @ rest \<Longrightarrow>
    ep_sent (wk c) = ep_sent (wk (nc y)) @ outs \<Longrightarrow>
    net_step advs ct stbl ca sa y (y\<lparr>nc := c, down := rest, up := up y @ carried ca sa outs\<rparr>)"
| server_acts: "sys_step advs (server_worker stbl) server_ended (ns y) s \<Longrightarrow>
    ep_got (wk s) = ep_got (wk (ns y)) @ map received ins \<Longrightarrow> up y = ins @ rest \<Longrightarrow>
    ep_sent (wk s) = ep_sent (wk (ns y)) @ outs \<Longrightarrow>
    net_step advs ct stbl ca sa y (y\<lparr>ns := s, up := rest, down := down y @ carried sa ca outs\<rparr>)"
| lose_up: "up y = xs @ d # zs \<Longrightarrow> net_step advs ct stbl ca sa y (y\<lparr>up := xs @ zs, lost := lost y + 1\<rparr>)"
| lose_down: "down y = xs @ d # zs \<Longrightarrow> net_step advs ct stbl ca sa y (y\<lparr>down := xs @ zs, lost := lost y + 1\<rparr>)"

inductive_cases net_stepE: "net_step advs ct stbl ca sa y y'"

definition net_init :: "sock_addr \<Rightarrow> sock_addr \<Rightarrow> net" where
  "net_init sa stale = \<lparr>nc = sys_init (client_init sa), ns = sys_init (server_init stale), up = [], down = [], lost = 0\<rparr>"

inductive net_reachable ::
  "int set \<Rightarrow> func_times \<Rightarrow> func_times \<Rightarrow> sock_addr \<Rightarrow> sock_addr \<Rightarrow> sock_addr \<Rightarrow> net \<Rightarrow> bool"
  for advs :: "int set" and ct :: func_times and stbl :: func_times and ca :: sock_addr and sa :: sock_addr
    and stale :: sock_addr where
  net_start: "net_reachable advs ct stbl ca sa stale (net_init sa stale)"
| net_more: "net_reachable advs ct stbl ca sa stale y \<Longrightarrow> net_step advs ct stbl ca sa y y' \<Longrightarrow>
    net_reachable advs ct stbl ca sa stale y'"

text \<open>Each side of a run of the network is a run of its own.\<close>

lemma net_sides:
  "net_reachable advs ct stbl ca sa stale y \<Longrightarrow>
   client_reachable advs ct sa (nc y) \<and> server_reachable advs stbl stale (ns y)"
proof (induction rule: net_reachable.induct)
  case net_start
  then show ?case by (simp add: net_init_def reachable.start)
next
  case (net_more y y')
  from net_more(2) show ?case
    by (rule net_stepE) (use net_more.IH in \<open>auto intro: reachable.more\<close>)
qed

subsection \<open>What is on its way\<close>

definition server_reply :: "sock_addr \<Rightarrow> udp_datagram" where
  "server_reply a = (a, reply_text)"

text \<open>
  Everything the client has got is a reply of the server, everything the server has got is not
  empty and from the client; each is somewhere.
\<close>

definition net_ok :: "sock_addr \<Rightarrow> sock_addr \<Rightarrow> net \<Rightarrow> bool" where
  "net_ok ca sa y \<longleftrightarrow>
     (let c = wk (nc y); s = wk (ns y)
      in set (ep_got c) \<subseteq> {Some (server_reply sa)} \<and> set (down y) \<subseteq> {server_reply sa} \<and>
         (\<forall>d \<in> set (up y). fst d = ca \<and> snd d \<noteq> []) \<and>
         (\<forall>r \<in> set (ep_got s). \<exists>b. r = Some (ca, b) \<and> b \<noteq> []) \<and>
         length (ep_sent c) + length (ep_sent s) =
           length (ep_got c) + length (ep_got s) + length (up y) + length (down y) + lost y \<and>
         (lost y = 0 \<longrightarrow> map received (carried ca sa (ep_sent c)) = ep_got s @ map received (up y)))"

lemma reply_text_ne: "reply_text \<noteq> []" "take BUF_SIZE reply_text = reply_text"
  by (simp_all add: reply_text_def BUF_SIZE_def)

lemma received_reply [simp]: "received (server_reply a) = Some (server_reply a)"
  by (simp add: received_def server_reply_def reply_text_ne)

text \<open>A client that gets replies of its server only sends the numbered requests to that server.\<close>

lemma count_replies_plain:
  "set rs \<subseteq> {Some (server_reply sa)} \<Longrightarrow> foldl count_reply (sa, k) rs = (sa, k + of_nat (length rs))"
proof (induction rs arbitrary: k)
  case (Cons r rs)
  moreover have "count_reply (sa, k) (Some (server_reply sa)) = (sa, k + 1)"
    by (simp add: count_reply_def server_reply_def reply_text_ne)
  ultimately show ?case by simp
qed simp

lemma requests_plain:
  "set rs \<subseteq> {Some (server_reply sa)} \<Longrightarrow>
   requests (sa, k) rs = map (\<lambda>i. (sa, request_text (k + of_nat (Suc i)) @ [NUL])) [0..<length rs]"
proof (induction rs rule: rev_induct)
  case (snoc r rs)
  then have "set rs \<subseteq> {Some (server_reply sa)}" by simp
  with snoc.IH count_replies_plain [OF this, of k] show ?case
    by (simp add: requests_snoc request_def ac_simps)
qed simp

lemma sent_shape:
  assumes ok: "script_ok sa w" and got: "set (ep_got w) \<subseteq> {Some (server_reply sa)}"
  shows "\<exists>n. ep_sent w = map (\<lambda>i. (sa, request_text (of_nat (Suc i)) @ [NUL])) [0..<n] \<and>
     length (ep_got w) \<le> n \<and> n \<le> Suc (length (ep_got w))"
proof -
  have "ep_sent w = requests (sa, 0) (ep_got w) \<or>
      ep_sent w = requests (sa, 0) (ep_got w) @ [request (foldl count_reply (sa, 0) (ep_got w))]"
    using ok by (auto simp: script_ok_def Let_def split: if_splits)
  then have "ep_sent w = map (\<lambda>i. (sa, request_text (of_nat (Suc i)) @ [NUL])) [0..<length (ep_got w)] \<or>
      ep_sent w = map (\<lambda>i. (sa, request_text (of_nat (Suc i)) @ [NUL])) [0..<Suc (length (ep_got w))]"
    using requests_plain [OF got, of 0] count_replies_plain [OF got, of 0] by (simp add: request_def add.commute)
  then show ?thesis by (metis le_Suc_eq le_refl)
qed

lemma answers_plain:
  assumes "\<forall>r \<in> set rs. \<exists>b. r = Some (ca, b) \<and> b \<noteq> []"
  shows "answers p rs = replicate (length rs) (server_reply ca)"
  using assms by (induction p rs rule: answers.induct) (auto simp: server_reply_def)

lemma sent_answers:
  assumes ok: "answer_ok stale w" and got: "\<forall>r \<in> set (ep_got w). \<exists>b. r = Some (ca, b) \<and> b \<noteq> []"
  shows "\<exists>n. ep_sent w = replicate n (server_reply ca) \<and> n \<le> length (ep_got w) \<and> length (ep_got w) \<le> Suc n"
proof -
  have "\<exists>d. replicate (length (ep_got w)) (server_reply ca) = ep_sent w @ d \<and> length d \<le> 1"
    using ok unfolding answer_ok_def answers_plain [OF got] by (auto split: if_splits)
  then obtain d where d: "replicate (length (ep_got w)) (server_reply ca) = ep_sent w @ d" "length d \<le> 1" by blast
  then have "length (ep_got w) = length (ep_sent w) + length d" by (metis length_append length_replicate)
  moreover have "\<forall>x \<in> set (ep_sent w). x = server_reply ca"
    using d(1) by (metis Un_iff in_set_replicate set_append)
  then have "ep_sent w = replicate (length (ep_sent w)) (server_reply ca)" by (simp add: replicate_length_same)
  ultimately show ?thesis using d(2) by (intro exI [of _ "length (ep_sent w)"]) simp
qed

lemma carried_simps [simp]:
  "carried src dst [] = []" "carried src dst (xs @ ys) = carried src dst xs @ carried src dst ys"
  by (simp_all add: carried_def)

lemma carried_all: "\<forall>d \<in> set out. fst d = dst \<Longrightarrow> carried src dst out = map (\<lambda>d. (src, snd d)) out"
  by (simp add: carried_def)

lemma received_datagram: "snd d \<noteq> [] \<Longrightarrow> \<exists>b. received d = Some (fst d, b) \<and> b \<noteq> []"
  by (simp add: received_def BUF_SIZE_def)

lemma net_ok_client:
  assumes ok: "net_ok ca sa y" and sc: "script_ok sa (wk c)"
    and st: "ep_got (wk c) = ep_got (wk (nc y)) @ map received ins" "down y = ins @ rest"
      "ep_sent (wk c) = ep_sent (wk (nc y)) @ outs"
  shows "net_ok ca sa (y\<lparr>nc := c, down := rest, up := up y @ carried ca sa outs\<rparr>)"
proof -
  from ok st(2) have "set ins \<subseteq> {server_reply sa}" by (simp add: net_ok_def Let_def)
  then have "set (map received ins) \<subseteq> {Some (server_reply sa)}" by auto
  with ok have got: "set (ep_got (wk c)) \<subseteq> {Some (server_reply sa)}" by (simp add: net_ok_def Let_def st(1))
  from sent_shape [OF sc got] have "\<forall>d \<in> set (ep_sent (wk c)). fst d = sa \<and> snd d \<noteq> []" by auto
  then have o: "\<forall>d \<in> set outs. fst d = sa \<and> snd d \<noteq> []" unfolding st(3) by simp
  then have "carried ca sa outs = map (\<lambda>d. (ca, snd d)) outs" by (simp add: carried_all)
  with ok o got show ?thesis by (auto simp: net_ok_def Let_def st)
qed

lemma net_ok_server:
  assumes ok: "net_ok ca sa y" and an: "answer_ok stale (wk s)"
    and st: "ep_got (wk s) = ep_got (wk (ns y)) @ map received ins" "up y = ins @ rest"
      "ep_sent (wk s) = ep_sent (wk (ns y)) @ outs"
  shows "net_ok ca sa (y\<lparr>ns := s, up := rest, down := down y @ carried sa ca outs\<rparr>)"
proof -
  from ok have u: "\<forall>d \<in> set (ins @ rest). fst d = ca \<and> snd d \<noteq> []"
    unfolding st(2) [symmetric] by (simp add: net_ok_def Let_def)
  have "\<forall>r \<in> set (map received ins). \<exists>b. r = Some (ca, b) \<and> b \<noteq> []"
  proof
    fix r assume "r \<in> set (map received ins)"
    then obtain d where d: "d \<in> set ins" "r = received d" by auto
    with u have "fst d = ca" "snd d \<noteq> []" by simp_all
    with received_datagram [of d] d(2) show "\<exists>b. r = Some (ca, b) \<and> b \<noteq> []" by simp
  qed
  with ok have got: "\<forall>r \<in> set (ep_got (wk s)). \<exists>b. r = Some (ca, b) \<and> b \<noteq> []"
    by (auto simp: net_ok_def Let_def st(1))
  from sent_answers [OF an got] have "set (ep_sent (wk s)) \<subseteq> {server_reply ca}" by auto
  then have o: "\<forall>d \<in> set outs. d = server_reply ca" unfolding st(3) by auto
  then have "carried sa ca outs = map (\<lambda>d. (sa, snd d)) outs" by (intro carried_all) (auto simp: server_reply_def)
  with o have "length (carried sa ca outs) = length outs" "set (carried sa ca outs) \<subseteq> {server_reply sa}"
    by (auto simp: server_reply_def)
  with ok u got show ?thesis by (auto simp: net_ok_def Let_def st)
qed

lemma net_ok_reachable:
  assumes ct: "client_table_ok ct" and stb: "server_table_ok stbl" and r: "net_reachable advs ct stbl ca sa stale y"
  shows "net_ok ca sa y"
  using r
proof (induction rule: net_reachable.induct)
  case net_start
  then show ?case by (simp add: net_init_def net_ok_def sys_init_def client_init_def server_init_def)
next
  case (net_more y y')
  from net_sides [OF net_reachable.net_more [OF net_more(1,2)]]
  have sides: "script_ok sa (wk (nc y'))" "answer_ok stale (wk (ns y'))"
    using script_ok_reachable [OF ct] answer_ok_reachable [OF stb] by blast+
  from net_more(2) show ?case
  proof (rule net_stepE)
    fix c ins rest outs
    assume "y' = y\<lparr>nc := c, down := rest, up := up y @ carried ca sa outs\<rparr>"
      "ep_got (wk c) = ep_got (wk (nc y)) @ map received ins" "down y = ins @ rest"
      "ep_sent (wk c) = ep_sent (wk (nc y)) @ outs"
    with net_ok_client [OF net_more.IH] sides(1) show ?thesis by simp
  next
    fix s ins rest outs
    assume "y' = y\<lparr>ns := s, up := rest, down := down y @ carried sa ca outs\<rparr>"
      "ep_got (wk s) = ep_got (wk (ns y)) @ map received ins" "up y = ins @ rest"
      "ep_sent (wk s) = ep_sent (wk (ns y)) @ outs"
    with net_ok_server [OF net_more.IH] sides(2) show ?thesis by simp
  qed (use net_more.IH in \<open>auto simp: net_ok_def Let_def\<close>)
qed

text \<open>A datagram is out only while its sender waits: at most one in all, on its way or lost.\<close>

lemma net_counts:
  assumes ok: "net_ok ca sa y" and c: "script_ok sa (wk (nc y))" and s: "answer_ok stale (wk (ns y))"
  shows "length (up y) + length (down y) + lost y \<le> 1"
    and "length (up y) + length (down y) + lost y = 1 \<Longrightarrow>
      length (ep_sent (wk (nc y))) = Suc (length (ep_got (wk (nc y)))) \<and>
      length (ep_sent (wk (ns y))) = length (ep_got (wk (ns y)))"
proof -
  from ok have sum: "length (ep_sent (wk (nc y))) + length (ep_sent (wk (ns y))) =
      length (ep_got (wk (nc y))) + length (ep_got (wk (ns y))) + length (up y) + length (down y) + lost y"
    by (simp add: net_ok_def Let_def)
  have gc: "set (ep_got (wk (nc y))) \<subseteq> {Some (server_reply sa)}"
    and gs: "\<forall>r \<in> set (ep_got (wk (ns y))). \<exists>b. r = Some (ca, b) \<and> b \<noteq> []"
    using ok by (simp_all add: net_ok_def Let_def)
  have "length (ep_sent (wk (nc y))) \<le> Suc (length (ep_got (wk (nc y))))"
    using sent_shape [OF c gc] by auto
  moreover have "length (ep_sent (wk (ns y))) \<le> length (ep_got (wk (ns y)))"
    using sent_answers [OF s gs] by auto
  ultimately show "length (up y) + length (down y) + lost y \<le> 1"
    "length (up y) + length (down y) + lost y = 1 \<Longrightarrow>
      length (ep_sent (wk (nc y))) = Suc (length (ep_got (wk (nc y)))) \<and>
      length (ep_sent (wk (ns y))) = length (ep_got (wk (ns y)))"
    using sum by linarith+
qed

text \<open>With a datagram lost, nobody receives or sends again.\<close>

lemma net_stalled_step:
  assumes ct: "client_table_ok ct" and stb: "server_table_ok stbl" and r: "net_reachable advs ct stbl ca sa stale y"
    and l: "0 < lost y" and st: "net_step advs ct stbl ca sa y y'"
  shows "ep_got (wk (nc y')) = ep_got (wk (nc y)) \<and> ep_sent (wk (nc y')) = ep_sent (wk (nc y)) \<and>
     ep_got (wk (ns y')) = ep_got (wk (ns y)) \<and> ep_sent (wk (ns y')) = ep_sent (wk (ns y)) \<and> lost y' = lost y"
proof -
  have inv: "net_ok ca sa z \<and> script_ok sa (wk (nc z)) \<and> answer_ok stale (wk (ns z))"
    if "net_reachable advs ct stbl ca sa stale z" for z
    using net_ok_reachable [OF ct stb that] net_sides [OF that]
      script_ok_reachable [OF ct] answer_ok_reachable [OF stb] by blast
  have r': "net_reachable advs ct stbl ca sa stale y'" using r st by (rule net_reachable.net_more)
  from inv [OF r] have n: "length (up y) + length (down y) + lost y \<le> 1" using net_counts(1) by blast
  with l have "length (up y) = 0" "length (down y) = 0" and e3: "lost y = 1" by linarith+
  then have e: "up y = []" "down y = []" "lost y = 1" by simp_all
  with inv [OF r] net_counts(2) have c: "length (ep_sent (wk (nc y))) = Suc (length (ep_got (wk (nc y))))"
    "length (ep_sent (wk (ns y))) = length (ep_got (wk (ns y)))" by fastforce+
  from inv [OF r'] have n': "length (up y') + length (down y') + lost y' \<le> 1" using net_counts(1) by blast
  have "lost y \<le> lost y'" using st by (rule net_stepE) auto
  with n' e(3) have l': "lost y' = 1" "length (up y') + length (down y') + lost y' = 1" by auto
  with inv [OF r'] net_counts(2) have c': "length (ep_sent (wk (nc y'))) = Suc (length (ep_got (wk (nc y'))))"
    "length (ep_sent (wk (ns y'))) = length (ep_got (wk (ns y')))" by fastforce+
  from st show ?thesis
    by (rule net_stepE) (use e c c' l' in auto)
qed

lemma net_stalled:
  assumes ct: "client_table_ok ct" and stb: "server_table_ok stbl" and r: "net_reachable advs ct stbl ca sa stale y"
    and l: "0 < lost y" and st: "(net_step advs ct stbl ca sa)\<^sup>*\<^sup>* y y'"
  shows "ep_got (wk (nc y')) = ep_got (wk (nc y)) \<and> ep_sent (wk (nc y')) = ep_sent (wk (nc y)) \<and>
     ep_got (wk (ns y')) = ep_got (wk (ns y)) \<and> ep_sent (wk (ns y')) = ep_sent (wk (ns y))"
proof -
  from st have "net_reachable advs ct stbl ca sa stale y' \<and> lost y' = lost y \<and>
     ep_got (wk (nc y')) = ep_got (wk (nc y)) \<and> ep_sent (wk (nc y')) = ep_sent (wk (nc y)) \<and>
     ep_got (wk (ns y')) = ep_got (wk (ns y)) \<and> ep_sent (wk (ns y')) = ep_sent (wk (ns y))"
  proof (induction rule: rtranclp_induct)
    case base
    with r show ?case by simp
  next
    case (step z z')
    then have z: "net_reachable advs ct stbl ca sa stale z" "0 < lost z" using l by simp_all
    from net_stalled_step [OF ct stb z step(2)] net_reachable.net_more [OF z(1) step(2)] step.IH show ?case by simp
  qed
  then show ?thesis by blast
qed

subsection \<open>Runs of the client\<close>

text \<open>A run of the client in which it receives nothing is a run of the network.\<close>

lemma client_play_net:
  assumes "client_play ct mvs (nc y) = Some c'" and "\<forall>mv \<in> set mvs. host_allowed advs mv"
    and "net_reachable advs ct stbl ca sa stale y" and "ep_got (wk c') = []" and "ep_got (wk (nc y)) = []"
    and "up y = carried ca sa (ep_sent (wk (nc y)))"
  shows "net_reachable advs ct stbl ca sa stale (y\<lparr>nc := c', up := carried ca sa (ep_sent (wk c'))\<rparr>)"
  using assms
proof (induction mvs arbitrary: y)
  case Nil
  then have "y\<lparr>nc := c', up := carried ca sa (ep_sent (wk c'))\<rparr> = y" by simp
  with Nil.prems(3) show ?case by metis
next
  case (Cons mv mvs)
  from Cons.prems(1) obtain c1 where c1: "client_move ct mv (nc y) = Some c1" "client_play ct mvs c1 = Some c'"
    by (auto split: bind_splits)
  from client_play_got [OF c1(2)] Cons.prems(4) have g: "ep_got (wk c1) = []" by auto
  from client_move_histories [OF c1(1)] obtain outs where o: "ep_sent (wk c1) = ep_sent (wk (nc y)) @ outs" by blast
  let ?y1 = "y\<lparr>nc := c1, up := carried ca sa (ep_sent (wk c1))\<rparr>"
  have "sys_step advs (client_worker ct) client_ended (nc y) c1"
    using client_move_step [OF c1(1)] Cons.prems(2) by simp
  from client_acts [OF this _ _ o, of "[]" "down y" stbl ca sa] g Cons.prems(5,6)
  have "net_step advs ct stbl ca sa y (y\<lparr>nc := c1, down := down y, up := up y @ carried ca sa outs\<rparr>)" by simp
  moreover have "y\<lparr>nc := c1, down := down y, up := up y @ carried ca sa outs\<rparr> = ?y1"
    using Cons.prems(6) o by simp
  ultimately have "net_step advs ct stbl ca sa y ?y1" by (simp only:)
  then have "net_reachable advs ct stbl ca sa stale ?y1" by (rule net_reachable.net_more [OF Cons.prems(3)])
  moreover have "client_play ct mvs (nc ?y1) = Some c'" "ep_got (wk (nc ?y1)) = []"
    "up ?y1 = carried ca sa (ep_sent (wk (nc ?y1)))" using c1(2) g by simp_all
  moreover have "\<forall>mv \<in> set mvs. host_allowed advs mv" using Cons.prems(2) by simp
  ultimately have "net_reachable advs ct stbl ca sa stale (?y1\<lparr>nc := c', up := carried ca sa (ep_sent (wk c'))\<rparr>)"
    using Cons.IH [of ?y1] Cons.prems(4) by blast
  then show ?case by simp
qed

subsection \<open>Properties\<close>

definition request_no :: "sock_addr \<Rightarrow> nat \<Rightarrow> udp_datagram" where
  "request_no a i = (a, request_text (of_nat (Suc i)) @ [NUL])"

lemma received_request [simp]: "received (request_no a i) = Some (request_no a i)"
  using request_text_ok(2) [of "of_nat (Suc i)"] by (simp add: received_def request_no_def)

lemma net_invs:
  assumes "client_table_ok ct" and "server_table_ok stbl" and "net_reachable advs ct stbl ca sa stale y"
  shows "net_ok ca sa y" "script_ok sa (wk (nc y))" "answer_ok stale (wk (ns y))"
  using net_ok_reachable [OF assms] net_sides [OF assms(3)]
    script_ok_reachable [OF assms(1)] answer_ok_reachable [OF assms(2)] by blast+

lemma prefix_map_upt: "map f [0..<n] = xs @ ys \<Longrightarrow> xs = map f [0..<length xs]"
proof -
  assume a: "map f [0..<n] = xs @ ys"
  then have "n = length xs + length ys" by (metis length_append length_map length_upt diff_zero)
  moreover from a have "xs = take (length xs) (map f [0..<n])" by simp
  ultimately show ?thesis by (simp add: take_map)
qed

lemma net_requests:
  assumes "client_table_ok ct" and "server_table_ok stbl" and "net_reachable advs ct stbl ca sa stale y"
  shows "\<exists>n. ep_sent (wk (nc y)) = map (request_no sa) [0..<n] \<and>
     length (ep_got (wk (nc y))) \<le> n \<and> n \<le> Suc (length (ep_got (wk (nc y)))) \<and>
     (lost y = 0 \<longrightarrow> ep_got (wk (ns y)) = map (\<lambda>i. Some (request_no ca i)) [0..<length (ep_got (wk (ns y)))])"
proof -
  note inv = net_invs [OF assms]
  have "set (ep_got (wk (nc y))) \<subseteq> {Some (server_reply sa)}" using inv(1) by (simp add: net_ok_def Let_def)
  from sent_shape [OF inv(2) this] obtain n where n: "ep_sent (wk (nc y)) = map (request_no sa) [0..<n]"
    "length (ep_got (wk (nc y))) \<le> n" "n \<le> Suc (length (ep_got (wk (nc y))))" by (auto simp: request_no_def [abs_def])
  have "carried ca sa (ep_sent (wk (nc y))) = map (request_no ca) [0..<n]"
    unfolding n(1) by (subst carried_all) (auto simp: request_no_def)
  then have "map received (carried ca sa (ep_sent (wk (nc y)))) = map (\<lambda>i. Some (request_no ca i)) [0..<n]"
    by (simp add: comp_def)
  moreover have "lost y = 0 \<longrightarrow> map received (carried ca sa (ep_sent (wk (nc y)))) = ep_got (wk (ns y)) @ map received (up y)"
    using inv(1) by (simp add: net_ok_def Let_def)
  ultimately have "map (\<lambda>i. Some (request_no ca i)) [0..<n] = ep_got (wk (ns y)) @ map received (up y)" if "lost y = 0"
    using that by simp
  then have "lost y = 0 \<longrightarrow>
      ep_got (wk (ns y)) = map (\<lambda>i. Some (request_no ca i)) [0..<length (ep_got (wk (ns y)))]"
    by (intro impI prefix_map_upt)
  with n show ?thesis by (intro exI [of _ n] conjI)
qed

definition demo_server_table :: func_times where
  "demo_server_table = (case server_func_times (take 3 demo_allocs) no_mem of Some tbl \<Rightarrow> tbl | None \<Rightarrow> undefined)"

lemma demo_server_table: "server_func_times (take 3 demo_allocs) no_mem = Some demo_server_table"
  "server_table_ok demo_server_table"
proof -
  have "allocs_for server_costs (take 3 demo_allocs) no_mem"
    by (simp add: allocs_for_def server_costs_def demo_allocs_def entry_avail_def entry_apart_def no_mem_def)
  from server_table [OF this] obtain tbl where "server_func_times (take 3 demo_allocs) no_mem = Some tbl"
    "server_table_ok tbl" by blast
  moreover from this have "demo_server_table = tbl" by (simp add: demo_server_table_def)
  ultimately show "server_func_times (take 3 demo_allocs) no_mem = Some demo_server_table"
    "server_table_ok demo_server_table" by simp_all
qed

lemma demo_net:
  "\<exists>y. net_reachable {100} demo_client_table demo_server_table ca sa stale y \<and> lost y = 0 \<and> ep_got (wk (ns y)) = [] \<and>
     (\<exists>b. ep_sent (wk (nc y)) = [(sa, b)] \<and> up y = [(ca, b)])"
proof -
  from request_run_ends [OF demo_client_table(2), of sa] obtain c b where
    c: "client_play demo_client_table request_run (sys_init (client_init sa)) = Some c" "ep_got (wk c) = []"
      "ep_sent (wk c) = [(sa, b)]" by blast
  let ?y = "net_init sa stale"
  have "net_reachable {100} demo_client_table demo_server_table ca sa stale
      (?y\<lparr>nc := c, up := carried ca sa (ep_sent (wk c))\<rparr>)"
    by (rule client_play_net [OF _ runs_allowed(1) net_reachable.net_start c(2)])
      (simp add: net_init_def c(1), simp_all add: net_init_def sys_init_def client_init_def)
  moreover have "carried ca sa [(sa, b)] = [(ca, b)]" by (simp add: carried_def)
  ultimately show ?thesis using c
    by (intro exI [of _ "?y\<lparr>nc := c, up := carried ca sa (ep_sent (wk c))\<rparr>"])
      (simp add: net_init_def sys_init_def server_init_def)
qed

text \<open>
  C11: In every interleaving of the four threads at most one datagram is on its way or lost. The
  client has sent the requests 1, 2, ... to the server, in order, at most one more than it has got
  replies, the server one reply of fixed content per request it has got, except perhaps the last;
  and as long as nothing is lost the server has got exactly the requests, in order.
\<close>

theorem net_in_order:
  assumes "client_table_ok ct" and "server_table_ok stbl" and "net_reachable advs ct stbl ca sa stale y"
  shows "length (up y) + length (down y) + lost y \<le> 1 \<and>
     (\<exists>n. ep_sent (wk (nc y)) = map (request_no sa) [0..<n] \<and>
        length (ep_got (wk (nc y))) \<le> n \<and> n \<le> Suc (length (ep_got (wk (nc y))))) \<and>
     (\<exists>n. ep_sent (wk (ns y)) = replicate n (server_reply ca) \<and>
        n \<le> length (ep_got (wk (ns y))) \<and> length (ep_got (wk (ns y))) \<le> Suc n) \<and>
     (lost y = 0 \<longrightarrow> ep_got (wk (ns y)) = map (\<lambda>i. Some (request_no ca i)) [0..<length (ep_got (wk (ns y)))])"
proof -
  note inv = net_invs [OF assms]
  have "\<forall>r \<in> set (ep_got (wk (ns y))). \<exists>b. r = Some (ca, b) \<and> b \<noteq> []"
    using inv(1) by (simp add: net_ok_def Let_def)
  from sent_answers [OF inv(3) this] net_requests [OF assms] net_counts(1) [OF inv] show ?thesis by blast
qed

theorem net_in_order_witness:
  "\<exists>y. net_reachable {100} demo_client_table demo_server_table (7, 4000) (1, 12000) (0, 0) y \<and>
     up y = [((7, 4000), ''REQUEST: 1'' @ [NUL])] \<and> down y = []"
proof -
  from demo_net [of "(7, 4000)" "(1, 12000)" "(0, 0)"] obtain y b where
    y: "net_reachable {100} demo_client_table demo_server_table (7, 4000) (1, 12000) (0, 0) y"
      "ep_sent (wk (nc y)) = [((1, 12000), b)]" "up y = [((7, 4000), b)]" by blast
  from net_in_order [OF demo_client_table(2) demo_server_table(2) y(1)] y(3) have d: "down y = []"
    and n: "\<exists>n. ep_sent (wk (nc y)) = map (request_no (1, 12000)) [0..<n]" by auto
  from n y(2) obtain n where "[((1, 12000), b)] = map (request_no (1, 12000)) [0..<n]" by metis
  then have "b = request_text 1 @ [NUL]" by (cases n) (auto simp: request_no_def upt_conv_Cons)
  with y d show ?thesis by (auto simp: request_texts)
qed

text \<open>
  C12: One lost datagram ends the traffic for good: the client waits for a reply that nobody will
  send, without a timeout, and in no continuation does anybody receive or send again.
\<close>

theorem net_loss_stalls:
  assumes "client_table_ok ct" and "server_table_ok stbl" and "net_reachable advs ct stbl ca sa stale y"
    and "0 < lost y" and "(net_step advs ct stbl ca sa)\<^sup>*\<^sup>* y y'"
  shows "ep_got (wk (nc y')) = ep_got (wk (nc y)) \<and> ep_sent (wk (nc y')) = ep_sent (wk (nc y)) \<and>
     ep_got (wk (ns y')) = ep_got (wk (ns y)) \<and> ep_sent (wk (ns y')) = ep_sent (wk (ns y)) \<and>
     length (ep_sent (wk (nc y))) = Suc (length (ep_got (wk (nc y))))"
proof -
  from net_counts [OF net_invs [OF assms(1-3)]] assms(4)
  have "length (ep_sent (wk (nc y))) = Suc (length (ep_got (wk (nc y))))" by linarith
  with net_stalled [OF assms] show ?thesis by blast
qed

theorem net_loss_stalls_witness:
  "\<exists>y. net_reachable {100} demo_client_table demo_server_table (7, 4000) (1, 12000) (0, 0) y \<and> lost y = 1 \<and>
     (\<forall>y'. (net_step {100} demo_client_table demo_server_table (7, 4000) (1, 12000))\<^sup>*\<^sup>* y y' \<longrightarrow>
        length (ep_sent (wk (nc y'))) = 1 \<and> ep_got (wk (ns y')) = [])"
proof -
  from demo_net [of "(7, 4000)" "(1, 12000)" "(0, 0)"] obtain y b where
    y: "net_reachable {100} demo_client_table demo_server_table (7, 4000) (1, 12000) (0, 0) y"
      "lost y = 0" "ep_got (wk (ns y)) = []" "ep_sent (wk (nc y)) = [((1, 12000), b)]" "up y = [] @ ((7, 4000), b) # []" by auto
  let ?y = "y\<lparr>up := [] @ [], lost := lost y + 1\<rparr>"
  have r: "net_reachable {100} demo_client_table demo_server_table (7, 4000) (1, 12000) (0, 0) ?y"
    by (rule net_reachable.net_more [OF y(1) lose_up [OF y(5)]])
  have "0 < lost ?y" by simp
  note stall = net_loss_stalls [OF demo_client_table(2) demo_server_table(2) r this]
  show ?thesis
  proof (intro exI [of _ ?y] conjI allI impI)
    show "lost ?y = 1" using y(2) by simp
  next
    fix y' assume "(net_step {100} demo_client_table demo_server_table (7, 4000) (1, 12000))\<^sup>*\<^sup>* ?y y'"
    from stall [OF this] y show "length (ep_sent (wk (nc y'))) = 1" "ep_got (wk (ns y')) = []" by simp_all
  qed (rule r)
qed

end
