(* ===== verification/Traffic_Plain.thy ===== *)
theory Traffic_Plain
  imports Traffic_Net
begin

text \<open>
  The same experiment without virtual time (\<open>test/client_n.c\<close>, \<open>test/server_n.c\<close>), and the proof that
  the one under virtual time refines it: whatever the programs with the stub exchange, those without
  it can exchange over the same network. The \<open>ep_time\<close> of an endpoint is not used here.
\<close>

subsection \<open>The client\<close>

datatype plain_client_pc = PC_Start | PC_Nap | PC_Fill | PC_Send | PC_Clear | PC_Recv | PC_Got

record plain_client = "plain_client_pc endpoint" +
  pc_server :: sock_addr
  pc_pkt_no :: "32 word"

definition plain_client_init :: "sock_addr \<Rightarrow> plain_client" where
  "plain_client_init dst = \<lparr>ep_pc = PC_Start, ep_time = 0, ep_open = False, ep_buf = replicate BUF_SIZE NUL,
     ep_bytes = 0, ep_got = [], ep_sent = [], pc_server = dst, pc_pkt_no = 0\<rparr>"

definition plain_client_step :: "host_env \<Rightarrow> plain_client \<Rightarrow> plain_client" where
  "plain_client_step e p =
     (case ep_pc p of
        PC_Start \<Rightarrow> p\<lparr>ep_pc := PC_Nap, ep_open := h_socket e\<rparr>
      | PC_Nap \<Rightarrow> p\<lparr>ep_pc := PC_Fill\<rparr>
      | PC_Fill \<Rightarrow> p\<lparr>ep_pc := PC_Send, ep_buf := buf_with (request_text (pc_pkt_no p + 1))\<rparr>
      | PC_Send \<Rightarrow>
          (let nBytes = length (c_str (ep_buf p)) + 1
           in ep_sendto (pc_server p) nBytes (p\<lparr>ep_bytes := int nBytes, ep_pc := PC_Clear\<rparr>))
      | PC_Clear \<Rightarrow> p\<lparr>ep_buf := replicate BUF_SIZE NUL, ep_pc := PC_Recv\<rparr>
      | PC_Recv \<Rightarrow>
          (case h_recv e of
             None \<Rightarrow> (ep_receive None p)\<lparr>ep_pc := PC_Got\<rparr>
           | Some (a, bytes) \<Rightarrow> (ep_receive (Some (a, bytes)) p)\<lparr>pc_server := a, ep_pc := PC_Got\<rparr>)
      | PC_Got \<Rightarrow>
          (if 0 < ep_bytes p then p\<lparr>pc_pkt_no := pc_pkt_no p + 1, ep_pc := PC_Fill\<rparr>
           else p\<lparr>ep_pc := PC_Fill\<rparr>))"

subsection \<open>The server\<close>

datatype plain_server_pc = PS_Start | PS_Wait | PS_Got | PS_Reply

record plain_server = "plain_server_pc endpoint" +
  ps_peer :: sock_addr

definition plain_server_init :: "sock_addr \<Rightarrow> plain_server" where
  "plain_server_init stale = \<lparr>ep_pc = PS_Start, ep_time = 0, ep_open = False, ep_buf = replicate BUF_SIZE NUL,
     ep_bytes = 0, ep_got = [], ep_sent = [], ps_peer = stale\<rparr>"

text \<open>
  The options of the server, without \<open>-n\<close>; the client has those of \<open>Endpoint\<close>.
\<close>

fun plain_server_options :: "(char \<times> string) list \<Rightarrow> string \<Rightarrow> string outcome" where
  "plain_server_options [] dst_IP = Returns dst_IP"
| "plain_server_options ((opt, optarg) # opts) dst_IP =
     (if opt = CHR ''h'' then Exits 1
      else if opt = CHR ''d''
      then (if length optarg < DST_IP_SIZE then plain_server_options opts optarg else Faults)
      else Exits 1)"

lemma plain_server_options:
  "CHR ''n'' \<notin> fst ` set opts \<Longrightarrow> plain_server_options opts dst_IP = traffic_options opts dst_IP"
  by (induction opts dst_IP rule: plain_server_options.induct) auto

text \<open>The buffer is not cleared before \<open>recvfrom\<close>: the last reply is still in it.\<close>

definition plain_server_step :: "host_env \<Rightarrow> plain_server \<Rightarrow> plain_server" where
  "plain_server_step e p =
     (case ep_pc p of
        PS_Start \<Rightarrow> p\<lparr>ep_pc := PS_Wait, ep_open := h_socket e\<rparr>
      | PS_Wait \<Rightarrow>
          (case h_recv e of
             None \<Rightarrow> (ep_receive None p)\<lparr>ep_pc := PS_Got\<rparr>
           | Some (a, bytes) \<Rightarrow> (ep_receive (Some (a, bytes)) p)\<lparr>ps_peer := a, ep_pc := PS_Got\<rparr>)
      | PS_Got \<Rightarrow>
          (if ep_bytes p \<noteq> 0
           then p\<lparr>ep_buf := fill_buffer (replicate BUF_SIZE NUL) (BUF_SIZE - 1), ep_pc := PS_Reply\<rparr>
           else p\<lparr>ep_pc := PS_Wait\<rparr>)
      | PS_Reply \<Rightarrow> ep_sendto (ps_peer p) (BUF_SIZE - 1) (p\<lparr>ep_pc := PS_Wait\<rparr>))"

subsection \<open>The network\<close>

record plain_net =
  pnc :: plain_client
  pns :: plain_server
  pup :: "udp_datagram list"
  pdown :: "udp_datagram list"
  plost :: nat

inductive plain_net_step :: "sock_addr \<Rightarrow> sock_addr \<Rightarrow> plain_net \<Rightarrow> plain_net \<Rightarrow> bool"
  for ca :: sock_addr and sa :: sock_addr where
  plain_client_acts: "c = plain_client_step e (pnc z) \<Longrightarrow>
    ep_got c = ep_got (pnc z) @ map received ins \<Longrightarrow> pdown z = ins @ rest \<Longrightarrow>
    ep_sent c = ep_sent (pnc z) @ outs \<Longrightarrow>
    plain_net_step ca sa z (z\<lparr>pnc := c, pdown := rest, pup := pup z @ carried ca sa outs\<rparr>)"
| plain_server_acts: "s = plain_server_step e (pns z) \<Longrightarrow>
    ep_got s = ep_got (pns z) @ map received ins \<Longrightarrow> pup z = ins @ rest \<Longrightarrow>
    ep_sent s = ep_sent (pns z) @ outs \<Longrightarrow>
    plain_net_step ca sa z (z\<lparr>pns := s, pup := rest, pdown := pdown z @ carried sa ca outs\<rparr>)"
| plain_lose_up: "pup z = xs @ d # zs \<Longrightarrow> plain_net_step ca sa z (z\<lparr>pup := xs @ zs, plost := plost z + 1\<rparr>)"
| plain_lose_down: "pdown z = xs @ d # zs \<Longrightarrow> plain_net_step ca sa z (z\<lparr>pdown := xs @ zs, plost := plost z + 1\<rparr>)"

definition plain_net_init :: "sock_addr \<Rightarrow> sock_addr \<Rightarrow> plain_net" where
  "plain_net_init sa stale =
     \<lparr>pnc = plain_client_init sa, pns = plain_server_init stale, pup = [], pdown = [], plost = 0\<rparr>"

subsection \<open>The client refines the plain client\<close>

text \<open>The point of the plain client at which the client is; the points of the stub are none of its own.\<close>

fun client_at :: "client_pc \<Rightarrow> plain_client_pc" where
  "client_at C_Start = PC_Start"
| "client_at C_FirstRead = PC_Nap"
| "client_at (C_Mark p) = (case p of Napping \<Rightarrow> PC_Nap | Receiving \<Rightarrow> PC_Recv)"
| "client_at (C_Tell p) = (case p of Napping \<Rightarrow> PC_Nap | Receiving \<Rightarrow> PC_Recv)"
| "client_at (C_Pause p) = (case p of Napping \<Rightarrow> PC_Nap | Receiving \<Rightarrow> PC_Recv)"
| "client_at (C_Unmark p) = (case p of Napping \<Rightarrow> PC_Fill | Receiving \<Rightarrow> PC_Got)"
| "client_at (C_Resume p) = (case p of Napping \<Rightarrow> PC_Fill | Receiving \<Rightarrow> PC_Got)"
| "client_at (C_Stub k) = (case k of CK_Filled \<Rightarrow> PC_Send | CK_Requested \<Rightarrow> PC_Clear | CK_Cleared \<Rightarrow> PC_Recv | CK_Counted \<Rightarrow> PC_Fill)"
| "client_at (C_Read k) = (case k of CK_Filled \<Rightarrow> PC_Send | CK_Requested \<Rightarrow> PC_Clear | CK_Cleared \<Rightarrow> PC_Recv | CK_Counted \<Rightarrow> PC_Fill)"
| "client_at (C_Ret r k) = (case k of CK_Filled \<Rightarrow> PC_Send | CK_Requested \<Rightarrow> PC_Clear | CK_Cleared \<Rightarrow> PC_Recv | CK_Counted \<Rightarrow> PC_Fill)"
| "client_at C_Send = PC_Send"
| "client_at C_Clear = PC_Clear"
| "client_at C_Got = PC_Got"
| "client_at C_Loop = PC_Fill"
| "client_at C_Exited = PC_Fill"

definition client_plain :: "client \<Rightarrow> plain_client" where
  "client_plain w = \<lparr>ep_pc = client_at (ep_pc w), ep_time = 0, ep_open = ep_open w, ep_buf = ep_buf w,
     ep_bytes = ep_bytes w, ep_got = ep_got w, ep_sent = ep_sent w, pc_server = cl_server w, pc_pkt_no = cl_pkt_no w\<rparr>"

definition client_sim :: "client \<Rightarrow> plain_client \<Rightarrow> bool" where
  "client_sim w p \<longleftrightarrow> ep_got p = ep_got w \<and> ep_sent p = ep_sent w \<and> (ep_pc w \<noteq> C_Exited \<longrightarrow> p = client_plain w)"

lemma client_at_after: "client_at (client_after k) = client_at (C_Read k)" "client_at (C_Ret r k) = client_at (C_Read k)"
  "client_at (C_Stub k) = client_at (C_Read k)"
  by (cases k; simp)+

lemma client_plain_move [simp]:
  "client_at pc = client_at (ep_pc w) \<Longrightarrow> client_plain (w\<lparr>ep_pc := pc\<rparr>) = client_plain w"
  "client_at pc = client_at (ep_pc w) \<Longrightarrow> client_plain (w\<lparr>ep_pc := pc, ep_time := t\<rparr>) = client_plain w"
  by (simp_all add: client_plain_def)

lemma client_plain_fields [simp]: "ep_got (client_plain w) = ep_got w" "ep_sent (client_plain w) = ep_sent w"
  by (simp_all add: client_plain_def)

lemma client_sim_finish: "client_sim w p \<Longrightarrow> client_sim (ep_finish C_Exited (w\<lparr>ep_time := t\<rparr>)) p"
  "client_sim w p \<Longrightarrow> client_sim (ep_finish C_Exited w) p"
  by (simp_all add: client_sim_def)

lemma client_sim_move:
  assumes "client_sim w p" and "ep_pc w \<noteq> C_Exited" and "client_at pc = client_at (ep_pc w)"
  shows "client_sim (w\<lparr>ep_pc := pc\<rparr>) p" and "client_sim (w\<lparr>ep_pc := pc, ep_time := t\<rparr>) p"
  using assms by (simp_all add: client_sim_def)

lemma client_sim_resume:
  assumes "client_sim w p" and "ep_pc w \<noteq> C_Exited" and "client_at pc = client_at (ep_pc w)"
    and "ep_resume q C_Exited (\<lambda>w. w\<lparr>ep_pc := pc\<rparr>) s w = Some (s', w')"
  shows "client_sim w' p"
  using assms(4)
proof (cases rule: ep_resume_cases)
  case (go v rest)
  have "w\<lparr>ep_time := v, ep_pc := pc\<rparr> = w\<lparr>ep_pc := pc, ep_time := v\<rparr>" by simp
  with go client_sim_move(2) [OF assms(1-3)] show ?thesis by simp
qed (simp add: client_sim_finish assms(1))

lemma client_sim_step:
  assumes tbl: "client_table_ok tbl" and sim: "client_sim w p" and st: "client_step tbl e s w = Some (s', w')"
  shows "client_sim w' p \<or> client_sim w' (plain_client_step e p)"
proof (cases "ep_pc w")
  case (C_Stub k)
  then have "ep_stub tbl e (client_call_name k) (\<lambda>r. C_Ret r k) (C_Read k) s w = Some (s', w')"
    using st by (simp add: client_step_def)
  then show ?thesis
    by (cases rule: ep_stub_cases [OF _ client_call_time [OF tbl, of k]])
      (use C_Stub client_sim_move [OF sim] client_at_after in auto)
next
  case (C_Read k)
  with st client_sim_resume [OF sim, of "client_after k"] client_at_after show ?thesis by (auto simp: client_step_def)
next
  case (C_Resume q)
  with st client_sim_resume [OF sim, of "case q of Napping \<Rightarrow> C_Loop | Receiving \<Rightarrow> C_Got"] show ?thesis
    by (cases q) (auto simp: client_step_def)
next
  case C_FirstRead
  with st client_sim_resume [OF sim, of "C_Mark Napping"] show ?thesis by (auto simp: client_step_def)
next
  case (C_Ret r k)
  with st client_sim_move [OF sim, of "client_after k"] client_sim_finish(2) [OF sim] client_at_after show ?thesis
    by (auto simp: client_step_def split: if_splits)
next
  case (C_Mark q)
  with st client_sim_move(2) [OF sim, of "C_Tell q" 0] show ?thesis by (auto simp: client_step_def)
next
  case (C_Tell q)
  with st client_sim_move(1) [OF sim, of "C_Pause q"] show ?thesis by (auto simp: client_step_def elim!: ep_tell_cases)
next
  case (C_Unmark q)
  with st client_sim_move(1) [OF sim, of "C_Resume q"] show ?thesis by (auto simp: client_step_def)
next
  case C_Exited
  with st show ?thesis by (simp add: client_step_def)
next
  case C_Loop
  with st sim client_sim_finish(2) [OF sim] show ?thesis
    by (auto simp: client_step_def client_sim_def client_plain_def plain_client_step_def split: if_splits)
next
  case (C_Pause q)
  with st sim have "client_sim w' (plain_client_step e p)"
    by (cases q) (auto simp: client_step_def client_sim_def client_plain_def plain_client_step_def client_receive_def
        ep_receive_def Let_def split: option.splits)
  then show ?thesis ..
qed (use st sim in \<open>auto simp: client_step_def client_sim_def client_plain_def plain_client_step_def ep_sendto_def Let_def
    split: if_splits\<close>)

subsection \<open>The server refines the plain server\<close>

fun server_at :: "server_pc \<Rightarrow> plain_server_pc" where
  "server_at S_Start = PS_Start"
| "server_at (S_Stub k) = (if k = SK_Filled then PS_Reply else PS_Wait)"
| "server_at (S_Read k) = (if k = SK_Filled then PS_Reply else PS_Wait)"
| "server_at (S_Ret r k) = (if k = SK_Filled then PS_Reply else PS_Wait)"
| "server_at S_Unmark = PS_Got"
| "server_at S_Resume = PS_Got"
| "server_at S_Got = PS_Got"
| "server_at S_Reply = PS_Reply"
| "server_at _ = PS_Wait"

text \<open>The buffers agree when a reply is in them.\<close>

definition server_plain :: "string \<Rightarrow> server \<Rightarrow> plain_server" where
  "server_plain buf w = \<lparr>ep_pc = server_at (ep_pc w), ep_time = 0, ep_open = ep_open w,
     ep_buf = (if server_at (ep_pc w) = PS_Reply then ep_buf w else buf),
     ep_bytes = ep_bytes w, ep_got = ep_got w, ep_sent = ep_sent w, ps_peer = sv_peer w\<rparr>"

definition server_sim :: "server \<Rightarrow> plain_server \<Rightarrow> bool" where
  "server_sim w p \<longleftrightarrow> ep_got p = ep_got w \<and> ep_sent p = ep_sent w \<and>
     (ep_pc w \<noteq> S_Exited \<longrightarrow> (\<exists>buf. p = server_plain buf w))"

lemma server_at_after: "server_at (server_after k) = server_at (S_Read k)" "server_at (S_Ret r k) = server_at (S_Read k)"
  "server_at (S_Stub k) = server_at (S_Read k)"
  by (cases k; simp)+

lemma server_plain_move [simp]:
  "server_at pc = server_at (ep_pc w) \<Longrightarrow> server_plain buf (w\<lparr>ep_pc := pc\<rparr>) = server_plain buf w"
  "server_at pc = server_at (ep_pc w) \<Longrightarrow> server_plain buf (w\<lparr>ep_pc := pc, ep_time := t\<rparr>) = server_plain buf w"
  by (simp_all add: server_plain_def)

lemma server_plain_fields [simp]: "ep_got (server_plain buf w) = ep_got w" "ep_sent (server_plain buf w) = ep_sent w"
  by (simp_all add: server_plain_def)

lemma server_sim_finish: "server_sim w p \<Longrightarrow> server_sim (ep_finish S_Exited (w\<lparr>ep_time := t\<rparr>)) p"
  "server_sim w p \<Longrightarrow> server_sim (ep_finish S_Exited w) p"
  by (simp_all add: server_sim_def)

lemma server_sim_move:
  assumes "server_sim w p" and "ep_pc w \<noteq> S_Exited" and "server_at pc = server_at (ep_pc w)"
  shows "server_sim (w\<lparr>ep_pc := pc\<rparr>) p" and "server_sim (w\<lparr>ep_pc := pc, ep_time := t\<rparr>) p"
  using assms by (simp_all add: server_sim_def)

lemma server_sim_resume:
  assumes "server_sim w p" and "ep_pc w \<noteq> S_Exited" and "server_at pc = server_at (ep_pc w)"
    and "ep_resume q S_Exited (\<lambda>w. w\<lparr>ep_pc := pc\<rparr>) s w = Some (s', w')"
  shows "server_sim w' p"
  using assms(4)
proof (cases rule: ep_resume_cases)
  case (go v rest)
  have "w\<lparr>ep_time := v, ep_pc := pc\<rparr> = w\<lparr>ep_pc := pc, ep_time := v\<rparr>" by simp
  with go server_sim_move(2) [OF assms(1-3)] show ?thesis by simp
qed (simp add: server_sim_finish assms(1))

lemma server_sim_step:
  assumes tbl: "server_table_ok tbl" and sim: "server_sim w p" and st: "server_step tbl e s w = Some (s', w')"
  shows "server_sim w' p \<or> server_sim w' (plain_server_step e p)"
proof (cases "ep_pc w")
  case (S_Stub k)
  then have "ep_stub tbl e (server_call_name k) (\<lambda>r. S_Ret r k) (S_Read k) s w = Some (s', w')"
    using st by (simp add: server_step_def)
  then show ?thesis
    by (cases rule: ep_stub_cases [OF _ server_call_time [OF tbl, of k]])
      (use S_Stub server_sim_move [OF sim] server_at_after in auto)
next
  case (S_Read k)
  with st server_sim_resume [OF sim, of "server_after k"] server_at_after show ?thesis by (auto simp: server_step_def)
next
  case S_Resume
  with st server_sim_resume [OF sim, of S_Got] show ?thesis by (auto simp: server_step_def)
next
  case S_FirstRead
  with st server_sim_resume [OF sim, of S_Loop] show ?thesis by (auto simp: server_step_def)
next
  case (S_Ret r k)
  with st server_sim_move [OF sim, of "server_after k"] server_sim_finish(2) [OF sim] server_at_after show ?thesis
    by (auto simp: server_step_def split: if_splits)
next
  case S_Mark
  with st server_sim_move(2) [OF sim, of S_Tell 0] show ?thesis by (auto simp: server_step_def)
next
  case S_Tell
  with st server_sim_move(1) [OF sim, of S_Wait] show ?thesis by (auto simp: server_step_def elim!: ep_tell_cases)
next
  case S_Unmark
  with st server_sim_move(1) [OF sim, of S_Resume] show ?thesis by (auto simp: server_step_def)
next
  case S_Exited
  with st show ?thesis by (simp add: server_step_def)
next
  case S_Loop
  with st sim server_sim_finish(2) [OF sim] have "server_sim w' p"
    by (auto simp: server_step_def server_sim_def server_plain_def split: if_splits)
  then show ?thesis ..
next
  case S_Wait
  with st sim have "server_sim w' (plain_server_step e p)"
    by (auto simp: server_step_def server_sim_def server_plain_def plain_server_step_def server_receive_def
        ep_receive_def Let_def split: option.splits)
  then show ?thesis ..
next
  case S_Got
  with st sim have "server_sim w' (plain_server_step e p)"
    by (cases "ep_bytes w = 0") (auto simp: server_step_def server_sim_def server_plain_def plain_server_step_def)
  then show ?thesis ..
qed (use st sim in \<open>auto simp: server_step_def server_sim_def server_plain_def plain_server_step_def ep_sendto_def\<close>)

subsection \<open>The experiment refines the plain experiment\<close>

definition net_sim :: "net \<Rightarrow> plain_net \<Rightarrow> bool" where
  "net_sim y z \<longleftrightarrow> client_sim (wk (nc y)) (pnc z) \<and> server_sim (wk (ns y)) (pns z) \<and>
     pup z = up y \<and> pdown z = down y \<and> plost z = lost y"

lemma net_sim_init: "net_sim (net_init sa stale) (plain_net_init sa stale)"
  by (simp add: net_sim_def net_init_def plain_net_init_def sys_init_def client_sim_def client_plain_def client_init_def
      plain_client_init_def server_sim_def server_plain_def server_init_def plain_server_init_def)

lemma carried_Nil [simp]: "carried a b [] = []"
  by (simp add: carried_def)

text \<open>A step of a thread's system is one of the thread or leaves the thread alone.\<close>

lemma client_sim_sys:
  assumes "client_table_ok ct" and "sys_step advs (client_worker ct) client_ended y c" and "client_sim (wk y) p"
  shows "client_sim (wk c) p \<or> (\<exists>e. client_sim (wk c) (plain_client_step e p))"
  using assms(2)
proof (rule sys_stepE)
  fix e s' w'
  assume c: "c = count e (y\<lparr>sh := s', wk := w'\<rparr>)" and "client_worker ct (sh y) (wk y) e s' w'"
  then obtain h where "client_step ct h (sh y) (wk y) = Some (s', w')" unfolding client_worker_def by blast
  from client_sim_step [OF assms(1,3) this] c show ?thesis by auto
qed (use assms(3) in auto)

lemma server_sim_sys:
  assumes "server_table_ok stbl" and "sys_step advs (server_worker stbl) server_ended y c" and "server_sim (wk y) p"
  shows "server_sim (wk c) p \<or> (\<exists>e. server_sim (wk c) (plain_server_step e p))"
  using assms(2)
proof (rule sys_stepE)
  fix e s' w'
  assume c: "c = count e (y\<lparr>sh := s', wk := w'\<rparr>)" and "server_worker stbl (sh y) (wk y) e s' w'"
  then obtain h where "server_step stbl h (sh y) (wk y) = Some (s', w')" unfolding server_worker_def by blast
  from server_sim_step [OF assms(1,3) this] c show ?thesis by auto
qed (use assms(3) in auto)

lemma net_sim_step:
  assumes ct: "client_table_ok ct" and stb: "server_table_ok stbl" and sim: "net_sim y z"
    and st: "net_step advs ct stbl ca sa y y'"
  shows "\<exists>z'. (plain_net_step ca sa)\<^sup>*\<^sup>* z z' \<and> net_sim y' z'"
  using st
proof (cases rule: net_step.cases)
  case (client_acts c ins rest outs)
  have cs: "client_sim (wk (nc y)) (pnc z)" and h: "ep_got (pnc z) = ep_got (wk (nc y))" "ep_sent (pnc z) = ep_sent (wk (nc y))"
    using sim by (simp_all add: net_sim_def client_sim_def)
  from client_sim_sys [OF ct client_acts(2) cs] show ?thesis
  proof
    assume a: "client_sim (wk c) (pnc z)"
    with client_acts(3,5) h have "ins = []" "outs = []" by (auto simp: client_sim_def)
    with a client_acts sim have "net_sim y' z" by (simp add: net_sim_def)
    then show ?thesis by blast
  next
    assume "\<exists>e. client_sim (wk c) (plain_client_step e (pnc z))"
    then obtain e where a: "client_sim (wk c) (plain_client_step e (pnc z))" by blast
    let ?z = "z\<lparr>pnc := plain_client_step e (pnc z), pdown := rest, pup := pup z @ carried ca sa outs\<rparr>"
    have "plain_net_step ca sa z ?z"
      by (rule plain_client_acts [OF refl]) (use a client_acts sim h in \<open>auto simp: net_sim_def client_sim_def\<close>)
    moreover have "net_sim y' ?z" using a client_acts sim by (simp add: net_sim_def)
    ultimately show ?thesis by blast
  qed
next
  case (server_acts s ins rest outs)
  have cs: "server_sim (wk (ns y)) (pns z)" and h: "ep_got (pns z) = ep_got (wk (ns y))" "ep_sent (pns z) = ep_sent (wk (ns y))"
    using sim by (simp_all add: net_sim_def server_sim_def)
  from server_sim_sys [OF stb server_acts(2) cs] show ?thesis
  proof
    assume a: "server_sim (wk s) (pns z)"
    with server_acts(3,5) h have "ins = []" "outs = []" by (auto simp: server_sim_def)
    with a server_acts sim have "net_sim y' z" by (simp add: net_sim_def)
    then show ?thesis by blast
  next
    assume "\<exists>e. server_sim (wk s) (plain_server_step e (pns z))"
    then obtain e where a: "server_sim (wk s) (plain_server_step e (pns z))" by blast
    let ?z = "z\<lparr>pns := plain_server_step e (pns z), pup := rest, pdown := pdown z @ carried sa ca outs\<rparr>"
    have "plain_net_step ca sa z ?z"
      by (rule plain_server_acts [OF refl]) (use a server_acts sim h in \<open>auto simp: net_sim_def server_sim_def\<close>)
    moreover have "net_sim y' ?z" using a server_acts sim by (simp add: net_sim_def)
    ultimately show ?thesis by blast
  qed
next
  case (lose_up xs d zs)
  with sim have "pup z = xs @ d # zs" by (simp add: net_sim_def)
  from plain_lose_up [OF this] have "(plain_net_step ca sa)\<^sup>*\<^sup>* z (z\<lparr>pup := xs @ zs, plost := plost z + 1\<rparr>)" by blast
  moreover have "net_sim y' (z\<lparr>pup := xs @ zs, plost := plost z + 1\<rparr>)" using lose_up sim by (simp add: net_sim_def)
  ultimately show ?thesis by blast
next
  case (lose_down xs d zs)
  with sim have "pdown z = xs @ d # zs" by (simp add: net_sim_def)
  from plain_lose_down [OF this] have "(plain_net_step ca sa)\<^sup>*\<^sup>* z (z\<lparr>pdown := xs @ zs, plost := plost z + 1\<rparr>)" by blast
  moreover have "net_sim y' (z\<lparr>pdown := xs @ zs, plost := plost z + 1\<rparr>)" using lose_down sim by (simp add: net_sim_def)
  ultimately show ?thesis by blast
qed

lemma net_sim_reachable:
  assumes "client_table_ok ct" and "server_table_ok stbl" and "net_reachable advs ct stbl ca sa stale y"
  shows "\<exists>z. (plain_net_step ca sa)\<^sup>*\<^sup>* (plain_net_init sa stale) z \<and> net_sim y z"
  using assms(3)
proof (induction rule: net_reachable.induct)
  case net_start
  show ?case using net_sim_init by blast
next
  case (net_more y y')
  then obtain z where z: "(plain_net_step ca sa)\<^sup>*\<^sup>* (plain_net_init sa stale) z" "net_sim y z" by blast
  from net_sim_step [OF assms(1,2) z(2) net_more(2)] z(1) show ?case by (meson rtranclp_trans)
qed

subsection \<open>Property\<close>

text \<open>
  C13: Virtual time does not change what the experiment can do: every state that client, server and
  network reach under virtual time, with whatever commands, is one that the programs without it
  reach from the start, with the same datagrams received, sent, on their way and lost.
\<close>

theorem experiment_refines_plain:
  assumes "client_table_ok ct" and "server_table_ok stbl" and "net_reachable advs ct stbl ca sa stale y"
  shows "\<exists>z. (plain_net_step ca sa)\<^sup>*\<^sup>* (plain_net_init sa stale) z \<and>
     ep_got (pnc z) = ep_got (wk (nc y)) \<and> ep_sent (pnc z) = ep_sent (wk (nc y)) \<and>
     ep_got (pns z) = ep_got (wk (ns y)) \<and> ep_sent (pns z) = ep_sent (wk (ns y)) \<and>
     pup z = up y \<and> pdown z = down y \<and> plost z = lost y"
  using net_sim_reachable [OF assms] unfolding net_sim_def client_sim_def server_sim_def by blast

theorem experiment_refines_plain_witness:
  "\<exists>z b. (plain_net_step (7, 4000) (1, 12000))\<^sup>*\<^sup>* (plain_net_init (1, 12000) (0, 0)) z \<and>
     ep_sent (pnc z) = [((1, 12000), b)] \<and> pup z = [((7, 4000), b)]"
proof -
  from demo_net [of "(7, 4000)" "(1, 12000)" "(0, 0)"] obtain y b where
    y: "net_reachable {100} demo_client_table demo_server_table (7, 4000) (1, 12000) (0, 0) y"
      "ep_sent (wk (nc y)) = [((1, 12000), b)]" "up y = [((7, 4000), b)]" by blast
  from experiment_refines_plain [OF demo_client_table(2) demo_server_table(2) y(1)] y(2,3) show ?thesis by auto
qed

end
