(* ===== verification/Udp_Sender.thy ===== *)
theory Udp_Sender
  imports Routing_Table Tunnel
begin

unbundle bit_operations_syntax

text \<open>
  The raw sender \<open>test/udp_client_n.c\<close>: it builds one UDP packet with Ethernet and IP headers and both
  checksums, for a hardware address from a static table, and sends it again and again. The packets
  are what the router forwards. The table is read like the routes of the router, with a hardware address
  in the place of the interface.
\<close>

subsection \<open>Options\<close>

text \<open>
  The loop over \<open>getopt\<close> of \<open>main\<close>; a path of 100 characters or more is cut and not terminated, and
  without \<open>-f\<close> it is never set.
\<close>

record sender_config =
  snd_if_name :: string
  snd_dst_IP :: string
  snd_arp_file_path :: "string option"

fun sender_options :: "(char \<times> string) list \<Rightarrow> sender_config \<Rightarrow> sender_config outcome" where
  "sender_options [] c = Returns c"
| "sender_options ((opt, optarg) # opts) c =
     (if opt = CHR ''i'' then sender_options opts (c\<lparr>snd_if_name := take (IFNAMSIZ - 1) optarg\<rparr>)
      else if opt = CHR ''d''
      then (if length optarg < 100 then sender_options opts (c\<lparr>snd_dst_IP := optarg\<rparr>) else Faults)
      else if opt = CHR ''f'' then sender_options opts (c\<lparr>snd_arp_file_path := Some (take 100 optarg)\<rparr>)
      else Exits 1)"

lemma sender_options_bounds:
  "sender_options opts c = Returns c' \<Longrightarrow> length (snd_if_name c) < IFNAMSIZ \<Longrightarrow> length (snd_dst_IP c) < 100 \<Longrightarrow>
   length (snd_if_name c') < IFNAMSIZ \<and> length (snd_dst_IP c') < 100"
  by (induction opts c rule: sender_options.induct) (auto split: if_splits)

subsection \<open>Checksums\<close>

text \<open>The loop of \<open>udp_csum\<close>: 16-bit numbers of the (little-endian) machine, an odd byte as it is.\<close>

fun csum_words :: "string \<Rightarrow> nat" where
  "csum_words (a # b # rest) = of_char a + 256 * of_char b + csum_words rest"
| "csum_words [a] = of_char a"
| "csum_words [] = 0"

definition csum_fold :: "nat \<Rightarrow> 16 word" where
  "csum_fold acc =
     (let acc = acc div 65536 + acc mod 65536;
          acc = acc + acc div 65536
      in NOT (of_nat acc))"

definition udp_csum :: "string \<Rightarrow> 16 word" where
  "udp_csum ptr = csum_fold (csum_words ptr)"

text \<open>\<open>csum\<close> (never called) takes a number of 16-bit words.\<close>

definition csum :: "string \<Rightarrow> nat \<Rightarrow> 16 word option" where
  "csum buf nwords = (if 2 * nwords \<le> length buf then Some (csum_fold (csum_words (take (2 * nwords) buf))) else None)"

text \<open>A 16-bit number in memory.\<close>

definition le16 :: "16 word \<Rightarrow> string" where
  "le16 w = [char_of (unat w), char_of (unat w div 256)]"

subsection \<open>The packet\<close>

record arp_entry =
  arp_address :: string
  arp_mac :: "int list"

text \<open>
  \<open>strtol\<close> with base 16 on a text: white space, a sign, an optional \<open>0x\<close>, then hexadecimal digits;
  cut off at the range of \<open>long\<close> and converted to \<open>int\<close>.
\<close>

definition hex_value :: "char \<Rightarrow> int option" where
  "hex_value c =
     (let n = of_char c :: nat
      in if 48 \<le> n \<and> n \<le> 57 then Some (int n - 48)
         else if 97 \<le> n \<and> n \<le> 102 then Some (int n - 87)
         else if 65 \<le> n \<and> n \<le> 70 then Some (int n - 55)
         else None)"

fun hex_digits :: "int \<Rightarrow> string \<Rightarrow> int" where
  "hex_digits n [] = n"
| "hex_digits n (c # cs) = (case hex_value c of None \<Rightarrow> n | Some d \<Rightarrow> hex_digits (16 * n + d) cs)"

fun skip_0x :: "string \<Rightarrow> string" where
  "skip_0x (z # x # h # cs) =
     (if z = CHR ''0'' \<and> (x = CHR ''x'' \<or> x = CHR ''X'') \<and> hex_value h \<noteq> None then h # cs else z # x # h # cs)"
| "skip_0x cs = cs"

definition strtol16 :: "string \<Rightarrow> int" where
  "strtol16 txt =
     (let v = (case dropWhile is_space txt of
                 [] \<Rightarrow> 0
               | c # cs \<Rightarrow>
                   if c = CHR ''-'' then - hex_digits 0 (skip_0x cs)
                   else if c = CHR ''+'' then hex_digits 0 (skip_0x cs)
                   else hex_digits 0 (skip_0x (c # cs)));
          v = max (- (2 ^ 63)) (min (2 ^ 63 - 1) v)
      in sint (word_of_int v :: 32 word))"

text \<open>
  The loop over the hardware address: each colon ends a number that starts two bytes before it, and
  the fifth is followed by the last one. The part of \<open>mac\<close> that is not reached keeps what \<open>malloc\<close>
  left there.
\<close>

function mac_loop :: "string \<Rightarrow> nat \<Rightarrow> int list \<Rightarrow> nat \<Rightarrow> (string \<times> int list) option" where
  "mac_loop tmp i mac j =
     (if length tmp \<le> i then None
      else if tmp ! i = NUL then Some (tmp, mac)
      else if tmp ! i = CHR '':''
      then (if i < 2 then None
            else (let tmp = tmp[i := NUL];
                      mac = mac[j := strtol16 (c_str (drop (i - 2) tmp))];
                      j = j + 1
                  in if j = 5 then Some (tmp, mac[j := strtol16 (c_str (drop (i + 1) tmp))])
                     else mac_loop tmp (i + 1) mac j))
      else mac_loop tmp (i + 1) mac j)"
  by pat_completeness auto
termination by (relation "measure (\<lambda>(tmp, i, _). length tmp - i)") auto

declare mac_loop.simps [simp del]

definition ARP_ADDR_SIZE :: nat where
  "ARP_ADDR_SIZE = 100"

text \<open>A line of the file, as in \<open>populate_routing_list\<close>; \<open>raw\<close> is the array \<open>mac\<close> as allocated.\<close>

definition parse_arp_line :: "int list \<Rightarrow> nat \<Rightarrow> string \<Rightarrow> arp_entry option option" where
  "parse_arp_line raw len line =
     (if len > 1
      then if len > BUFSIZE then None
           else (let tmp = take len (c_str line @ replicate len NUL) @ replicate (BUFSIZE - len) NUL;
                     (tmp, if_idx) = fold split_step [0..<len] (tmp, 0)
                 in case mac_loop tmp if_idx raw 0 of
                      None \<Rightarrow> None
                    | Some (tmp, mac) \<Rightarrow>
                        if length (c_str tmp) < ARP_ADDR_SIZE
                        then Some (Some \<lparr>arp_address = c_str tmp, arp_mac = mac\<rparr>)
                        else None)
      else Some None)"

type_synonym arp_alloc = "(addr \<times> int list) option \<times> (addr \<times> llist_elem) option"

fun populate_arp_loop ::
  "arp_alloc list \<Rightarrow> (nat \<times> string) list \<Rightarrow> arp_entry llist \<Rightarrow> arp_entry mem \<Rightarrow> (arp_entry llist \<times> arp_entry mem) outcome" where
  "populate_arp_loop allocs [] l m = Returns (l, m)"
| "populate_arp_loop [] (_ # _) l m = Faults"
| "populate_arp_loop ((e, c) # allocs) ((len, line) # lines) l m =
     (if \<not> len > 1 then populate_arp_loop allocs lines l m
      else (case e of
              None \<Rightarrow> Exits FAIL
            | Some (a, raw) \<Rightarrow>
                (case parse_arp_line raw len line of
                   None \<Rightarrow> Faults
                 | Some None \<Rightarrow> populate_arp_loop allocs lines l m
                 | Some (Some new_entry) \<Rightarrow>
                     (case llist_append c l (Some a) (m\<lparr>objs := (objs m)(a \<mapsto> new_entry)\<rparr>) of
                        None \<Rightarrow> Faults
                      | Some (_, l, m) \<Rightarrow> populate_arp_loop allocs lines l m))))"

text \<open>The stream and the line buffer stay allocated here too.\<close>

definition populate_arp_list ::
  "arp_alloc list \<Rightarrow> (nat \<times> string) list option \<Rightarrow> arp_entry llist \<Rightarrow> arp_entry mem \<Rightarrow>
   (arp_entry llist \<times> arp_entry mem) outcome" where
  "populate_arp_list allocs f l m =
     (case f of
        None \<Rightarrow> Exits FAIL
      | Some lines \<Rightarrow> populate_arp_loop allocs lines l (m\<lparr>blocks := Line_Buffer # Stream_Block # blocks m\<rparr>))"

partial_function (option) get_arp_entry :: "arp_entry mem \<Rightarrow> string \<Rightarrow> ptr \<Rightarrow> arp_entry option option" where
  "get_arp_entry m ip_addr head =
     (case head of
        None \<Rightarrow> Some None
      | Some a \<Rightarrow> do {
          n \<leftarrow> nodes m a;
          entry \<leftarrow> deref (objs m) (item n);
          if arp_address entry = ip_addr then Some (Some entry) else get_arp_entry m ip_addr (nxt n)
        })"

text \<open>The headers; \<open>check\<close> is the checksum as it lies in memory, addresses are four bytes.\<close>

definition ether_header :: "string \<Rightarrow> string \<Rightarrow> string" where
  "ether_header dhost shost = dhost @ shost @ htons 0x0800"

definition ip_header :: "nat \<Rightarrow> string \<Rightarrow> string \<Rightarrow> string \<Rightarrow> string" where
  "ip_header tot_len check saddr daddr =
     [CHR 0x45, NUL] @ htons tot_len @ htons 54321 @ [NUL, NUL, CHR 0x40, CHR 0x11] @ check @ saddr @ daddr"

definition udp_header :: "nat \<Rightarrow> string \<Rightarrow> string" where
  "udp_header len check = htons 3423 @ htons 12000 @ htons len @ check"

definition pseudo_header :: "string \<Rightarrow> string \<Rightarrow> nat \<Rightarrow> string" where
  "pseudo_header saddr daddr udp_length = saddr @ daddr @ [NUL, CHR 0x11] @ htons udp_length"

definition udp_data :: string where
  "udp_data = ''HelloWorld''"

definition MY_DEST_MAC :: "int list" where
  "MY_DEST_MAC = [0x00, 0x11, 0x22, 0x33, 0x44, 0x55]"

text \<open>
  \<open>construct_packet\<close>: the hardware and IP address of the interface, the destination as text, the
  table, and the conversion \<open>inet_addr\<close> of the library. The result is the buffer and \<open>tx_len\<close>.
\<close>

definition construct_packet ::
  "string \<Rightarrow> string \<Rightarrow> string \<Rightarrow> ptr \<Rightarrow> arp_entry mem \<Rightarrow> (string \<Rightarrow> string) \<Rightarrow> (string \<times> nat) option" where
  "construct_packet if_mac if_ip dst_IP arp_list m inet_addr = do {
     entry \<leftarrow> get_arp_entry m dst_IP arp_list;
     let dhost = map (\<lambda>x. char_of (nat (x mod 256))) (case entry of None \<Rightarrow> MY_DEST_MAC | Some e \<Rightarrow> arp_mac e);
         udp_len = 8 + length udp_data;
         tx_len = 14 + 20 + udp_len;
         daddr = inet_addr dst_IP;
         ip_check = udp_csum (ip_header (tx_len - 14) [NUL, NUL] if_ip daddr);
         pseudogram = pseudo_header if_ip daddr udp_len @ udp_header udp_len [NUL, NUL] @ udp_data;
         packet = ether_header dhost if_mac @ ip_header (tx_len - 14) (le16 ip_check) if_ip daddr @
           udp_header udp_len (le16 (udp_csum pseudogram)) @ udp_data
     in Some (packet @ replicate (BUFSIZE - tx_len) NUL, tx_len)
   }"

text \<open>\<open>send_next_packet\<close>: the hardware address and the bytes given to \<open>sendto\<close>, whose result is ignored.\<close>

definition send_next_packet :: "string \<Rightarrow> nat \<Rightarrow> (int \<times> string \<times> string) option" where
  "send_next_packet sendbuf tx_len =
     (if tx_len \<le> length sendbuf \<and> 6 \<le> length sendbuf then Some (1, take 6 sendbuf, take tx_len sendbuf) else None)"

subsection \<open>Arithmetic of the checksum\<close>

definition ones_sum :: "nat \<Rightarrow> nat" where
  "ones_sum s = (let t = s div 65536 + s mod 65536 in (t + t div 65536) mod 65536)"

lemma ones_sum:
  assumes "s < 2 ^ 32"
  shows "ones_sum s mod 65535 = s mod 65535" and "ones_sum s = 0 \<longleftrightarrow> s = 0" and "ones_sum s < 65536"
proof -
  define q r t where "q = s div 65536" and "r = s mod 65536" and "t = q + r"
  have q: "q < 65536" using assms by (simp add: q_def less_mult_imp_div_less)
  have r: "r < 65536" by (simp add: r_def)
  have s: "s = 65535 * q + t" by (simp add: q_def r_def t_def)
  have o: "ones_sum s = (t + t div 65536) mod 65536" by (simp add: ones_sum_def q_def r_def t_def Let_def)
  show "ones_sum s < 65536" by (simp add: o)
  have c: "ones_sum s = (if t < 65536 then t else t - 65535)"
  proof (cases "t < 65536")
    case False
    then have "t div 65536 = 1" using q r unfolding t_def by (intro div_nat_eqI) simp_all
    then have "ones_sum s = (t + 1) mod 65536" by (simp add: o)
    also have "\<dots> = (t + 1 - 65536) mod 65536" using False by (intro le_mod_geq) simp
    also have "\<dots> = t - 65535" using q r unfolding t_def by simp
    finally show ?thesis using False by simp
  qed (simp add: o)
  have "(t - 65535) mod 65535 = t mod 65535" if "\<not> t < 65536"
    using that by (simp add: le_mod_geq [of 65535 t])
  moreover have "s mod 65535 = t mod 65535" unfolding s by simp
  ultimately show "ones_sum s mod 65535 = s mod 65535" unfolding c by simp
  show "ones_sum s = 0 \<longleftrightarrow> s = 0" unfolding c using s by (cases "t < 65536") (auto simp: t_def)
qed

lemma csum_fold_unat: "unat (csum_fold s) = 65535 - ones_sum s"
proof -
  let ?t = "s div 65536 + s mod 65536"
  have "unat (NOT (of_nat n :: 16 word)) = 65535 - n mod 65536" for n
  proof -
    have "NOT (of_nat n :: 16 word) = - 1 - of_nat n" by (simp add: not_eq_complement)
    moreover have "unat (- 1 - of_nat n :: 16 word) = unat (- 1 :: 16 word) - unat (of_nat n :: 16 word)"
      by (rule unat_sub) simp
    moreover have "unat (- 1 :: 16 word) = 65535" by (simp add: unsigned_minus_1_eq_mask mask_eq_exp_minus_1)
    ultimately show ?thesis by (simp add: unat_of_nat)
  qed
  then show ?thesis unfolding csum_fold_def ones_sum_def Let_def by blast
qed

lemma csum_words_bound: "csum_words xs \<le> 65535 * length xs"
proof (induction xs rule: csum_words.induct)
  case (1 a b rest)
  have "csum_words (a # b # rest) \<le> 255 + 256 * 255 + 65535 * length rest"
    using 1 nat_of_char_less_256 [of a] nat_of_char_less_256 [of b] unfolding csum_words.simps by linarith
  then show ?case by simp
next
  case (2 a)
  have "(of_char a :: nat) \<le> 65535" using nat_of_char_less_256 [of a] by linarith
  then show ?case by simp
qed simp

lemma csum_words_append: "even (length xs) \<Longrightarrow> csum_words (xs @ ys) = csum_words xs + csum_words ys"
  by (induction xs rule: csum_words.induct) auto

lemma csum_words_le16: "csum_words (le16 w @ ys) = unat w + csum_words ys"
proof -
  have "unat w < 65536" using unsigned_less [of w, where ?'a = nat] by simp
  then have "unat w div 256 < 256" by (simp add: less_mult_imp_div_less)
  then show ?thesis by (simp add: le16_def of_char_of)
qed

text \<open>With its checksum in place a text of even offset sums up to a checksum of zero.\<close>

lemma udp_csum_check:
  assumes "even (length xs)" and "length (xs @ ys) < 30000"
  shows "udp_csum (xs @ le16 (udp_csum (xs @ [NUL, NUL] @ ys)) @ ys) = 0"
proof -
  define s where "s = csum_words xs + csum_words ys"
  have z: "csum_words (xs @ [NUL, NUL] @ ys) = s"
    using assms(1) by (simp add: csum_words_append s_def)
  have b: "s < 2 ^ 31" using csum_words_bound [of xs] csum_words_bound [of ys] assms(2) by (simp add: s_def)
  define c where "c = unat (udp_csum (xs @ [NUL, NUL] @ ys))"
  have c: "c = 65535 - ones_sum s" by (simp only: c_def udp_csum_def z csum_fold_unat)
  have w: "csum_words (xs @ le16 (udp_csum (xs @ [NUL, NUL] @ ys)) @ ys) = s + c"
    using assms(1) by (simp add: csum_words_append csum_words_le16 s_def c_def)
  have b': "s < 2 ^ 32" using b by simp
  note o = ones_sum [of s] and p = ones_sum [of "s + c"]
  have "s + c < 2 ^ 32" using b c by simp
  have "ones_sum (s + c) = 65535"
  proof -
    have "(s + c) mod 65535 = (ones_sum s + c) mod 65535"
      by (metis mod_add_left_eq o(1) [OF b'])
    also have "\<dots> = 0" using c o(3) b by simp
    finally have "ones_sum (s + c) mod 65535 = 0" using p(1) \<open>s + c < 2 ^ 32\<close> by simp
    then obtain k where k: "ones_sum (s + c) = 65535 * k" by (auto simp: mod_eq_0_iff_dvd elim: dvdE)
    moreover have "s + c \<noteq> 0" using c o(2) b by auto
    then have "ones_sum (s + c) \<noteq> 0" "ones_sum (s + c) < 65536" using p(2,3) \<open>s + c < 2 ^ 32\<close> by blast+
    ultimately have "0 < k" "k < 2" by simp_all
    with k show ?thesis by simp
  qed
  then have "unat (udp_csum (xs @ le16 (udp_csum (xs @ [NUL, NUL] @ ys)) @ ys)) = 0"
    unfolding udp_csum_def [of "xs @ le16 _ @ ys"] w by (simp add: csum_fold_unat)
  then show ?thesis by (simp add: unat_eq_zero)
qed

lemma csum_udp_csum: "2 * n \<le> length buf \<Longrightarrow> csum buf n = Some (udp_csum (take (2 * n) buf))"
  by (simp add: csum_def udp_csum_def)

subsection \<open>The table of hardware addresses\<close>

lemma get_arp_entry_seg:
  "dseg (nodes m) p pv as None lst \<Longrightarrow> \<forall>x \<in> set (items (nodes m) as). x \<noteq> None \<and> objs m (the x) \<noteq> None \<Longrightarrow>
   get_arp_entry m ip p =
     Some (find (\<lambda>e. arp_address e = ip) (map (\<lambda>p. the (objs m (the p))) (items (nodes m) as)))"
proof (induction as arbitrary: p pv)
  case Nil
  then show ?case by (simp add: get_arp_entry.simps)
next
  case (Cons a as)
  then obtain n t e where n: "p = Some a" "nodes m a = Some n" "dseg (nodes m) (nxt n) (Some a) as None lst"
    and t: "item n = Some t" "objs m t = Some e" by auto
  have "\<forall>x \<in> set (items (nodes m) as). x \<noteq> None \<and> objs m (the x) \<noteq> None" using Cons.prems(2) by simp
  from Cons.IH [OF n(3) this] n t show ?case
    by (simp add: get_arp_entry.simps [of m ip "Some a"] cell_simps)
qed

text \<open>The first entry of the address counts.\<close>

lemma get_arp_entry_ok:
  assumes "objs_ok l m"
  shows "get_arp_entry m ip (l_head l) = Some (find (\<lambda>e. arp_address e = ip) (obj_list l m))"
proof -
  have "list_ok (nodes m) l (llist_cells l m)" using assms by (simp add: objs_ok_def llist_invD)
  then have "dseg (nodes m) (l_head l) None (llist_cells l m) None (l_tail l)" by (simp add: list_ok_def)
  from get_arp_entry_seg [OF this, of ip] assms show ?thesis by (simp add: objs_ok_def obj_list_def llist_items_def)
qed

subsection \<open>The file of hardware addresses\<close>

text \<open>A byte as two hexadecimal digits, and an address with colons.\<close>

definition hex_pair :: "char \<times> char \<Rightarrow> bool" where
  "hex_pair p \<longleftrightarrow> hex_value (fst p) \<noteq> None \<and> hex_value (snd p) \<noteq> None"

definition pair_value :: "char \<times> char \<Rightarrow> int" where
  "pair_value p = 16 * the (hex_value (fst p)) + the (hex_value (snd p))"

fun mac_text :: "(char \<times> char) list \<Rightarrow> string" where
  "mac_text [] = []"
| "mac_text [p] = [fst p, snd p]"
| "mac_text (p # ps) = fst p # snd p # CHR '':'' # mac_text ps"

lemma hex_value_range: "hex_value c = Some v \<Longrightarrow> 0 \<le> v \<and> v < 16"
  by (auto simp: hex_value_def Let_def split: if_splits)

lemma hex_char: "hex_value c \<noteq> None \<Longrightarrow>
    c \<noteq> NUL \<and> c \<noteq> CHR '':'' \<and> c \<noteq> CHR ''-'' \<and> c \<noteq> CHR ''+'' \<and> \<not> is_space c \<and> \<not> blank c"
  by (auto simp: hex_value_def is_space_def blank_def Let_def split: if_splits)

lemma strtol16_pair:
  assumes "hex_pair (a, b)"
  shows "strtol16 [a, b] = pair_value (a, b)"
proof -
  from assms obtain x y where v: "hex_value a = Some x" "hex_value b = Some y" by (auto simp: hex_pair_def)
  have r: "0 \<le> x" "x < 16" "0 \<le> y" "y < 16" using v hex_value_range by auto
  have "- (2 ^ 63) \<le> 16 * x + y" "16 * x + y \<le> 2 ^ 63 - 1" using r by simp_all
  moreover have "sint (word_of_int (16 * x + y) :: 32 word) = 16 * x + y"
    using r by (intro sint_word_of_int_fits) (simp add: fits_int_def)
  ultimately show ?thesis
    using v hex_char [of a] by (simp add: strtol16_def pair_value_def Let_def min_def max_def)
qed

text \<open>The loop at the start of a byte that a colon ends.\<close>

lemma mac_loop_byte:
  assumes "hex_pair (a, b)" and "j < 4"
  shows "mac_loop (pre @ a # b # CHR '':'' # rest) (length pre) mac j =
    mac_loop (pre @ a # b # NUL # rest) (length pre + 3) (mac[j := pair_value (a, b)]) (j + 1)"
proof -
  have h: "a \<noteq> NUL" "a \<noteq> CHR '':''" "b \<noteq> NUL" "b \<noteq> CHR '':''"
    using assms(1) hex_char [of a] hex_char [of b] by (auto simp: hex_pair_def)
  let ?t = "pre @ a # b # CHR '':'' # rest"
  have n: "?t ! length pre = a" "?t ! (length pre + 1) = b" "?t ! (length pre + 2) = CHR '':''"
    by (simp_all add: nth_append)
  have u: "?t[length pre + 2 := NUL] = pre @ a # b # NUL # rest" by (simp add: list_update_append numeral_2_eq_2)
  have c: "c_str (drop (length pre) (pre @ a # b # NUL # rest)) = [a, b]" using h by (simp add: c_str_def)
  have "mac_loop ?t (length pre) mac j = mac_loop ?t (length pre + 1) mac j"
    using h n by (subst mac_loop.simps) simp
  also have "\<dots> = mac_loop ?t (length pre + 2) mac j" using h n by (subst mac_loop.simps) simp
  also have "\<dots> = mac_loop (pre @ a # b # NUL # rest) (length pre + 3) (mac[j := pair_value (a, b)]) (j + 1)"
    using n u c assms by (subst mac_loop.simps) (simp add: Let_def strtol16_pair numeral_3_eq_3)
  finally show ?thesis .
qed

lemma mac_loop_last:
  assumes "hex_pair (a, b)" and "hex_pair (c, d)"
  shows "mac_loop (pre @ a # b # CHR '':'' # c # d # NUL # rest) (length pre) mac 4 =
    Some (pre @ a # b # NUL # c # d # NUL # rest, mac[4 := pair_value (a, b), 5 := pair_value (c, d)])"
proof -
  have h: "a \<noteq> NUL" "a \<noteq> CHR '':''" "b \<noteq> NUL" "b \<noteq> CHR '':''" "c \<noteq> NUL" "d \<noteq> NUL"
    using assms hex_char [of a] hex_char [of b] hex_char [of c] hex_char [of d] by (auto simp: hex_pair_def)
  let ?t = "pre @ a # b # CHR '':'' # c # d # NUL # rest" and ?u = "pre @ a # b # NUL # c # d # NUL # rest"
  have n: "?t ! length pre = a" "?t ! (length pre + 1) = b" "?t ! (length pre + 2) = CHR '':''"
    by (simp_all add: nth_append)
  have u: "?t[length pre + 2 := NUL] = ?u" by (simp add: list_update_append numeral_2_eq_2)
  have e: "c_str (drop (length pre) ?u) = [a, b]" "c_str (drop (length pre + 3) ?u) = [c, d]"
    using h by (simp_all add: c_str_def numeral_3_eq_3)
  have "mac_loop ?t (length pre) mac 4 = mac_loop ?t (length pre + 1) mac 4"
    using h n by (subst mac_loop.simps) simp
  also have "\<dots> = mac_loop ?t (length pre + 2) mac 4" using h n by (subst mac_loop.simps) simp
  also have "\<dots> = Some (?u, mac[4 := pair_value (a, b), 5 := pair_value (c, d)])"
    using n u e assms by (subst mac_loop.simps) (simp add: Let_def strtol16_pair numeral_3_eq_3)
  finally show ?thesis .
qed

lemma mac_loop_text:
  assumes ps: "length ps = 6" "\<forall>p \<in> set ps. hex_pair p" and mac: "length mac = 6"
  shows "\<exists>mid. mac_loop (pre @ mac_text ps @ NUL # rest) (length pre) mac 0 = Some (pre @ mid, map pair_value ps)"
proof -
  from ps(1) obtain p0 p1 p2 p3 p4 p5 where p: "ps = [p0, p1, p2, p3, p4, p5]"
    by (auto simp: length_Suc_conv eval_nat_numeral)
  obtain a0 b0 a1 b1 a2 b2 a3 b3 a4 b4 a5 b5 where
    q: "p0 = (a0, b0)" "p1 = (a1, b1)" "p2 = (a2, b2)" "p3 = (a3, b3)" "p4 = (a4, b4)" "p5 = (a5, b5)"
    by (cases p0; cases p1; cases p2; cases p3; cases p4; cases p5) blast
  have h: "hex_pair (a0, b0)" "hex_pair (a1, b1)" "hex_pair (a2, b2)" "hex_pair (a3, b3)" "hex_pair (a4, b4)" "hex_pair (a5, b5)"
    using ps(2) unfolding p q by simp_all
  let ?q1 = "pre @ [a0, b0, NUL]" and ?q2 = "pre @ [a0, b0, NUL, a1, b1, NUL]"
    and ?q3 = "pre @ [a0, b0, NUL, a1, b1, NUL, a2, b2, NUL]" and ?q4 = "pre @ [a0, b0, NUL, a1, b1, NUL, a2, b2, NUL, a3, b3, NUL]"
  let ?v0 = "pair_value (a0, b0)" and ?v1 = "pair_value (a1, b1)" and ?v2 = "pair_value (a2, b2)" and ?v3 = "pair_value (a3, b3)"
  let ?r4 = "a4 # b4 # CHR '':'' # a5 # b5 # NUL # rest"
  let ?r3 = "a3 # b3 # CHR '':'' # ?r4"
  let ?r2 = "a2 # b2 # CHR '':'' # ?r3"
  let ?r1 = "a1 # b1 # CHR '':'' # ?r2"
  have "mac_loop (pre @ mac_text ps @ NUL # rest) (length pre) mac 0 = mac_loop (?q1 @ ?r1) (length ?q1) (mac[0 := ?v0]) 1"
    using mac_loop_byte [OF h(1), of 0 pre ?r1 mac] unfolding p q by (simp add: eval_nat_numeral)
  also have "\<dots> = mac_loop (?q2 @ ?r2) (length ?q2) (mac[0 := ?v0, 1 := ?v1]) 2"
    using mac_loop_byte [OF h(2), of 1 ?q1 ?r2] by (simp add: eval_nat_numeral)
  also have "\<dots> = mac_loop (?q3 @ ?r3) (length ?q3) (mac[0 := ?v0, 1 := ?v1, 2 := ?v2]) 3"
    using mac_loop_byte [OF h(3), of 2 ?q2 ?r3] by (simp add: eval_nat_numeral)
  also have "\<dots> = mac_loop (?q4 @ ?r4) (length ?q4) (mac[0 := ?v0, 1 := ?v1, 2 := ?v2, 3 := ?v3]) 4"
    using mac_loop_byte [OF h(4), of 3 ?q3 ?r4] by (simp add: eval_nat_numeral)
  also have "\<dots> = Some (?q4 @ a4 # b4 # NUL # a5 # b5 # NUL # rest,
      mac[0 := ?v0, 1 := ?v1, 2 := ?v2, 3 := ?v3, 4 := pair_value (a4, b4), 5 := pair_value (a5, b5)])"
    using mac_loop_last [OF h(5,6), of ?q4] by (simp add: eval_nat_numeral)
  also have "mac[0 := ?v0, 1 := ?v1, 2 := ?v2, 3 := ?v3, 4 := pair_value (a4, b4), 5 := pair_value (a5, b5)] = map pair_value ps"
    using mac unfolding p q by (auto simp: length_Suc_conv eval_nat_numeral)
  finally show ?thesis by simp
qed

lemma mac_text_plain:
  assumes "length ps = 6" "\<forall>p \<in> set ps. hex_pair p"
  shows "plain (mac_text ps)"
proof -
  have "set (mac_text qs) \<subseteq> insert CHR '':'' (fst ` set qs \<union> snd ` set qs)" for qs
    by (induction qs rule: mac_text.induct) auto
  from this [of ps] assms(2) show ?thesis
    using hex_char unfolding plain_def hex_pair_def by (fastforce simp: blank_def)
qed

text \<open>A line with an address and a hardware address is read as it is meant.\<close>

lemma parse_arp_line_ok:
  assumes line: "route_line line ip sep (mac_text ps)" and len: "length line < len" "len \<le> BUFSIZE"
    and ps: "length ps = 6" "\<forall>p \<in> set ps. hex_pair p" and "length ip < ARP_ADDR_SIZE" and raw: "length raw = 6"
  shows "parse_arp_line raw len line = Some (Some \<lparr>arp_address = ip, arp_mac = map pair_value ps\<rparr>)"
proof -
  have p: "plain ip" "plain (mac_text ps)" "sep \<noteq> []" "blank (hd sep)" using line by (simp_all add: route_line_def)
  then obtain b sep' where b: "sep = b # sep'" "blank b" by (cases sep) auto
  from split_route [OF line len] obtain nl z where nl: "nl = [] \<or> nl = [CHR 0x0A]"
    and f: "fold split_step [0..<len] (take len (c_str line @ replicate len NUL) @ replicate (BUFSIZE - len) NUL, 0) =
      (map unblank (ip @ sep @ mac_text ps @ nl @ NUL # replicate z NUL), length ip + length sep)" by blast
  define pre where "pre = ip @ NUL # map unblank sep'"
  have "\<exists>rest. map unblank (ip @ sep @ mac_text ps @ nl @ NUL # replicate z NUL) = pre @ mac_text ps @ NUL # rest"
    using nl p(1,2) b by (auto simp: pre_def map_unblank_plain unblank_def blank_chars)
  then obtain rest where t: "map unblank (ip @ sep @ mac_text ps @ nl @ NUL # replicate z NUL) = pre @ mac_text ps @ NUL # rest" ..
  have l: "length ip + length sep = length pre" by (simp add: pre_def b)
  from mac_loop_text [OF ps raw, of pre rest] obtain mid where
    m: "mac_loop (pre @ mac_text ps @ NUL # rest) (length pre) raw 0 = Some (pre @ mid, map pair_value ps)" by blast
  have c: "c_str (pre @ mid) = ip" using p(1) by (simp add: pre_def c_str_plain)
  have "1 < len" using line len p(3) by (cases sep) (auto simp: route_line_def)
  then show ?thesis using len(2) assms(6) unfolding parse_arp_line_def Let_def f t l by (simp add: m c)
qed

text \<open>The file as a list of addresses with their bytes, and the allocations for its lines.\<close>

definition arp_file :: "(nat \<times> string) list \<Rightarrow> (string \<times> (char \<times> char) list) list \<Rightarrow> bool" where
  "arp_file lines es \<longleftrightarrow>
     list_all2 (\<lambda>(len, line) (ip, ps). (\<exists>sep. route_line line ip sep (mac_text ps)) \<and> length line < len \<and>
       len \<le> BUFSIZE \<and> length ip < ARP_ADDR_SIZE \<and> length ps = 6 \<and> (\<forall>p \<in> set ps. hex_pair p)) lines es"

lemma arp_file_length: "arp_file lines es \<Longrightarrow> (ip, ps) \<in> set es \<Longrightarrow> length ps = 6"
  unfolding arp_file_def by (induction rule: list_all2_induct) auto

fun arp_allocs :: "(addr \<times> int list \<times> addr \<times> llist_elem) list \<Rightarrow> arp_alloc list" where
  "arp_allocs xs = map (\<lambda>(a, raw, c, junk). (Some (a, raw), Some (c, junk))) xs"

definition arp_allocs_ok :: "(addr \<times> int list \<times> addr \<times> llist_elem) list \<Rightarrow> 'o mem \<Rightarrow> bool" where
  "arp_allocs_ok xs m \<longleftrightarrow> fresh_allocs (map (\<lambda>(a, raw, c, junk). (a, c, junk)) xs) m \<and>
     (\<forall>(a, raw, c, junk) \<in> set xs. length raw = 6)"

definition arp_entries :: "(string \<times> (char \<times> char) list) list \<Rightarrow> arp_entry list" where
  "arp_entries es = map (\<lambda>(ip, ps). \<lparr>arp_address = ip, arp_mac = map pair_value ps\<rparr>) es"

lemma populate_arp_ok:
  "arp_file lines es \<Longrightarrow> length xs = length lines \<Longrightarrow> objs_ok l m \<Longrightarrow> arp_allocs_ok xs m \<Longrightarrow>
   \<exists>l' m'. populate_arp_loop (arp_allocs xs) lines l m = Returns (l', m') \<and> objs_ok l' m' \<and>
     obj_list l' m' = obj_list l m @ arp_entries es"
proof (induction lines arbitrary: es xs l m)
  case Nil
  then show ?case by (simp add: arp_file_def arp_entries_def)
next
  case (Cons ln lines)
  obtain len line where ln: "ln = (len, line)" by (cases ln)
  from Cons.prems(1) ln obtain ip ps es' sep where es: "es = (ip, ps) # es'" "arp_file lines es'"
    "route_line line ip sep (mac_text ps)" "length line < len" "len \<le> BUFSIZE" "length ip < ARP_ADDR_SIZE"
    "length ps = 6" "\<forall>p \<in> set ps. hex_pair p"
    by (auto simp: arp_file_def list_all2_Cons1)
  from Cons.prems(2) obtain a raw c junk xs' where xs: "xs = (a, raw, c, junk) # xs'" by (cases xs) auto
  let ?e = "\<lparr>arp_address = ip, arp_mac = map pair_value ps\<rparr>"
  from Cons.prems(4) xs have raw: "length raw = 6" and ac: "objs m a = None" "nodes m c = None"
    and f: "fresh_allocs ((a, c, junk) # map (\<lambda>(a, raw, c, junk). (a, c, junk)) xs') m"
    and raws: "\<forall>(a, raw, c, junk) \<in> set xs'. length raw = 6"
    by (auto simp: arp_allocs_ok_def fresh_allocs_def)
  from parse_arp_line_ok [OF es(3-5,7,8,6) raw] have p: "parse_arp_line raw len line = Some (Some ?e)" .
  then have len: "1 < len" by (auto simp: parse_arp_line_def split: if_splits)
  from append_obj [OF Cons.prems(3) ac, of junk ?e] obtain l' m' where
    r: "llist_append (Some (c, junk)) l (Some a) (m\<lparr>objs := (objs m)(a \<mapsto> ?e)\<rparr>) = Some (SUCCESS, l', m')"
      "objs_ok l' m'" "obj_list l' m' = obj_list l m @ [?e]"
      "dom (objs m') = insert a (dom (objs m))" "dom (nodes m') = insert c (dom (nodes m))" by auto
  have "arp_allocs_ok xs' m'" using fresh_allocs_step [OF f r(4,5)] raws by (simp add: arp_allocs_ok_def)
  with Cons.IH [OF es(2) _ r(2), of xs'] Cons.prems(2) xs obtain l2 m2 where
    "populate_arp_loop (arp_allocs xs') lines l' m' = Returns (l2, m2)" "objs_ok l2 m2"
    "obj_list l2 m2 = (obj_list l m @ [?e]) @ arp_entries es'" by (auto simp: r(3))
  with r(1) p es(1) ln xs len show ?case by (simp add: arp_entries_def)
qed

subsection \<open>The packet is valid\<close>

definition mac_of :: "(string \<times> (char \<times> char) list) list \<Rightarrow> string \<Rightarrow> int list" where
  "mac_of es ip = (case map_of es ip of None \<Rightarrow> MY_DEST_MAC | Some ps \<Rightarrow> map pair_value ps)"

lemma find_arp_entries:
  "(case find (\<lambda>e. arp_address e = ip) (arp_entries es) of None \<Rightarrow> MY_DEST_MAC | Some e \<Rightarrow> arp_mac e) = mac_of es ip"
  by (induction es) (auto simp: arp_entries_def mac_of_def)

lemma header_lengths [simp]:
  "length (le16 w) = 2" "length (ether_header d s) = length d + length s + 2"
  "length (ip_header n c s d) = 10 + length c + length s + length d" "length (udp_header n c) = 6 + length c"
  "length (pseudo_header s d n) = 4 + length s + length d"
  by (simp_all add: le16_def ether_header_def ip_header_def udp_header_def pseudo_header_def)

lemma ip_header_check: "length saddr = 4 \<Longrightarrow> length daddr = 4 \<Longrightarrow>
    udp_csum (ip_header n (le16 (udp_csum (ip_header n [NUL, NUL] saddr daddr))) saddr daddr) = 0"
  using udp_csum_check [of "[CHR 0x45, NUL] @ htons n @ htons 54321 @ [NUL, NUL, CHR 0x40, CHR 0x11]" "saddr @ daddr"]
  by (simp add: ip_header_def)

lemma udp_header_check: "length saddr = 4 \<Longrightarrow> length daddr = 4 \<Longrightarrow> length payload < 20000 \<Longrightarrow>
    udp_csum (pseudo_header saddr daddr n @ udp_header n (le16 (udp_csum (pseudo_header saddr daddr n @
      udp_header n [NUL, NUL] @ payload))) @ payload) = 0"
  using udp_csum_check [of "pseudo_header saddr daddr n @ htons 3423 @ htons 12000 @ htons n" payload]
  by (simp add: udp_header_def)

lemma construct_packet_layout:
  fixes if_mac if_ip dst_IP :: string and inet_addr :: "string \<Rightarrow> string"
  defines "d \<equiv> inet_addr dst_IP"
  assumes "get_arp_entry m dst_IP arp_list = Some r" and "length (case r of None \<Rightarrow> MY_DEST_MAC | Some e \<Rightarrow> arp_mac e) = 6"
    and "length if_mac = 6" and "length if_ip = 4" and "length d = 4"
  shows "\<exists>buf c1 c2. construct_packet if_mac if_ip dst_IP arp_list m inet_addr = Some (buf, 52) \<and> length buf = BUFSIZE \<and>
     length c1 = 2 \<and> length c2 = 2 \<and> buf = take 52 buf @ replicate (BUFSIZE - 52) NUL \<and>
     take 52 buf =
       ether_header (map (\<lambda>x. char_of (nat (x mod 256))) (case r of None \<Rightarrow> MY_DEST_MAC | Some e \<Rightarrow> arp_mac e)) if_mac @
       ip_header 38 c1 if_ip d @ udp_header 18 c2 @ udp_data \<and>
     udp_csum (ip_header 38 c1 if_ip d) = 0 \<and>
     udp_csum (pseudo_header if_ip d 18 @ udp_header 18 c2 @ udp_data) = 0"
proof -
  define mac where "mac = (case r of None \<Rightarrow> MY_DEST_MAC | Some e \<Rightarrow> arp_mac e)"
  define c1 where "c1 = le16 (udp_csum (ip_header 38 [NUL, NUL] if_ip d))"
  define c2 where "c2 = le16 (udp_csum (pseudo_header if_ip d 18 @ udp_header 18 [NUL, NUL] @ udp_data))"
  define P where "P = ether_header (map (\<lambda>x. char_of (nat (x mod 256))) mac) if_mac @
    ip_header 38 c1 if_ip d @ udp_header 18 c2 @ udp_data"
  have l: "length udp_data = 10" by (simp add: udp_data_def)
  have c: "length c1 = 2" "length c2 = 2" by (simp_all add: c1_def c2_def)
  have P: "length P = 52" using assms(3-6) c l by (simp add: P_def mac_def)
  have "construct_packet if_mac if_ip dst_IP arp_list m inet_addr = Some (P @ replicate 1948 NUL, 52)"
    unfolding construct_packet_def assms(2) Let_def l P_def c1_def c2_def d_def mac_def by simp
  moreover have "udp_csum (ip_header 38 c1 if_ip d) = 0"
    unfolding c1_def by (rule ip_header_check [OF assms(5,6)])
  moreover have "udp_csum (pseudo_header if_ip d 18 @ udp_header 18 c2 @ udp_data) = 0"
    unfolding c2_def by (rule udp_header_check [OF assms(5,6)]) (simp add: l)
  moreover have "take 52 (P @ replicate 1948 NUL) = P" "length (P @ replicate 1948 NUL) = BUFSIZE"
    "P @ replicate 1948 NUL = take 52 (P @ replicate 1948 NUL) @ replicate (BUFSIZE - 52) NUL" using P by simp_all
  ultimately show ?thesis using c unfolding mac_def [symmetric] P_def by blast
qed

text \<open>Where the parts of the packet lie.\<close>

lemma take_drop_take: "k + n \<le> N \<Longrightarrow> take n (drop k xs) = take n (drop k (take N xs))"
  by (simp add: drop_take)

lemma packet_parts:
  assumes "take 52 buf = ether_header dhost shost @ ip_header n c1 saddr [a, b, c, d] @ udp_header k c2 @ udp_data"
    and "length dhost = 6" and "length shost = 6" and "length saddr = 4" and "length c1 = 2" and "length c2 = 2"
  shows "take 6 buf = dhost" and "take 20 (drop 14 buf) = ip_header n c1 saddr [a, b, c, d]"
    and "take 8 (drop 26 buf) = saddr @ [a, b, c, d]" and "take 18 (drop 34 buf) = udp_header k c2 @ udp_data"
    and "take 2 (drop 16 buf) = htons n" and "take 2 (drop 38 buf) = htons k"
    and "dst_ip buf = Some (inet_ntoa a b c d)"
proof -
  have l: "length udp_data = 10" by (simp add: udp_data_def)
  note at = take_drop_take [where N = 52 and xs = buf, unfolded assms(1)]
  show "take 6 buf = dhost" using at [of 0 6] assms(2) by (simp add: ether_header_def)
  show "take 20 (drop 14 buf) = ip_header n c1 saddr [a, b, c, d]" using at [of 14 20] assms(2-6) by simp
  show "take 8 (drop 26 buf) = saddr @ [a, b, c, d]" using at [of 26 8] assms(2-6) by (simp add: ip_header_def)
  show "take 18 (drop 34 buf) = udp_header k c2 @ udp_data" using at [of 34 18] assms(2-6) l by simp
  show "take 2 (drop 16 buf) = htons n" using at [of 16 2] assms(2-6) by (simp add: ip_header_def)
  show "take 2 (drop 38 buf) = htons k" using at [of 38 2] assms(2-6) by (simp add: udp_header_def)
  have t: "take 4 (drop 30 buf) = [a, b, c, d]" using at [of 30 4] assms(2-6) by (simp add: ip_header_def)
  have len: "34 \<le> length buf"
    using arg_cong [OF assms(1), of length] assms(2-6) l by simp
  have "buf ! (30 + j) = [a, b, c, d] ! j" if "j < 4" for j
    using that len unfolding t [symmetric] by simp
  from this [of 0] this [of 1] this [of 2] this [of 3] show "dst_ip buf = Some (inet_ntoa a b c d)"
    unfolding dst_ip_defined [OF len] by (simp add: numeral_3_eq_3 numeral_2_eq_2)
qed

subsection \<open>Property\<close>

lemma sender_packet:
  assumes "arp_file lines es" and "length xs = length lines" and "arp_allocs_ok xs (no_mem :: arp_entry mem)"
    and "length if_mac = 6" and "length if_ip = 4" and "inet_addr (inet_ntoa a b c d) = [a, b, c, d]"
  shows "\<exists>l m buf. populate_arp_list (arp_allocs xs) (Some lines) llist_init no_mem = Returns (l, m) \<and>
     construct_packet if_mac if_ip (inet_ntoa a b c d) (l_head l) m inet_addr = Some (buf, 52) \<and>
     length buf = BUFSIZE \<and> buf = take 52 buf @ replicate (BUFSIZE - 52) NUL \<and> udp_csum (take 20 (drop 14 buf)) = 0 \<and>
     udp_csum (take 8 (drop 26 buf) @ [NUL, CHR 0x11] @ take 2 (drop 38 buf) @ take 18 (drop 34 buf)) = 0 \<and>
     ntohs (take 2 (drop 16 buf)) = 38 \<and> ntohs (take 2 (drop 38 buf)) = 18 \<and>
     take 6 buf = map (\<lambda>x. char_of (nat (x mod 256))) (mac_of es (inet_ntoa a b c d)) \<and>
     dst_ip buf = Some (inet_ntoa a b c d)"
proof -
  let ?m = "(no_mem :: arp_entry mem)\<lparr>blocks := Line_Buffer # Stream_Block # blocks (no_mem :: arp_entry mem)\<rparr>"
  have "arp_allocs_ok xs ?m" using assms(3) by (simp add: arp_allocs_ok_def fresh_allocs_def)
  from populate_arp_ok [OF assms(1,2) objs_ok_init(1) this] obtain l m where
    l: "populate_arp_list (arp_allocs xs) (Some lines) llist_init no_mem = Returns (l, m)" "objs_ok l m"
      "obj_list l m = arp_entries es" by (auto simp: populate_arp_list_def objs_ok_init)
  let ?r = "find (\<lambda>e. arp_address e = inet_ntoa a b c d) (obj_list l m)"
  have case_r: "(case ?r of None \<Rightarrow> MY_DEST_MAC | Some e \<Rightarrow> arp_mac e) = mac_of es (inet_ntoa a b c d)"
    unfolding l(3) by (rule find_arp_entries)
  have mac: "length (mac_of es (inet_ntoa a b c d)) = 6"
    using arp_file_length [OF assms(1) map_of_SomeD] by (auto simp: mac_of_def MY_DEST_MAC_def split: option.splits)
  from construct_packet_layout [OF get_arp_entry_ok [OF l(2), of "inet_ntoa a b c d"], unfolded case_r,
      OF mac assms(4,5), of inet_addr] assms(6)
  obtain buf c1 c2 where
    p: "construct_packet if_mac if_ip (inet_ntoa a b c d) (l_head l) m inet_addr = Some (buf, 52)" "length buf = BUFSIZE"
    and c: "length c1 = 2" "length c2 = 2" and pad: "buf = take 52 buf @ replicate (BUFSIZE - 52) NUL"
    and t: "take 52 buf = ether_header (map (\<lambda>x. char_of (nat (x mod 256))) (mac_of es (inet_ntoa a b c d))) if_mac @
        ip_header 38 c1 if_ip [a, b, c, d] @ udp_header 18 c2 @ udp_data"
    and z: "udp_csum (ip_header 38 c1 if_ip [a, b, c, d]) = 0"
      "udp_csum (pseudo_header if_ip [a, b, c, d] 18 @ udp_header 18 c2 @ udp_data) = 0"
    by auto
  from packet_parts [OF t _ assms(4,5) c] mac p z l(1) have
    "udp_csum (take 20 (drop 14 buf)) = 0"
    "udp_csum (take 8 (drop 26 buf) @ [NUL, CHR 0x11] @ take 2 (drop 38 buf) @ take 18 (drop 34 buf)) = 0"
    "ntohs (take 2 (drop 16 buf)) = 38" "ntohs (take 2 (drop 38 buf)) = 18"
    "take 6 buf = map (\<lambda>x. char_of (nat (x mod 256))) (mac_of es (inet_ntoa a b c d))"
    "dst_ip buf = Some (inet_ntoa a b c d)" by (simp_all add: pseudo_header_def ntohs_htons)
  with l(1) p pad show ?thesis by blast
qed

text \<open>
  C16: With a well-formed file of hardware addresses the sender builds, for every destination, a packet
  that is valid wherever it arrives: both checksums come out as zero (the one of UDP over the pseudo
  header of the addresses in the packet), the lengths are those of the parts, the hardware address is
  that of the first line for the destination, or the default, and the destination that the router
  looks up is the one that was asked for.
\<close>

theorem udp_packet_valid:
  assumes "arp_file lines es" and "length xs = length lines" and "arp_allocs_ok xs (no_mem :: arp_entry mem)"
    and "length if_mac = 6" and "length if_ip = 4" and "inet_addr (inet_ntoa a b c d) = [a, b, c, d]"
  shows "\<exists>l m buf. populate_arp_list (arp_allocs xs) (Some lines) llist_init no_mem = Returns (l, m) \<and>
     construct_packet if_mac if_ip (inet_ntoa a b c d) (l_head l) m inet_addr = Some (buf, 52) \<and>
     length buf = BUFSIZE \<and> udp_csum (take 20 (drop 14 buf)) = 0 \<and>
     udp_csum (take 8 (drop 26 buf) @ [NUL, CHR 0x11] @ take 2 (drop 38 buf) @ take 18 (drop 34 buf)) = 0 \<and>
     ntohs (take 2 (drop 16 buf)) = 38 \<and> ntohs (take 2 (drop 38 buf)) = 18 \<and>
     take 6 buf = map (\<lambda>x. char_of (nat (x mod 256))) (mac_of es (inet_ntoa a b c d)) \<and>
     dst_ip buf = Some (inet_ntoa a b c d)"
  using sender_packet [where inet_addr = inet_addr, OF assms] by blast

definition demo_arp_lines :: "(nat \<times> string) list" where
  "demo_arp_lines = [(120, ''10.0.0.1'' @ tab @ ''=>'' @ tab @ ''0e:29:f0:02:2f:e8'' @ [CHR 0x0A]),
     (120, ''10.0.0.2'' @ tab @ ''=>'' @ tab @ ''de:5c:3b:94:e3:6e'')]"

definition demo_arp :: "(string \<times> (char \<times> char) list) list" where
  "demo_arp = [(''10.0.0.1'', [(CHR ''0'', CHR ''e''), (CHR ''2'', CHR ''9''), (CHR ''f'', CHR ''0''),
       (CHR ''0'', CHR ''2''), (CHR ''2'', CHR ''f''), (CHR ''e'', CHR ''8'')]),
     (''10.0.0.2'', [(CHR ''d'', CHR ''e''), (CHR ''5'', CHR ''c''), (CHR ''3'', CHR ''b''),
       (CHR ''9'', CHR ''4''), (CHR ''e'', CHR ''3''), (CHR ''6'', CHR ''e'')])]"

lemma demo_arp_ok: "arp_file demo_arp_lines demo_arp"
proof -
  have h: "\<forall>p \<in> set (snd e). hex_pair p" if "e \<in> set demo_arp" for e
  proof -
    have "list_all (\<lambda>e. list_all hex_pair (snd e)) demo_arp" by code_simp
    with that show ?thesis by (auto simp: list_all_iff)
  qed
  have p: "plain (mac_text (snd e))" if "e \<in> set demo_arp" for e
    using that h [OF that] by (intro mac_text_plain) (auto simp: demo_arp_def)
  have "route_line (''10.0.0.1'' @ tab @ ''=>'' @ tab @ mac_text (snd (demo_arp ! 0)) @ [CHR 0x0A]) ''10.0.0.1''
      (tab @ ''=>'' @ tab) (mac_text (snd (demo_arp ! 0)))"
    unfolding route_line_def using demo_plain p [of "demo_arp ! 0"]
    by (simp add: tab_def blank_def separates_def demo_arp_def)
  moreover have "route_line (''10.0.0.2'' @ tab @ ''=>'' @ tab @ mac_text (snd (demo_arp ! 1))) ''10.0.0.2''
      (tab @ ''=>'' @ tab) (mac_text (snd (demo_arp ! 1)))"
    unfolding route_line_def using demo_plain p [of "demo_arp ! 1"]
    by (simp add: tab_def blank_def separates_def demo_arp_def)
  ultimately show ?thesis using h [of "demo_arp ! 0"] h [of "demo_arp ! 1"]
    by (auto simp: arp_file_def demo_arp_lines_def demo_arp_def tab_def ARP_ADDR_SIZE_def)
qed

theorem udp_packet_valid_witness:
  "\<exists>l m buf. populate_arp_list (arp_allocs [(11, replicate 6 0, 1, raw_cell), (12, replicate 6 0, 2, raw_cell)])
       (Some demo_arp_lines) llist_init no_mem = Returns (l, m) \<and>
     construct_packet (replicate 6 CHR ''m'') [CHR 0x0A, NUL, NUL, CHR 0x01] ''10.0.0.2'' (l_head l) m
       (\<lambda>s. if s = ''10.0.0.2'' then [CHR 0x0A, NUL, NUL, CHR 0x02] else replicate 4 CHR 0xFF) = Some (buf, 52) \<and>
     take 6 buf = [CHR 0xDE, CHR 0x5C, CHR 0x3B, CHR 0x94, CHR 0xE3, CHR 0x6E] \<and> dst_ip buf = Some ''10.0.0.2''"
proof -
  have a: "inet_ntoa CHR 0x0A NUL NUL CHR 0x02 = ''10.0.0.2''" by code_simp
  have m: "map (\<lambda>x. char_of (nat (x mod 256))) (mac_of demo_arp ''10.0.0.2'') =
      [CHR 0xDE, CHR 0x5C, CHR 0x3B, CHR 0x94, CHR 0xE3, CHR 0x6E]" by code_simp
  let ?addr = "\<lambda>s. if s = ''10.0.0.2'' then [CHR 0x0A, NUL, NUL, CHR 0x02] else replicate 4 CHR 0xFF"
  let ?xs = "[(11, replicate 6 0, 1, raw_cell), (12, replicate 6 0, 2, raw_cell)]"
  have h: "length ?xs = length demo_arp_lines" "arp_allocs_ok ?xs (no_mem :: arp_entry mem)"
    "length (replicate 6 CHR ''m'') = 6" "length [CHR 0x0A, NUL, NUL, CHR 0x01] = 4"
    "?addr (inet_ntoa CHR 0x0A NUL NUL CHR 0x02) = [CHR 0x0A, NUL, NUL, CHR 0x02]"
    by (simp_all add: a demo_arp_lines_def arp_allocs_ok_def fresh_allocs_def no_mem_def)
  from udp_packet_valid [where inet_addr = ?addr, OF demo_arp_ok h, unfolded a] m show ?thesis by metis
qed

end
