(* ===== verification/Packet_Test.thy ===== *)
theory Packet_Test
  imports Packet_Info Udp_Sender
begin

text \<open>
  The copy of the packet printer under \<open>test/\<close> (\<open>test/pkt_info.c\<close>): its \<open>ProcessPacket\<close> looks behind the
  Ethernet header and prints only the IP header of UDP packets; the printers are those of
  \<open>Packet_Info\<close>. What the two make of the packets of \<open>Udp_Sender\<close> is compared.
\<close>

definition ProcessPacket_eth :: "string \<Rightarrow> int \<Rightarrow> counters \<Rightarrow> (counters \<times> string) option" where
  "ProcessPacket_eth buf Size c = do {
     protocol \<leftarrow> byte_at buf 23;
     let c = c\<lparr>n_total := n_total c + 1\<rparr>;
     if protocol = 1 then Some (c\<lparr>n_icmp := n_icmp c + 1\<rparr>, [])
     else if protocol = 2 then Some (c\<lparr>n_igmp := n_igmp c + 1\<rparr>, [])
     else if protocol = 6 then Some (c\<lparr>n_tcp := n_tcp c + 1\<rparr>, [])
     else if protocol = 17
     then do {
       let c = c\<lparr>n_udp := n_udp c + 1\<rparr>;
       ip \<leftarrow> print_ip_header buf;
       Some (c, ip @ status_line c)
     }
     else Some (c\<lparr>n_others := n_others c + 1\<rparr>, [])
   }"

text \<open>Reading up to the end of the IP header is all it does, and every packet is counted once.\<close>

lemma ProcessPacket_eth_counts:
  assumes "34 \<le> length buf"
  shows "\<exists>c' t. ProcessPacket_eth buf Size c = Some (c', t) \<and> n_total c' = n_total c + 1 \<and>
     n_tcp c' = n_tcp c + of_bool (of_char (buf ! 23) = (6::nat)) \<and>
     n_udp c' = n_udp c + of_bool (of_char (buf ! 23) = (17::nat)) \<and>
     n_icmp c' = n_icmp c + of_bool (of_char (buf ! 23) = (1::nat)) \<and>
     n_igmp c' = n_igmp c + of_bool (of_char (buf ! 23) = (2::nat)) \<and>
     n_others c' = n_others c + of_bool (of_char (buf ! 23) \<notin> {1, 2, 6, 17 :: nat})"
proof -
  from print_ip_header_ok [OF assms] obtain ip where ip: "print_ip_header buf = Some ip" by blast
  have "byte_at buf 23 = Some (of_char (buf ! 23))" using assms by (simp add: byte_at_def at_def)
  with ip show ?thesis by (simp add: ProcessPacket_eth_def Let_def)
qed

text \<open>
  A packet of the sender counts as a UDP packet here; the printer of the router sorts it by the fourth byte of
  the sender's hardware address.
\<close>

lemma sender_packet_sorted:
  assumes "construct_packet if_mac if_ip dst_IP arp_list m inet_addr = Some (buf, n)"
    and "get_arp_entry m dst_IP arp_list = Some r" and "length (case r of None \<Rightarrow> MY_DEST_MAC | Some e \<Rightarrow> arp_mac e) = 6"
    and "length if_mac = 6" and "length if_ip = 4" and "length (inet_addr dst_IP) = 4"
  shows "\<exists>c' t. ProcessPacket_eth buf Size c = Some (c', t) \<and> n_udp c' = n_udp c + 1"
    and "ProcessPacket buf Size c = Some (c'', t'') \<Longrightarrow> n_udp c'' = n_udp c + of_bool (of_char (if_mac ! 3) = (17::nat))"
proof -
  from construct_packet_layout [where inet_addr = inet_addr, OF assms(2-6)] assms(1) obtain c1 c2 where
    len: "length buf = BUFSIZE" and c1: "length c1 = 2"
    and t: "take 52 buf =
       ether_header (map (\<lambda>x. char_of (nat (x mod 256))) (case r of None \<Rightarrow> MY_DEST_MAC | Some e \<Rightarrow> arp_mac e)) if_mac @
       ip_header 38 c1 if_ip (inet_addr dst_IP) @ udp_header 18 c2 @ udp_data" by auto
  have at: "buf ! k = take 52 buf ! k" if "k < 52" for k using that by simp
  have p: "buf ! 23 = CHR 0x11" "buf ! 9 = if_mac ! 3" using at [of 23] at [of 9] assms(3,4) c1
    unfolding t by (simp_all add: nth_append ip_header_def htons_def ether_header_def)
  from ProcessPacket_eth_counts [of buf Size c] len p(1)
  show "\<exists>c' t. ProcessPacket_eth buf Size c = Some (c', t) \<and> n_udp c' = n_udp c + 1" by auto
  assume "ProcessPacket buf Size c = Some (c'', t'')"
  from ProcessPacket_counts [OF this] len p(2)
  show "n_udp c'' = n_udp c + of_bool (of_char (if_mac ! 3) = (17::nat))" by (auto simp: byte_at_def at_def)
qed

end
