(* ===== verification/Sender_Router.thy ===== *)
theory Sender_Router
  imports Router_System Udp_Sender
begin

text \<open>
  The sender of \<open>Udp_Sender\<close> in front of the router: what the router under virtual time does with the
  packet that arrives again and again.
\<close>

lemma recv_padded: "buf = p @ replicate (BUFSIZE - length p) NUL \<Longrightarrow> length p \<le> BUFSIZE \<Longrightarrow> recv_buf (Some p) = buf"
  by (simp add: recv_buf_def)

lemma forwarded_replicate:
  assumes "get_dst_sock_idx (rt_routes R) (rt_mem R) buf (rt_names R) = Some (int i)"
  shows "forwarded R (replicate n (buf, sz)) = replicate n (i, buf, sz)"
  using assms by (induction n) (simp_all add: forwarded_def)

text \<open>A router that gets nothing but a packet with a route sends nothing but this packet.\<close>

lemma router_repeats:
  assumes "router_ok R" and "router_reachable advs R y" and "t_recvd (wk y) = replicate n (buf, sz)"
    and "get_dst_sock_idx (rt_routes R) (rt_mem R) buf (rt_names R) = Some (int i)"
  shows "\<exists>k. k \<le> n \<and> n \<le> Suc k \<and> t_sent (wk y) = replicate k (i, buf, sz)"
proof -
  from forward_ok_prefix [OF forward_ok_reachable [OF assms(1,2)]] obtain rs rest where
    r: "replicate n (buf, sz) = rs @ rest" "length rest \<le> 1" "t_sent (wk y) = forwarded R rs"
    unfolding assms(3) by blast
  then have rs: "rs = replicate (length rs) (buf, sz)"
    by (metis append_eq_append_conv_if append_take_drop_id take_replicate min_def length_replicate append_eq_conv_conj)
  have "n = length rs + length rest" using arg_cong [OF r(1), of length] by simp
  moreover have "t_sent (wk y) = replicate (length rs) (i, buf, sz)"
    unfolding r(3) by (subst rs) (rule forwarded_replicate [OF assms(4)])
  ultimately show ?thesis using r(2) by (intro exI [of _ "length rs"]) simp
qed

text \<open>
  C17: The packets of the sender come out of the router where its last route for their destination
  points, byte for byte as they were sent: in every state of a router that has received nothing else
  it has sent on every one of them but perhaps the last, all to that interface.
\<close>

theorem sender_through_router:
  assumes "arp_file lines es" and "length xs = length lines" and "arp_allocs_ok xs (no_mem :: arp_entry mem)"
    and "length if_mac = 6" and "length if_ip = 4" and "inet_addr (inet_ntoa a b c d) = [a, b, c, d]"
    and "router_ok R" and "distinct (rt_names R)" and "i < length (rt_names R)"
    and "map_of (rev (route_table (rt_routes R) (rt_mem R))) (inet_ntoa a b c d) = Some (rt_names R ! i)"
  shows "\<exists>l m buf p. populate_arp_list (arp_allocs xs) (Some lines) llist_init no_mem = Returns (l, m) \<and>
     construct_packet if_mac if_ip (inet_ntoa a b c d) (l_head l) m inet_addr = Some (buf, 52) \<and>
     send_next_packet buf 52 = Some (1, take 6 buf, p) \<and>
     (\<forall>advs y n. router_reachable advs R y \<and> t_recvd (wk y) = replicate n (recv_buf (Some p), recv_size (Some p)) \<longrightarrow>
        (\<exists>k. k \<le> n \<and> n \<le> Suc k \<and> t_sent (wk y) = replicate k (i, buf, 52)))"
proof -
  from sender_packet [where inet_addr = inet_addr, OF assms(1-6)] obtain l m buf where
    b: "populate_arp_list (arp_allocs xs) (Some lines) llist_init no_mem = Returns (l, m)"
      "construct_packet if_mac if_ip (inet_ntoa a b c d) (l_head l) m inet_addr = Some (buf, 52)"
      "length buf = BUFSIZE" "buf = take 52 buf @ replicate (BUFSIZE - 52) NUL" "dst_ip buf = Some (inet_ntoa a b c d)" by blast
  have "get_dst_sock_idx (rt_routes R) (rt_mem R) buf (rt_names R) = Some (int i)"
    using get_dst_sock_idx_ok [OF _ b(5), of "rt_routes R" "rt_mem R"] assms(7,10) find_index_nth [OF assms(8,9)]
    by (simp add: router_ok_def)
  moreover have "recv_buf (Some (take 52 buf)) = buf" using b(3,4) by (intro recv_padded) simp_all
  moreover have "recv_size (Some (take 52 buf)) = 52" using b(3) by (simp add: recv_size_def)
  ultimately have "\<exists>k. k \<le> n \<and> n \<le> Suc k \<and> t_sent (wk y) = replicate k (i, buf, 52)"
    if "router_reachable advs R y" "t_recvd (wk y) = replicate n (recv_buf (Some (take 52 buf)), recv_size (Some (take 52 buf)))"
    for advs y n
    using router_repeats [OF assms(7) that] by simp
  moreover have "send_next_packet buf 52 = Some (1, take 6 buf, take 52 buf)" using b(3) by (simp add: send_next_packet_def)
  ultimately show ?thesis using b(1,2) by blast
qed

theorem sender_through_router_witness:
  "\<exists>buf y. router_reachable {100, 200} demo_router y \<and> dst_ip buf = Some ''10.0.0.2'' \<and>
     t_sent (wk y) = [(1, buf, 52)]"
proof -
  have a: "inet_ntoa CHR 0x0A NUL NUL CHR 0x02 = ''10.0.0.2''" by code_simp
  let ?addr = "\<lambda>s. if s = ''10.0.0.2'' then [CHR 0x0A, NUL, NUL, CHR 0x02] else replicate 4 CHR 0xFF"
  let ?xs = "[(11, replicate 6 0, 1, raw_cell), (12, replicate 6 0, 2, raw_cell)]"
  let ?mac = "replicate 6 CHR ''m''" and ?ip = "[CHR 0x0A, NUL, NUL, CHR 0x01]"
  have h: "length ?xs = length demo_arp_lines" "arp_allocs_ok ?xs (no_mem :: arp_entry mem)"
    "length ?mac = 6" "length ?ip = 4" "?addr (inet_ntoa CHR 0x0A NUL NUL CHR 0x02) = [CHR 0x0A, NUL, NUL, CHR 0x02]"
    by (simp_all add: a demo_arp_lines_def arp_allocs_ok_def fresh_allocs_def no_mem_def)
  have R: "distinct (rt_names demo_router)" "1 < length (rt_names demo_router)"
    "map_of (rev (route_table (rt_routes demo_router) (rt_mem demo_router))) (inet_ntoa CHR 0x0A NUL NUL CHR 0x02) =
      Some (rt_names demo_router ! 1)"
    unfolding demo_router_ok(3,4) a by (simp_all add: demo_rs_def)
  from sender_through_router [where inet_addr = ?addr, OF demo_arp_ok h demo_router_ok(2) R] obtain l m buf p where
    b: "construct_packet ?mac ?ip (inet_ntoa CHR 0x0A NUL NUL CHR 0x02) (l_head l) m ?addr = Some (buf, 52)"
      "populate_arp_list (arp_allocs ?xs) (Some demo_arp_lines) llist_init no_mem = Returns (l, m)"
      "send_next_packet buf 52 = Some (1, take 6 buf, p)"
    and s: "\<And>advs y n. router_reachable advs demo_router y \<Longrightarrow> t_recvd (wk y) = replicate n (recv_buf (Some p), recv_size (Some p)) \<Longrightarrow>
        \<exists>k. k \<le> n \<and> n \<le> Suc k \<and> t_sent (wk y) = replicate k (1, buf, 52)" by blast
  from sender_packet [where inet_addr = ?addr, OF demo_arp_ok h] b(1,2) have
    d: "dst_ip buf = Some ''10.0.0.2''" "buf = take 52 buf @ replicate (BUFSIZE - 52) NUL" "length buf = BUFSIZE"
    unfolding a by auto
  have p: "p = take 52 buf" using b(3) by (simp add: send_next_packet_def split: if_splits)
  have rb: "recv_buf (Some p) = buf" unfolding p using d(2,3) by (intro recv_padded) simp_all
  have "get_dst_sock_idx (rt_routes demo_router) (rt_mem demo_router) (recv_buf (Some p)) (rt_names demo_router) = Some 1"
    using get_dst_sock_idx_ok [OF _ d(1), of "rt_routes demo_router" "rt_mem demo_router" "rt_names demo_router"]
      demo_router_ok R(3) unfolding rb a by (simp add: router_ok_def demo_rs_def)
  moreover have "p \<noteq> []" unfolding p using d(3) by auto
  ultimately obtain y where
    y: "play demo_router (packet_run p) (sys_init thread_init) = Some y"
      "t_recvd (wk y) = [(recv_buf (Some p), recv_size (Some p))]"
      "t_sent (wk y) = [(1, recv_buf (Some p), recv_size (Some p))]" using packet_run_routes by blast
  from run_reachable(3) [OF y(1)] have r: "router_reachable {100, 200} demo_router y" by blast
  from s [OF r, of 1] y(2) obtain k where k: "k \<le> 1" "t_sent (wk y) = replicate k (1, buf, 52)" by auto
  with y(3) have "t_sent (wk y) = [(1, buf, 52)]" by (cases k) auto
  with r d(1) show ?thesis by blast
qed

end
