(* ===== verification/Spec2Isabelle.thy ===== *)
theory Spec2Isabelle
  imports VT_Prelude C_Strings Linked_List Hash_Map TK_Command VT_Stub Round_Protocol Routing_Table
    Router_Thread Router_System Plain_Router Stream_IO Tunnel Packet_Info Sockets
    Endpoint Traffic_Client Traffic_Server Traffic_Net Traffic_Plain
    Udp_Sender Packet_Test Sender_Router
begin

text \<open>
  A model of the routing programs of VT_Mechanisms (\<open>src/src/routing\<close>) and proofs of what they do.

  The program. A software router forwards packets between the interfaces of an emulated host by a
  static table. In the version under virtual time (\<open>router_app_vt.c\<close> with \<open>utils.c\<close>) the main thread
  asks the TimeKeeper kernel module for the length of the next round, hands it to the forwarding
  thread through a pipe and waits for the report; the thread charges each of its calls to the
  round with \<open>update_stub\<close>, reports when the round is used up, and says so before it blocks
  (\<open>is_blocked\<close> and the message THREAD_BLOCKED), so that the main thread can sleep through rounds in
  its place. The version without virtual time is \<open>router_n.c\<close>. Both use a linked list
  (\<open>utils/linkedlist.c\<close>) for the routes and the buckets of a hash map (\<open>utils/hashmap.c\<close>) that holds
  the costs of the calls. A client and a server that exchange datagrams under virtual time
  (\<open>test/client_n_vt.c\<close>, \<open>test/server_n_vt.c\<close>) repeat the main thread and the stub with threads of
  their own. \<open>simpletun/simpletun.c\<close> tunnels the frames of a tap device over TCP,
  \<open>pkt_info.c\<close> prints packets.

  Theories, in the order of the imports.
  \<^item> \<open>VT_Prelude\<close>, \<open>C_Strings\<close>: options and \<open>outcome\<close> as results of C calls, reads from buffers,
    association lists; decimal numbers (\<open>sprintf\<close>, \<open>atoi\<close>), string comparison.
  \<^item> \<open>Linked_List\<close> (\<open>utils/linkedlist.c\<close>): every operation on a heap of cells with explicit
    pointers, frees and \<open>malloc\<close> results; the representation predicate of a doubly linked list and
    the abstraction to the list of its items; the queue interface \<open>list_queue\<close>.
  \<^item> \<open>Hash_Map\<close> (\<open>utils/hashmap.c\<close>): the 32-bit string hash, put, get, remove and destroy over that
    heap; the abstraction to a partial function; the interface \<open>int_map\<close>.
  \<^item> \<open>TK_Command\<close> (\<open>router_app_vt.c\<close>): the commands of the kernel module as text, their scanner, the
    loop that computes the advance of a round, the results written back.
  \<^item> \<open>VT_Stub\<close> (\<open>utils.c\<close>): messages through pipes, the cost table, \<open>update_stub\<close> cut at the point
    where it waits for the next round.
  \<^item> \<open>Round_Protocol\<close> (\<open>router_app_vt.c\<close>, loop of \<open>main\<close>): the main thread action by action, the
    contract \<open>worker_step\<close> of a worker over phases, their interleaving \<open>sys_step\<close>, the invariant
    \<open>proto_inv\<close>; the interfaces \<open>vt_worker\<close> and \<open>vt_worker_reliable\<close>.
  \<^item> \<open>Routing_Table\<close> (\<open>utils.c\<close>, options of \<open>router_app_vt.c\<close>): the routes file, the list of routes,
    the lookup of a packet, the clean-up.
  \<^item> \<open>Router_Thread\<close> (\<open>utils.c\<close>, \<open>process_thread\<close>): the forwarding thread as a step function with a
    program counter; its interpretation as a worker of the protocol.
  \<^item> \<open>Router_System\<close>: the start and the end of the router and the properties of the two threads
    together.
  \<^item> \<open>Plain_Router\<close> (\<open>router_n.c\<close>): the router without virtual time, and the proof that the one under
    virtual time refines it.
  \<^item> \<open>Stream_IO\<close> (\<open>utils.c\<close>), \<open>Tunnel\<close> (\<open>simpletun.c\<close>): reads and writes that fall short, the frames
    of the tunnel.
  \<^item> \<open>Sockets\<close> (\<open>utils.c\<close>): opening, naming and closing sockets and devices, sending a packet.
  \<^item> \<open>Packet_Info\<close> (\<open>pkt_info.c\<close>): the header printers, the hex dump, the counters.

  \<^item> \<open>Endpoint\<close> (both programs under \<open>test/\<close>): socket, buffer and the actions of a thread that spends,
    reports and gives up its round, as functions of the step functions of the next two.
  \<^item> \<open>Traffic_Client\<close> (\<open>client_n_vt.c\<close>), \<open>Traffic_Server\<close> (\<open>server_n_vt.c\<close>): the two threads as step
    functions, workers of \<open>Round_Protocol\<close> by interpretation; what each sends as a function of what it
    receives.
  \<^item> \<open>Traffic_Net\<close>: both programs with a network between them that can lose datagrams.
  \<^item> \<open>Traffic_Plain\<close> (\<open>client_n.c\<close>, \<open>server_n.c\<close>): the two without virtual time over the same network, and
    the proof that the experiment under virtual time refines theirs.
  \<^item> \<open>Udp_Sender\<close> (\<open>udp_client_n.c\<close>): a packet built from its headers with both checksums, and the file
    of hardware addresses; \<open>Packet_Test\<close> (\<open>test/pkt_info.c\<close>): the printer that goes with it;
    \<open>Sender_Router\<close>: the packets on their way through the router.

  Conventions. A function that can go wrong returns an option (\<open>None\<close> for undefined behaviour or a
  loop without end) or an \<open>outcome\<close> (also waiting for data, and the end of the process). Loops over
  the heap are \<open>partial_function\<close>, so that their termination is part of each theorem; the other loops
  are total functions with a measure, and no fuel is used. The results of system calls and of
  \<open>malloc\<close> are arguments, in the step functions a record \<open>env\<close>; the theorems hold for all of them
  unless a hypothesis says otherwise. The heap is split by the kind of block: list cells, the objects of a
  list, and the stream and line buffer of a file that was read; the headers and the array of a hash map
  are marked in the map. A pipe call of the main thread that fails takes it to \<open>M_Exit\<close>, after which no
  thread moves; one of a worker leaves it without a step. Numbers that wrap around in C are words (the hash, the elapsed
  time, counters); where the C code would overflow a signed number unexpectedly the model is \<open>None\<close>.
  The interleaving of the two threads is at the level of their accesses to shared data, and pipes
  are byte strings. \<open>errno\<close> after \<open>poll\<close> is taken to reach its test unchanged.

  What the lemmas show. List and map: the representation is kept, the operations are those on
  lists and partial functions, nothing is leaked or freed twice except as stated. Commands: scanning
  stays inside the text, ends, and reads back what was written. Protocol: one message at a time, a
  right flag, time accounted for in every interleaving, no deadlock without commands of length 0, and
  a deadlock once one is read in a later round. Router: packets are forwarded by the table, in order and unchanged, with and
  without virtual time. Its end frees the lists and the whole cost table, but no
  routing entry, nor the stream and line buffer of the routes file. Client and server: the requests are numbered by the replies, one datagram is out at a time,
  and one that is lost ends the exchange; what they do under virtual time they can do without. Sender:
  the packets are valid, and leave the router unchanged where its routes point. Tunnel: frames survive any fragmentation when every write is
  complete, but not a short write or a length beyond the buffer. Printing: the dump is the data in rows, reads stay inside the packet.

  Not modelled. The kernel module behind \<open>/proc/status\<close> and \<open>ioctl\<close> (its text is an argument), and
  the other system calls (their answers are arguments); \<open>get_interface_MAC\<close>, which drops its result,
  \<open>do_debug\<close> and \<open>my_err\<close>; the averages the clients of \<open>test/\<close> print; \<open>udp_server_n.c\<close>, which receives datagrams and
  drops them; the registration with the kernel module (\<open>addToExp_sp\<close>); and the Python scripts under \<open>src/src/mininet\<close>.
\<close>

end
